(* ===== verification/Prelude.thy ===== *)
theory Prelude
  imports Main "HOL-Library.Word"
begin

unbundle bit_operations_syntax

text \<open>
  Shared vocabulary of the development: the fixed-width integer types of the C sources,
  the result type of code that may end in \<open>neka_panic\<close>, and the generic facts on words,
  lists and functions that the component theories use. Nothing here models a particular
  source file.
\<close>

section \<open>Integer types\<close>

type_synonym u8 = "8 word"
type_synonym u16 = "16 word"
type_synonym u32 = "32 word"
type_synonym u64 = "64 word"

text \<open>
  The collections of rewrite rules: \<open>step_simps\<close> unfolds the sequencing of fallible
  code, \<open>mem_simps\<close> reads memory after writes, \<open>frame_simps\<close> says which fields an
  operation leaves alone.
\<close>

named_theorems step_simps
named_theorems mem_simps
named_theorems frame_simps

section \<open>Results of code that may panic\<close>

text \<open>
  \<open>neka_panic(category, code)\<close> never returns: it prints and halts the processor. A C
  function that may call it is modelled by a function into \<open>'s panic + 'a \<times> 's\<close>: \<open>Inl\<close> is
  the halted machine with the panic's category and code, \<open>Inr\<close> the value returned with
  the new state of the static variables.
\<close>

datatype 's panic = Panic string u64 's

type_synonym ('s, 'a) result = "'s panic + 'a \<times> 's"

definition bind_r :: "('s, 'a) result \<Rightarrow> ('a \<Rightarrow> 's \<Rightarrow> ('s, 'b) result) \<Rightarrow> ('s, 'b) result" where
  "bind_r r f = (case r of Inl e \<Rightarrow> Inl e | Inr (a, s) \<Rightarrow> f a s)"

lemma bind_r_Inl [simp, step_simps]: "bind_r (Inl e) f = Inl e"
  by (simp add: bind_r_def)

lemma bind_r_Inr [simp, step_simps]: "bind_r (Inr (a, s)) f = f a s"
  by (simp add: bind_r_def)

lemma bind_r_eq_Inr:
  "bind_r r f = Inr y \<longleftrightarrow> (\<exists>a s. r = Inr (a, s) \<and> f a s = Inr y)"
  by (cases r) auto

lemma bind_r_InrE:
  assumes "bind_r r f = Inr y"
  obtains a s where "r = Inr (a, s)" "f a s = Inr y"
  using assms by (auto simp: bind_r_eq_Inr)

text \<open>The same for code that may also run for ever (\<open>None\<close>).\<close>

type_synonym ('s, 'a) presult = "('s, 'a) result option"

definition bind_p :: "('s, 'a) presult \<Rightarrow> ('a \<Rightarrow> 's \<Rightarrow> ('s, 'b) presult) \<Rightarrow> ('s, 'b) presult" where
  "bind_p r f = (case r of None \<Rightarrow> None | Some (Inl e) \<Rightarrow> Some (Inl e) | Some (Inr (a, s)) \<Rightarrow> f a s)"

lemma bind_p_simps [simp, step_simps]:
  "bind_p None f = None" "bind_p (Some (Inl e)) f = Some (Inl e)" "bind_p (Some (Inr (a, s))) f = f a s"
  by (simp_all add: bind_p_def)

section \<open>Numbers\<close>

lemma div_range: "0 < k \<Longrightarrow> x div k = a \<longleftrightarrow> a * k \<le> x \<and> x < (a + 1) * (k :: nat)"
  by (metis Suc_eq_plus1 div_nat_eqI div_times_less_eq_dividend dividend_less_div_times mult.commute
      mult_Suc)

section \<open>Words\<close>

lemma unat_bound64 [simp]: "unat (x :: u64) < 18446744073709551616"
  using unsigned_less [of x] by simp

lemma unat_bound32 [simp]: "unat (x :: u32) < 4294967296"
  using unsigned_less [of x] by simp

lemma unat_bound8 [simp]: "unat (x :: u8) < 256"
  using unsigned_less [of x] by simp

lemma unat_add_small:
  "unat (a :: u64) + unat b < 18446744073709551616 \<Longrightarrow> unat (a + b) = unat a + unat b"
  by (simp add: unat_word_ariths)

lemma unat_sub_small: "b \<le> a \<Longrightarrow> unat (a - b :: u64) = unat a - unat b"
  by (rule unat_sub)

lemma unat_of_nat_small: "n < 18446744073709551616 \<Longrightarrow> unat (of_nat n :: u64) = n"
  by (simp add: unat_of_nat)

text \<open>Clearing the low bits rounds down to a multiple of the power of two.\<close>

lemma and_not_mask_shift: "x AND NOT (mask n) = push_bit n (drop_bit n (x :: 'a :: len word))"
  by (rule bit_word_eqI) (auto simp: bit_simps)

lemma unat_and_not_mask:
  assumes "n < LENGTH('a)"
  shows "unat (x AND NOT (mask n) :: 'a :: len word) = unat x div 2 ^ n * 2 ^ n"
proof -
  have "unat x div 2 ^ n * 2 ^ n \<le> unat x" by simp
  also have "unat x < 2 ^ LENGTH('a)" by (rule unsigned_less)
  finally have "unat x div 2 ^ n * 2 ^ n < 2 ^ LENGTH('a)" .
  moreover have "unat (push_bit n (drop_bit n x)) = take_bit LENGTH('a) (push_bit n (unat (drop_bit n x)))"
    by (rule unsigned_push_bit_eq)
  moreover have "unat (drop_bit n x) = drop_bit n (unat x)"
    by (rule unat_drop_bit_eq)
  ultimately show ?thesis
    by (simp only: and_not_mask_shift push_bit_eq_mult drop_bit_eq_div take_bit_eq_mod) simp
qed

text \<open>The simplifier writes the complements \<open>NOT 15\<close> and \<open>NOT 4095\<close> as negative numerals.\<close>

lemma unat_and_not_15: "unat (x AND - 16 :: u64) = unat x div 16 * 16"
  using unat_and_not_mask [of 4 x] by (simp add: mask_eq_exp_minus_1)

lemma unat_and_not_4095: "unat (x AND - 4096 :: u64) = unat x div 4096 * 4096"
  using unat_and_not_mask [of 12 x] by (simp add: mask_eq_exp_minus_1)

lemma word_of_nat_unat [simp]: "(of_nat (unat (x :: u64)) :: u64) = x"
  by simp

end
