(* ===== verification/Console.thy ===== *)
theory Console
  imports Prelude
begin

text \<open>
  The text console of the 64-bit kernel (\<open>src/terminal64.c\<close>) and the panic stop built on
  it (\<open>src/panic.c\<close>). The record \<open>console\<close> holds the file's static variables and the two
  devices it drives: the VGA text buffer, indexed by cell and unbounded in the model so
  that a write past its 2000 cells is visible, and the UART. Of the UART the code uses one
  thing: the transmitter-empty bit of the line status register becomes set again some
  number of polls after a byte was written. \<open>tx_busy\<close> is that number now, \<open>tx_time\<close> the
  number after the next byte; both are arbitrary. \<open>uart_log\<close> is the sequence of
  port writes. The C \<open>int\<close> counters \<open>term_row\<close> and \<open>term_col\<close> start at 0 and are only
  incremented and reset, so they are natural numbers.
\<close>

record console =
  vga :: "nat \<Rightarrow> u16"
  term_row :: nat
  term_col :: nat
  tx_busy :: nat
  tx_time :: nat
  uart_log :: "(u16 \<times> u8) list"

abbreviation (input) nl :: char where "nl \<equiv> CHR 0x0A"

abbreviation (input) COM1 :: u16 where "COM1 \<equiv> 0x3F8"

section \<open>The serial port\<close>

definition uart_out :: "u16 \<Rightarrow> u8 \<Rightarrow> 'a console_scheme \<Rightarrow> 'a console_scheme" where
  "uart_out port val k = k\<lparr>uart_log := uart_log k @ [(port, val)]\<rparr>"

definition serial_init :: "'a console_scheme \<Rightarrow> 'a console_scheme" where
  "serial_init k =
     (let k = uart_out (COM1 + 1) 0x00 k; k = uart_out (COM1 + 3) 0x80 k;
          k = uart_out (COM1 + 0) 0x03 k; k = uart_out (COM1 + 1) 0x00 k;
          k = uart_out (COM1 + 3) 0x03 k; k = uart_out (COM1 + 2) 0xC7 k
      in uart_out (COM1 + 4) 0x0B k)"

text \<open>Reading the line status register: bit 5 is set once the transmitter is empty.\<close>

definition inb_lsr :: "'a console_scheme \<Rightarrow> u8 \<times> 'a console_scheme" where
  "inb_lsr k = (if tx_busy k = 0 then (0x60, k) else (0x00, k\<lparr>tx_busy := tx_busy k - 1\<rparr>))"

function serial_wait :: "'a console_scheme \<Rightarrow> 'a console_scheme" where
  "serial_wait k =
     (case inb_lsr k of (r, k') \<Rightarrow> if r AND 0x20 = 0 then serial_wait k' else k')"
  by pat_completeness auto
termination
  by (relation "measure tx_busy") (auto simp: inb_lsr_def split: if_splits)

declare serial_wait.simps [simp del]

definition serial_putc :: "char \<Rightarrow> 'a console_scheme \<Rightarrow> 'a console_scheme" where
  "serial_putc c k = (let k = serial_wait k in
     (uart_out COM1 (of_char c) k)\<lparr>tx_busy := tx_time k\<rparr>)"

section \<open>The screen\<close>

text \<open>
  \<open>(uint16_t)c\<close> of a signed \<open>char\<close> is a sign extension: \<open>scast\<close>.
\<close>

definition putc_vga :: "char \<Rightarrow> 'a console_scheme \<Rightarrow> 'a console_scheme" where
  "putc_vga c k =
     (if c = nl then
        let row = term_row k + 1
        in k\<lparr>term_col := 0, term_row := (if row \<ge> 25 then 0 else row)\<rparr>
      else
        let k = k\<lparr>vga := (vga k)(term_row k * 80 + term_col k :=
                    scast (of_char c :: u8) OR 0x0A00)\<rparr>;
            col = term_col k + 1
        in if col \<ge> 80
           then let row = term_row k + 1
                in k\<lparr>term_col := 0, term_row := (if row \<ge> 25 then 0 else row)\<rparr>
           else k\<lparr>term_col := col\<rparr>)"

text \<open>
  \<open>kprint\<close> on the processor that holds \<open>print_lock\<close>: the loop runs to the first NUL
  byte, which the end of the model's string also stands for. The lock and the
  interrupt flag around the loop are the subject of theory \<open>Print_Lock\<close>.
\<close>

fun kprint :: "string \<Rightarrow> 'a console_scheme \<Rightarrow> 'a console_scheme" where
  "kprint [] k = k"
| "kprint (c # s) k = (if c = CHR 0x00 then k else kprint s (serial_putc c (putc_vga c k)))"

abbreviation (input) hex_digits :: string where "hex_digits \<equiv> ''0123456789ABCDEF''"

function hex64_loop :: "nat \<Rightarrow> u64 \<Rightarrow> string \<Rightarrow> string" where
  "hex64_loop i val buf =
     (if i < 16
      then hex64_loop (i + 1) (drop_bit 4 val) (buf[17 - i := hex_digits ! unat (val AND 0xF)])
      else buf)"
  by pat_completeness auto
termination
  by (relation "measure (\<lambda>(i, _, _). 16 - i)") auto

declare hex64_loop.simps [simp del]

definition hex64_buf :: "u64 \<Rightarrow> string" where
  "hex64_buf val = hex64_loop 0 val ''0x0000000000000000''"

definition kprint_hex64 :: "u64 \<Rightarrow> 'a console_scheme \<Rightarrow> 'a console_scheme" where
  "kprint_hex64 val k = kprint (hex64_buf val) k"

definition terminal64_init :: "'a console_scheme \<Rightarrow> 'a console_scheme" where
  "terminal64_init k =
     (let k = serial_init k;
          k = fold (\<lambda>y k. fold (\<lambda>x k. k\<lparr>vga := (vga k)(y * 80 + x :=
                 0x0A00 OR of_char (CHR '' ''))\<rparr>) [0..<80] k) [0..<25] k
      in k\<lparr>term_row := 0, term_col := 0\<rparr>)"

definition neka_panic :: "string \<Rightarrow> u64 \<Rightarrow> 'a console_scheme \<Rightarrow> 'a console_scheme panic" where
  "neka_panic category code k =
     Panic category code
       (kprint ([nl] @ ''System halted.'' @ [nl])
         (kprint_hex64 code
           (kprint ''] code='' (kprint category (kprint ([nl] @ ''*** NEKA PANIC ['') k)))))"

section \<open>Facts about single characters\<close>

lemma serial_wait_fields:
  "serial_wait k = k\<lparr>tx_busy := 0\<rparr>"
proof (induction k rule: serial_wait.induct)
  case (1 k)
  show ?case
  proof (cases "tx_busy k = 0")
    case True
    then show ?thesis by (subst serial_wait.simps) (simp add: inb_lsr_def)
  next
    case False
    with 1 show ?thesis by (subst serial_wait.simps) (simp add: inb_lsr_def)
  qed
qed

lemma serial_putc_fields [frame_simps]:
  "serial_putc c k = k\<lparr>uart_log := uart_log k @ [(COM1, of_char c)], tx_busy := tx_time k\<rparr>"
  by (simp add: serial_putc_def serial_wait_fields uart_out_def Let_def)

definition con_ok :: "'a console_scheme \<Rightarrow> bool" where
  "con_ok k \<longleftrightarrow> term_row k < 25 \<and> term_col k < 80"

lemma putc_vga_ok: "con_ok k \<Longrightarrow> con_ok (putc_vga c k)"
  by (auto simp: con_ok_def putc_vga_def Let_def)

lemma serial_putc_ok [simp]: "con_ok (serial_putc c k) = con_ok k"
  by (simp add: con_ok_def serial_putc_fields)

lemma serial_putc_vga [simp]: "vga (serial_putc c k) = vga k"
  by (simp add: serial_putc_fields)

lemma putc_vga_uart [frame_simps, simp]:
  "uart_log (putc_vga c k) = uart_log k" "tx_time (putc_vga c k) = tx_time k"
  by (auto simp: putc_vga_def Let_def)

lemma putc_vga_outside:
  assumes "con_ok k" "2000 \<le> i"
  shows "vga (putc_vga c k) i = vga k i"
  using assms by (auto simp: con_ok_def putc_vga_def Let_def)

text \<open>Clearing the screen.\<close>

lemma fold_vga:
  "fold (\<lambda>x k. k\<lparr>vga := (vga k)(f x := v)\<rparr>) xs k = k\<lparr>vga := fold (\<lambda>x g. g(f x := v)) xs (vga k)\<rparr>"
  by (induction xs arbitrary: k) simp_all

lemma fold_vga2:
  "fold (\<lambda>y k. fold (\<lambda>x k. k\<lparr>vga := (vga k)(f y x := v)\<rparr>) xs k) ys k =
    k\<lparr>vga := fold (\<lambda>y g. fold (\<lambda>x g. g(f y x := v)) xs g) ys (vga k)\<rparr>"
  by (induction ys arbitrary: k) (simp_all add: fold_vga)

section \<open>Whole strings\<close>

lemma kprint_ok: "con_ok k \<Longrightarrow> con_ok (kprint s k)"
  by (induction s k rule: kprint.induct) (auto simp: putc_vga_ok)

lemma kprint_outside: "con_ok k \<Longrightarrow> 2000 \<le> i \<Longrightarrow> vga (kprint s k) i = vga k i"
proof (induction s k rule: kprint.induct)
  case (2 c s k)
  then show ?case by (auto simp: putc_vga_ok putc_vga_outside serial_putc_vga)
qed simp

lemma kprint_uart:
  "uart_log (kprint s k) =
     uart_log k @ map (\<lambda>c. (COM1, of_char c)) (takeWhile (\<lambda>c. c \<noteq> CHR 0x00) s)"
  by (induction s k rule: kprint.induct) (auto simp: serial_putc_fields)

lemma kprint_append:
  "CHR 0x00 \<notin> set s \<Longrightarrow> kprint (s @ t) k = kprint t (kprint s k)"
  by (induction s arbitrary: k) auto

text \<open>Printing changes the console fields only: the frame facts of the other components.\<close>

lemma putc_vga_frame:
  "\<exists>v r c'. putc_vga c k = k\<lparr>vga := v, term_row := r, term_col := c'\<rparr>"
proof (cases "c = nl")
  case True
  then have "putc_vga c k = k\<lparr>vga := vga k, term_row := term_row (putc_vga c k), term_col := 0\<rparr>"
    by (simp add: putc_vga_def Let_def)
  then show ?thesis by blast
next
  case False
  then have "putc_vga c k = k\<lparr>vga := vga (putc_vga c k), term_row := term_row (putc_vga c k),
      term_col := term_col (putc_vga c k)\<rparr>"
    by (simp add: putc_vga_def Let_def)
  then show ?thesis by blast
qed

lemma kprint_frame:
  "\<exists>v r c b l. kprint s k = k\<lparr>vga := v, term_row := r, term_col := c, tx_busy := b, uart_log := l\<rparr>"
proof (induction s arbitrary: k)
  case Nil
  have "kprint [] k = k\<lparr>vga := vga k, term_row := term_row k, term_col := term_col k,
      tx_busy := tx_busy k, uart_log := uart_log k\<rparr>" by simp
  then show ?case by blast
next
  case (Cons a s)
  obtain v r c where p: "putc_vga a k = k\<lparr>vga := v, term_row := r, term_col := c\<rparr>"
    using putc_vga_frame by blast
  obtain v' r' c' b' l' where q: "kprint s (serial_putc a (putc_vga a k)) =
      (serial_putc a (putc_vga a k))\<lparr>vga := v', term_row := r', term_col := c', tx_busy := b', uart_log := l'\<rparr>"
    using Cons by blast
  have "kprint (a # s) k = (if a = CHR 0x00 then k else
      k\<lparr>vga := v', term_row := r', term_col := c', tx_busy := b', uart_log := l'\<rparr>)"
    using q by (simp add: serial_putc_fields p)
  moreover have "k = k\<lparr>vga := vga k, term_row := term_row k, term_col := term_col k,
      tx_busy := tx_busy k, uart_log := uart_log k\<rparr>" by simp
  ultimately show ?case by (cases "a = CHR 0x00") (metis, metis)
qed

lemma kprint_hex64_frame:
  "\<exists>v r c b l. kprint_hex64 x k =
     k\<lparr>vga := v, term_row := r, term_col := c, tx_busy := b, uart_log := l\<rparr>"
  unfolding kprint_hex64_def by (rule kprint_frame)

declare kprint.simps [simp del]

section \<open>Hexadecimal output\<close>

text \<open>The digits of a value, least significant first.\<close>

fun nibbles :: "nat \<Rightarrow> u64 \<Rightarrow> string" where
  "nibbles 0 v = []"
| "nibbles (Suc n) v = hex_digits ! unat (v AND 0xF) # nibbles n (drop_bit 4 v)"

lemma length_nibbles [simp]: "length (nibbles n v) = n"
  by (induction n v rule: nibbles.induct) auto

lemma hex64_loop_eq:
  assumes "i \<le> 16" "length buf = 18"
  shows "hex64_loop i v buf = take 2 buf @ rev (nibbles (16 - i) v) @ drop (18 - i) buf"
  using assms
proof (induction i v buf rule: hex64_loop.induct)
  case (1 i v buf)
  show ?case
  proof (cases "i < 16")
    case True
    let ?d = "hex_digits ! unat (v AND 0xF)"
    have n: "16 - i = Suc (16 - (i + 1))" using True by simp
    have "drop (18 - (i + 1)) (buf[17 - i := ?d]) = ?d # drop (18 - i) buf"
      using True 1(3) by (subst Cons_nth_drop_Suc [symmetric]) (auto simp: Suc_diff_le [symmetric])
    then show ?thesis
      using 1(1) [OF True] True 1(3) by (simp add: hex64_loop.simps [of i] n)
  next
    case False
    with 1(2) have "i = 16" by simp
    then show ?thesis using 1(3) by (simp add: hex64_loop.simps [of 16])
  qed
qed

lemma hex64_buf_eq: "hex64_buf v = ''0x'' @ rev (nibbles 16 v)"
  by (simp add: hex64_buf_def hex64_loop_eq)

text \<open>Reading the digits back.\<close>

definition hex_value :: "char \<Rightarrow> nat" where
  "hex_value c = length (takeWhile (\<lambda>d. d \<noteq> c) hex_digits)"

definition parse_hex :: "string \<Rightarrow> nat" where
  "parse_hex s = foldl (\<lambda>n c. 16 * n + hex_value c) 0 s"

lemma hex_value_digit_all: "list_all (\<lambda>n. hex_value (hex_digits ! n) = n) [0..<16]"
  by code_simp

lemma hex_value_digit: "n < 16 \<Longrightarrow> hex_value (hex_digits ! n) = n"
  using hex_value_digit_all by (auto simp: list_all_iff)

lemma unat_low_nibble: "unat (v AND 0xF :: u64) = unat v mod 16"
proof -
  have "v AND 0xF = take_bit 4 v"
    by (simp add: take_bit_eq_mask mask_eq_exp_minus_1)
  then show ?thesis by (simp add: take_bit_eq_mod unat_mod_distrib)
qed

lemma parse_nibbles: "parse_hex (rev (nibbles n v)) = unat v mod 16 ^ n"
proof (induction n v rule: nibbles.induct)
  case (2 n v)
  have "unat v mod 16 ^ Suc n = unat v mod 16 + 16 * (unat v div 16 mod 16 ^ n)"
    by (simp add: mod_mult2_eq)
  then show ?case
    using 2 by (simp add: parse_hex_def hex_value_digit unat_low_nibble unat_div_distrib
        drop_bit_eq_div)
qed (simp add: parse_hex_def)

section \<open>What a string sends\<close>

definition serial :: "string \<Rightarrow> (u16 \<times> u8) list" where
  "serial = map (\<lambda>c. (COM1, of_char c))"

lemma serial_append [simp]: "serial (t @ t') = serial t @ serial t'" and serial_Nil [simp]: "serial [] = []"
  by (simp_all add: serial_def)

lemma kprint_plain: "CHR 0x00 \<notin> set t \<Longrightarrow> uart_log (kprint t k) = uart_log k @ serial t"
proof -
  assume "CHR 0x00 \<notin> set t"
  then have "takeWhile (\<lambda>c. c \<noteq> CHR 0x00) t = t" by (auto simp: takeWhile_eq_all_conv)
  then show ?thesis unfolding kprint_uart serial_def by (rule ssubst) (rule refl)
qed

lemma hex_digit_no_nul: "hex_digits ! unat (x AND 0xF :: u64) \<noteq> CHR 0x00"
proof -
  have "hex_digits ! unat (x AND 0xF) \<in> set hex_digits"
    by (rule nth_mem) (simp add: unat_low_nibble)
  then show ?thesis by auto
qed

lemma nibbles_no_nul: "CHR 0x00 \<notin> set (nibbles n v)"
  by (induction n v rule: nibbles.induct) (simp_all add: hex_digit_no_nul [symmetric])

lemma kprint_hex64_uart: "uart_log (kprint_hex64 v k) = uart_log k @ serial (hex64_buf v)"
  unfolding kprint_hex64_def by (rule kprint_plain) (simp add: hex64_buf_eq nibbles_no_nul)

text \<open>Printing changes the console only.\<close>

definition console_step :: "'a console_scheme \<Rightarrow> string \<Rightarrow> 'a console_scheme \<Rightarrow> bool" where
  "console_step s t s' \<longleftrightarrow> uart_log s' = uart_log s @ serial t \<and>
     (\<exists>v r c b u. s' = s\<lparr>vga := v, term_row := r, term_col := c, tx_busy := b, uart_log := u\<rparr>)"

lemma console_step_refl: "console_step s [] s"
  unfolding console_step_def by (intro conjI exI [of _ "vga s"] exI [of _ "term_row s"] exI [of _ "term_col s"]
      exI [of _ "tx_busy s"] exI [of _ "uart_log s"]) simp_all

lemma console_step_trans: "console_step s t s' \<Longrightarrow> console_step s' t' s'' \<Longrightarrow> console_step s (t @ t') s''"
  unfolding console_step_def by (elim conjE exE) (intro conjI exI, simp, simp)

lemma console_step_kprint: "CHR 0x00 \<notin> set t \<Longrightarrow> console_step s t (kprint t s)"
  using kprint_plain [of t s] kprint_frame [of t s] unfolding console_step_def by auto

lemma console_step_hex: "console_step s (hex64_buf v) (kprint_hex64 v s)"
  using kprint_hex64_uart [of v s] kprint_hex64_frame [of v s] unfolding console_step_def by auto

text \<open>A sequence of prints sends the concatenation, peeled off from the first.\<close>

lemma console_step_before: "CHR 0x00 \<notin> set t \<Longrightarrow> console_step (kprint t s) r s' \<Longrightarrow> console_step s (t @ r) s'"
  by (rule console_step_trans [OF console_step_kprint])

lemma console_step_before_hex: "console_step (kprint_hex64 v s) r s' \<Longrightarrow> console_step s (hex64_buf v @ r) s'"
  by (rule console_step_trans [OF console_step_hex])

section \<open>Properties\<close>

text \<open>C27. Whatever string is printed from a cursor inside the 80x25 screen, the cursor stays
  inside it and no cell past the 2000 cells of the VGA text buffer is written (the defect
  that the wrap-around of \<open>term_row\<close> in \<open>putc_vga\<close> was added for).\<close>

theorem kprint_stays_on_screen:
  assumes "con_ok k"
  shows "con_ok (kprint s k) \<and> (\<forall>i \<ge> 2000. vga (kprint s k) i = vga k i)"
  using assms by (simp add: kprint_ok kprint_outside)

definition blank_console :: console where
  "blank_console = \<lparr>vga = (\<lambda>_. 0), term_row = 0, term_col = 0, tx_busy = 0, tx_time = 3,
     uart_log = []\<rparr>"

theorem kprint_stays_on_screen_witness:
  "con_ok blank_console \<and> con_ok (kprint ''hello'' blank_console) \<and>
   vga (kprint ''hello'' blank_console) 2000 = vga blank_console 2000"
proof -
  have "con_ok blank_console" by (simp add: con_ok_def blank_console_def)
  then show ?thesis using kprint_stays_on_screen [of blank_console "''hello''"] by simp
qed

text \<open>\<open>kprint\<close> returns whatever the UART's delays are, and sends exactly the bytes of
  the string up to its NUL terminator to COM1, in order, after everything sent before.\<close>

theorem kprint_serial_output:
  "uart_log (kprint s k) =
     uart_log k @ map (\<lambda>c. (COM1, of_char c)) (takeWhile (\<lambda>c. c \<noteq> CHR 0x00) s)"
  by (rule kprint_uart)

text \<open>\<open>kprint_hex64\<close> prints \<open>0x\<close> and sixteen digits that read back as the value: no
  64-bit value is truncated or padded wrongly.\<close>

theorem hex64_roundtrip:
  "length (hex64_buf v) = 18 \<and> take 2 (hex64_buf v) = ''0x'' \<and>
   parse_hex (drop 2 (hex64_buf v)) = unat v"
  using parse_nibbles [of 16 v] by (simp add: hex64_buf_eq)

end
