(* ===== verification/Print_Lock.thy ===== *)
theory Print_Lock
  imports Console
begin

text \<open>
  \<open>kprint\<close> on several processors (\<open>src/terminal64.c\<close>): each saves its interrupt flag
  and clears it, spins on \<open>print_lock\<close>, prints one character at a time (screen, then
  serial port), releases the lock and restores the flag. A step of the system is a step of
  one processor. \<open>printed\<close> is a history variable: the strings of the calls that have
  released the lock, in that order.
\<close>

datatype print_pc =
    Idle
  | Spin string bool
  | Screen string string bool
  | Serial string string bool
  | Restore bool

record 'k print_sys =
  screen :: 'k
  print_lock :: bool
  print_pcs :: "nat \<Rightarrow> print_pc"
  int_flag :: "nat \<Rightarrow> bool"
  printed :: "string list"

inductive print_step :: "'a console_scheme print_sys \<Rightarrow> 'a console_scheme print_sys \<Rightarrow> bool" where
  call_print: "print_pcs s p = Idle \<Longrightarrow>
     print_step s (s\<lparr>print_pcs := (print_pcs s)(p := Spin str (int_flag s p)),
                    int_flag := (int_flag s)(p := False)\<rparr>)"
| print_lock_acquire: "print_pcs s p = Spin str f \<Longrightarrow> \<not> print_lock s \<Longrightarrow>
     print_step s (s\<lparr>print_lock := True,
                    print_pcs := (print_pcs s)(p := Screen str str f)\<rparr>)"
| put_screen: "print_pcs s p = Screen str (c # cs) f \<Longrightarrow> c \<noteq> CHR 0x00 \<Longrightarrow>
     print_step s (s\<lparr>screen := putc_vga c (screen s),
                    print_pcs := (print_pcs s)(p := Serial str (c # cs) f)\<rparr>)"
| put_serial: "print_pcs s p = Serial str (c # cs) f \<Longrightarrow>
     print_step s (s\<lparr>screen := serial_putc c (screen s),
                    print_pcs := (print_pcs s)(p := Screen str cs f)\<rparr>)"
| print_lock_release: "print_pcs s p = Screen str cs f \<Longrightarrow> cs = [] \<or> hd cs = CHR 0x00 \<Longrightarrow>
     print_step s (s\<lparr>print_lock := False,
                    print_pcs := (print_pcs s)(p := Restore f),
                    printed := printed s @ [str]\<rparr>)"
| restore_flag: "print_pcs s p = Restore f \<Longrightarrow>
     print_step s (s\<lparr>print_pcs := (print_pcs s)(p := Idle),
                    int_flag := (int_flag s)(p := f)\<rparr>)"

inductive print_reach :: "'a console_scheme \<Rightarrow> 'a console_scheme print_sys \<Rightarrow> bool" for k where
  print_start: "print_reach k \<lparr>screen = k, print_lock = False, print_pcs = (\<lambda>_. Idle),
     int_flag = fl, printed = []\<rparr>"
| print_more: "print_reach k s \<Longrightarrow> print_step s t \<Longrightarrow> print_reach k t"

section \<open>The invariant\<close>

text \<open>
  A processor between acquire and release is a holder. The rest of its work, done now,
  would bring the console where the whole string printed in one go after the completed
  calls brings it.
\<close>

fun holding :: "print_pc \<Rightarrow> bool" where
  "holding (Screen _ _ _) = True"
| "holding (Serial _ _ _) = True"
| "holding _ = False"

fun finish_print :: "print_pc \<Rightarrow> 'a console_scheme \<Rightarrow> 'a console_scheme" where
  "finish_print (Screen _ cs _) k = kprint cs k"
| "finish_print (Serial _ (c # cs) _) k = kprint cs (serial_putc c k)"
| "finish_print _ k = k"

fun print_string :: "print_pc \<Rightarrow> string" where
  "print_string (Screen str _ _) = str"
| "print_string (Serial str _ _) = str"
| "print_string _ = []"

definition print_inv :: "'a console_scheme \<Rightarrow> 'a console_scheme print_sys \<Rightarrow> bool" where
  "print_inv k s \<longleftrightarrow>
     (\<not> print_lock s \<longrightarrow>
        (\<forall>p. \<not> holding (print_pcs s p)) \<and> screen s = fold kprint (printed s) k) \<and>
     (print_lock s \<longrightarrow> (\<exists>p. holding (print_pcs s p) \<and>
        (\<forall>q. holding (print_pcs s q) \<longrightarrow> q = p) \<and>
        finish_print (print_pcs s p) (screen s) =
          kprint (print_string (print_pcs s p)) (fold kprint (printed s) k)))"

lemma print_inv_lockedD:
  assumes "print_inv k s" "holding (print_pcs s p)"
  shows "print_lock s" "holding (print_pcs s q) \<Longrightarrow> q = p"
    "finish_print (print_pcs s p) (screen s) =
       kprint (print_string (print_pcs s p)) (fold kprint (printed s) k)"
  using assms unfolding print_inv_def by blast+

lemma print_inv_lockedI:
  assumes "print_lock s" "holding (print_pcs s p)"
    "\<And>q. holding (print_pcs s q) \<Longrightarrow> q = p"
    "finish_print (print_pcs s p) (screen s) =
       kprint (print_string (print_pcs s p)) (fold kprint (printed s) k)"
  shows "print_inv k s"
  using assms unfolding print_inv_def by blast

text \<open>A step of a processor that neither holds nor takes the lock.\<close>

lemma print_inv_bystander:
  assumes "print_inv k s" "\<not> holding (print_pcs s p)" "\<not> holding pc"
    "screen t = screen s" "print_lock t = print_lock s" "printed t = printed s"
    "print_pcs t = (print_pcs s)(p := pc)"
  shows "print_inv k t"
proof (cases "print_lock s")
  case True
  then obtain h where h: "holding (print_pcs s h)" using assms(1) unfolding print_inv_def by blast
  with assms(2) have hp: "h \<noteq> p" by blast
  show ?thesis
  proof (rule print_inv_lockedI [where p = h])
    show "holding (print_pcs t h)" using h hp assms(7) by simp
    show "q = h" if "holding (print_pcs t q)" for q
      using that assms(3,7) print_inv_lockedD(2) [OF assms(1) h, of q]
      by (cases "q = p") simp_all
    show "finish_print (print_pcs t h) (screen t) =
        kprint (print_string (print_pcs t h)) (fold kprint (printed t) k)"
      using print_inv_lockedD(3) [OF assms(1) h] hp assms(4,6,7) by simp
  qed (simp add: True assms(5))
next
  case False
  then show ?thesis using assms by (auto simp: print_inv_def)
qed

text \<open>A step of the processor that holds the lock and goes on holding it.\<close>

lemma print_inv_holder:
  assumes "print_inv k s" "holding (print_pcs s p)" "holding pc"
    "print_lock t = print_lock s" "printed t = printed s" "print_pcs t = (print_pcs s)(p := pc)"
    "print_string pc = print_string (print_pcs s p)"
    "finish_print pc (screen t) = finish_print (print_pcs s p) (screen s)"
  shows "print_inv k t"
proof (rule print_inv_lockedI [where p = p])
  show "q = p" if "holding (print_pcs t q)" for q
    using that assms(6) print_inv_lockedD(2) [OF assms(1,2), of q] by (cases "q = p") simp_all
  show "finish_print (print_pcs t p) (screen t) =
      kprint (print_string (print_pcs t p)) (fold kprint (printed t) k)"
    using print_inv_lockedD(3) [OF assms(1,2)] by (simp add: assms(5-8))
qed (simp_all add: assms(3,4,6) print_inv_lockedD(1) [OF assms(1,2)])

lemma kprint_done: "cs = [] \<or> hd cs = CHR 0x00 \<Longrightarrow> kprint cs k = k"
  by (cases cs) (auto simp: kprint.simps)

lemma print_step_inv: "print_step s t \<Longrightarrow> print_inv k s \<Longrightarrow> print_inv k t"
proof (induction rule: print_step.induct)
  case (call_print s p str)
  show ?case
    by (rule print_inv_bystander [where s = s and p = p and pc = "Spin str (int_flag s p)"])
      (use call_print in simp_all)
next
  case (print_lock_acquire s p str f)
  then have "\<And>q. \<not> holding (print_pcs s q)" "screen s = fold kprint (printed s) k"
    by (simp_all add: print_inv_def)
  then show ?case by - (rule print_inv_lockedI [where p = p], simp_all split: if_splits)
next
  case (put_screen s p str c cs f)
  show ?case
    by (rule print_inv_holder [where s = s and p = p and pc = "Serial str (c # cs) f"])
      (use put_screen in \<open>simp_all add: kprint.simps\<close>)
next
  case (put_serial s p str c cs f)
  show ?case
    by (rule print_inv_holder [where s = s and p = p and pc = "Screen str cs f"])
      (use put_serial in \<open>simp_all add: kprint.simps\<close>)
next
  case (print_lock_release s p str cs f)
  then have h: "holding (print_pcs s p)" by simp
  have "\<not> holding (((print_pcs s)(p := Restore f)) q)" for q
    using print_inv_lockedD(2) [OF print_lock_release.prems h, of q] by (cases "q = p") auto
  moreover have "screen s = kprint str (fold kprint (printed s) k)"
    using print_inv_lockedD(3) [OF print_lock_release.prems h] print_lock_release.hyps
    by (simp add: kprint_done)
  ultimately show ?case by (simp add: print_inv_def)
next
  case (restore_flag s p f)
  show ?case
    by (rule print_inv_bystander [where s = s and p = p and pc = Idle])
      (use restore_flag in simp_all)
qed

lemma print_reach_inv: "print_reach k s \<Longrightarrow> print_inv k s"
proof (induction rule: print_reach.induct)
  case (print_start fl)
  then show ?case by (simp add: print_inv_def)
next
  case (print_more s t)
  then show ?case by (blast intro: print_step_inv)
qed

section \<open>Properties\<close>

text \<open>C19. Output of several processors never mixes: at every moment when no processor
  holds \<open>print_lock\<close>, screen, cursor and serial port are as if the completed \<open>kprint\<close>
  calls had run one after the other in the order in which they released the lock.\<close>

theorem kprint_calls_serialize:
  assumes "print_reach k s" "\<not> print_lock s"
  shows "screen s = fold kprint (printed s) k"
  using print_reach_inv [OF assms(1)] assms(2) by (simp add: print_inv_def)

text \<open>A run of the system: processor 0 prints \<open>A\<close> while processor 1 waits for the lock.\<close>

definition run_end :: "console print_sys" where
  "run_end = \<lparr>screen = serial_putc CHR ''A'' (putc_vga CHR ''A'' blank_console),
     print_lock = False,
     print_pcs = (\<lambda>_. Idle)(0 := Restore True, 1 := Spin ''B'' True),
     int_flag = (\<lambda>_. True)(0 := False, 1 := False), printed = [''A'']\<rparr>"

lemma run_end_reachable: "print_reach blank_console run_end"
proof -
  let ?f = "(\<lambda>_. True)(0 := False, 1 := False) :: nat \<Rightarrow> bool"
  let ?pcs = "\<lambda>pc0. (\<lambda>_. Idle)(0 := pc0, 1 := Spin ''B'' True) :: nat \<Rightarrow> print_pc"
  let ?k1 = "putc_vga CHR ''A'' blank_console"
  note start = print_start [of blank_console "\<lambda>_. True"]
  have "print_reach blank_console \<lparr>screen = blank_console, print_lock = False,
      print_pcs = (\<lambda>_. Idle)(0 := Spin ''A'' True), int_flag = (\<lambda>_. True)(0 := False), printed = []\<rparr>"
    using print_more [OF start call_print [of _ 0 "''A''"]] by simp
  from print_more [OF this call_print [of _ 1 "''B''"]]
  have "print_reach blank_console \<lparr>screen = blank_console, print_lock = False,
      print_pcs = ?pcs (Spin ''A'' True), int_flag = ?f, printed = []\<rparr>" by simp
  from print_more [OF this print_lock_acquire [of _ 0 "''A''" True]]
  have "print_reach blank_console \<lparr>screen = blank_console, print_lock = True,
      print_pcs = ?pcs (Screen ''A'' ''A'' True), int_flag = ?f, printed = []\<rparr>"
    by (simp add: fun_upd_twist)
  from print_more [OF this put_screen [of _ 0 "''A''" "CHR ''A''" "[]" True]]
  have "print_reach blank_console \<lparr>screen = ?k1, print_lock = True,
      print_pcs = ?pcs (Serial ''A'' ''A'' True), int_flag = ?f, printed = []\<rparr>"
    by (simp add: fun_upd_twist)
  from print_more [OF this put_serial [of _ 0 "''A''" "CHR ''A''" "[]" True]]
  have "print_reach blank_console \<lparr>screen = serial_putc CHR ''A'' ?k1, print_lock = True,
      print_pcs = ?pcs (Screen ''A'' [] True), int_flag = ?f, printed = []\<rparr>"
    by (simp add: fun_upd_twist)
  from print_more [OF this print_lock_release [of _ 0 "''A''" "[]" True]]
  show ?thesis by (simp add: run_end_def fun_upd_twist)
qed

theorem kprint_calls_serialize_witness:
  "screen run_end = fold kprint [''A''] blank_console"
  using kprint_calls_serialize [OF run_end_reachable] by (simp add: run_end_def)

end
