(* ===== verification/Keyboard.thy ===== *)
theory Keyboard
  imports Console
begin

text \<open>
  The keyboard driver (\<open>src/keyboard.c\<close>): scancode translation in the interrupt handler
  and the ring buffer between the handler and its reader. The record \<open>keyboard\<close> adds the
  file's static variables to the console's. The scancode that \<open>inb(0x60)\<close> delivers is an
  argument of the handler. The locale \<open>bounded_fifo\<close> is the contract of the buffer.
\<close>

record keyboard = console +
  shift_held :: bool
  kbd_buffer :: "nat \<Rightarrow> char"
  kbd_head :: nat
  kbd_tail :: nat

section \<open>Translation tables\<close>

definition scancode_ascii :: "char list" where
  "scancode_ascii =
     [CHR 0x00, CHR 0x1B] @ ''1234567890-='' @ [CHR 0x08, CHR 0x09] @ ''qwertyuiop[]'' @ [nl] @
     [CHR 0x00] @ ''asdfghjkl;'' @ [CHR 0x27, CHR 0x60] @
     [CHR 0x00] @ [CHR 0x5C] @ ''zxcvbnm,./'' @
     [CHR 0x00, CHR ''*'', CHR 0x00, CHR '' '', CHR 0x00] @ replicate 69 CHR 0x00"

definition scancode_ascii_shift :: "char list" where
  "scancode_ascii_shift =
     [CHR 0x00, CHR 0x1B] @ ''!@#$%^&*()_+'' @ [CHR 0x08, CHR 0x09] @ ''QWERTYUIOP{}'' @ [nl] @
     [CHR 0x00] @ ''ASDFGHJKL:'' @ [CHR 0x22, CHR 0x7E] @
     [CHR 0x00] @ ''|ZXCVBNM<>?'' @
     [CHR 0x00, CHR ''*'', CHR 0x00, CHR '' '', CHR 0x00] @ replicate 69 CHR 0x00"

abbreviation (input) KBD_SCANCODE_LSHIFT :: u8 where "KBD_SCANCODE_LSHIFT \<equiv> 0x2A"
abbreviation (input) KBD_SCANCODE_RSHIFT :: u8 where "KBD_SCANCODE_RSHIFT \<equiv> 0x36"
abbreviation (input) KBD_BUF_SIZE :: nat where "KBD_BUF_SIZE \<equiv> 256"

section \<open>The ring buffer and the handler\<close>

definition kbd_buffer_push :: "char \<Rightarrow> 'a keyboard_scheme \<Rightarrow> 'a keyboard_scheme" where
  "kbd_buffer_push c s =
     (let next = (kbd_head s + 1) mod KBD_BUF_SIZE
      in if next = kbd_tail s then s
         else s\<lparr>kbd_buffer := (kbd_buffer s)(kbd_head s := c), kbd_head := next\<rparr>)"

definition kbd_buffer_pop :: "'a keyboard_scheme \<Rightarrow> (char \<times> 'a keyboard_scheme) option" where
  "kbd_buffer_pop s =
     (if kbd_tail s = kbd_head s then None
      else Some (kbd_buffer s (kbd_tail s),
                 s\<lparr>kbd_tail := (kbd_tail s + 1) mod KBD_BUF_SIZE\<rparr>))"

definition keyboard_handle_irq :: "u8 \<Rightarrow> 'a keyboard_scheme \<Rightarrow> 'a keyboard_scheme" where
  "keyboard_handle_irq scancode s =
     (if scancode = KBD_SCANCODE_LSHIFT \<or> scancode = KBD_SCANCODE_RSHIFT
      then s\<lparr>shift_held := True\<rparr>
      else if scancode = (KBD_SCANCODE_LSHIFT OR 0x80) \<or> scancode = (KBD_SCANCODE_RSHIFT OR 0x80)
      then s\<lparr>shift_held := False\<rparr>
      else if scancode AND 0x80 \<noteq> 0 then s
      else
        let c = (if shift_held s then scancode_ascii_shift ! unat scancode
                 else scancode_ascii ! unat scancode)
        in if c \<noteq> CHR 0x00
           then kprint ([CHR 0x27, nl]) (kprint [c, CHR 0x00]
                  (kprint (''[kbd] key: '' @ [CHR 0x27]) (kbd_buffer_push c s)))
           else s)"

section \<open>The contract of a bounded queue\<close>

text \<open>
  A bounded queue: a push on a full queue loses the new element and nothing else, a pop
  takes the oldest one.
\<close>

locale bounded_fifo =
  fixes push :: "'e \<Rightarrow> 'q \<Rightarrow> 'q"
    and pop :: "'q \<Rightarrow> ('e \<times> 'q) option"
    and contents :: "'q \<Rightarrow> 'e list"
    and inv :: "'q \<Rightarrow> bool"
    and cap :: nat
  assumes contents_push: "inv q \<Longrightarrow>
      contents (push x q) = (if length (contents q) < cap then contents q @ [x] else contents q)"
    and inv_push: "inv q \<Longrightarrow> inv (push x q)"
    and pop_empty: "inv q \<Longrightarrow> contents q = [] \<Longrightarrow> pop q = None"
    and pop_first: "inv q \<Longrightarrow> contents q = x # xs \<Longrightarrow>
      \<exists>q'. pop q = Some (x, q') \<and> contents q' = xs \<and> inv q'"
    and within_cap: "inv q \<Longrightarrow> length (contents q) \<le> cap"
begin

lemma inv_pushes: "inv q \<Longrightarrow> inv (fold push xs q)"
  by (induction xs arbitrary: q) (auto simp: inv_push)

lemma contents_pushes:
  "inv q \<Longrightarrow> contents (fold push xs q) = contents q @ take (cap - length (contents q)) xs"
proof (induction xs arbitrary: q)
  case (Cons x xs)
  show ?case
  proof (cases "length (contents q) < cap")
    case True
    then have "cap - length (contents q) = Suc (cap - length (contents (push x q)))"
      using Cons.prems by (simp add: contents_push)
    then show ?thesis using Cons True by (simp add: contents_push inv_push)
  next
    case False
    then show ?thesis using Cons by (simp add: contents_push inv_push)
  qed
qed simp

lemma pop_after_push:
  assumes "inv q" "contents q = []" "0 < cap"
  shows "\<exists>q'. pop (push x q) = Some (x, q') \<and> contents q' = []"
  using pop_first [OF inv_push [OF assms(1)], of x x "[]"] contents_push [OF assms(1), of x] assms
  by auto

end

section \<open>The ring buffer keeps the contract\<close>

definition kbd_ok :: "'a keyboard_scheme \<Rightarrow> bool" where
  "kbd_ok s \<longleftrightarrow> kbd_head s < KBD_BUF_SIZE \<and> kbd_tail s < KBD_BUF_SIZE"

definition kbd_len :: "'a keyboard_scheme \<Rightarrow> nat" where
  "kbd_len s = (kbd_head s + KBD_BUF_SIZE - kbd_tail s) mod KBD_BUF_SIZE"

definition kbd_contents :: "'a keyboard_scheme \<Rightarrow> char list" where
  "kbd_contents s = map (\<lambda>i. kbd_buffer s ((kbd_tail s + i) mod KBD_BUF_SIZE)) [0..<kbd_len s]"

lemma length_kbd_contents [simp]: "length (kbd_contents s) = kbd_len s"
  by (simp add: kbd_contents_def)

lemma kbd_len_less: "kbd_len s < KBD_BUF_SIZE"
  by (simp add: kbd_len_def)

text \<open>Indices stay below twice the size, so one conditional subtraction is the remainder.\<close>

lemma ring_mod: "x < 2 * KBD_BUF_SIZE \<Longrightarrow> x mod KBD_BUF_SIZE = (if x < KBD_BUF_SIZE then x else x - KBD_BUF_SIZE)"
  by (simp add: mod_if)

lemma kbd_len_cases:
  "kbd_ok s \<Longrightarrow> kbd_len s =
     (if kbd_tail s \<le> kbd_head s then kbd_head s - kbd_tail s
      else kbd_head s + KBD_BUF_SIZE - kbd_tail s)"
  unfolding kbd_ok_def kbd_len_def by (subst ring_mod) auto

lemma kbd_len_head: "kbd_ok s \<Longrightarrow> (kbd_tail s + kbd_len s) mod KBD_BUF_SIZE = kbd_head s"
  by (simp add: kbd_len_cases kbd_ok_def)

lemma kbd_full: "kbd_ok s \<Longrightarrow> (kbd_head s + 1) mod KBD_BUF_SIZE = kbd_tail s \<longleftrightarrow> kbd_len s = 255"
  by (auto simp: kbd_len_cases kbd_ok_def ring_mod)

lemma kbd_slot_differs:
  "kbd_ok s \<Longrightarrow> i < kbd_len s \<Longrightarrow> (kbd_tail s + i) mod KBD_BUF_SIZE \<noteq> kbd_head s"
  by (auto simp: kbd_len_cases kbd_ok_def ring_mod split: if_splits)

lemma kbd_push_ok: "kbd_ok s \<Longrightarrow> kbd_ok (kbd_buffer_push c s)"
  by (simp add: kbd_ok_def kbd_buffer_push_def Let_def)

lemma kbd_contents_push:
  assumes "kbd_ok s"
  shows "kbd_contents (kbd_buffer_push c s) =
    (if kbd_len s < 255 then kbd_contents s @ [c] else kbd_contents s)"
proof (cases "kbd_len s < 255")
  case True
  let ?t = "kbd_buffer_push c s"
  have t: "?t = s\<lparr>kbd_buffer := (kbd_buffer s)(kbd_head s := c),
      kbd_head := (kbd_head s + 1) mod KBD_BUF_SIZE\<rparr>"
    using True kbd_full [OF assms] by (simp add: kbd_buffer_push_def Let_def)
  have len: "kbd_len ?t = kbd_len s + 1"
    using True assms kbd_len_cases [OF kbd_push_ok [OF assms, of c]] kbd_len_cases [OF assms]
    by (auto simp: t kbd_ok_def ring_mod split: if_splits)
  show ?thesis
    using True kbd_slot_differs [OF assms] kbd_len_head [OF assms]
    by (simp add: kbd_contents_def len) (simp add: t)
next
  case False
  then have "kbd_len s = 255" using kbd_len_less [of s] by simp
  then show ?thesis using kbd_full [OF assms] by (simp add: kbd_buffer_push_def)
qed

lemma kbd_contents_pop:
  assumes "kbd_ok s" "kbd_contents s = x # xs"
  shows "\<exists>s'. kbd_buffer_pop s = Some (x, s') \<and> kbd_contents s' = xs \<and> kbd_ok s'"
proof -
  let ?s' = "s\<lparr>kbd_tail := (kbd_tail s + 1) mod KBD_BUF_SIZE\<rparr>"
  have n: "kbd_len s = Suc (length xs)" using assms(2) by (metis length_kbd_contents length_Cons)
  then have ne: "kbd_tail s \<noteq> kbd_head s" by (auto simp: kbd_len_def)
  have len: "kbd_len ?s' = length xs"
    using n assms(1) ne by (auto simp: kbd_len_def kbd_ok_def ring_mod split: if_splits)
  have split: "[0..<kbd_len s] = 0 # map Suc [0..<length xs]"
    by (simp only: n map_Suc_upt upt_conv_Cons [OF zero_less_Suc])
  have "x = kbd_buffer s (kbd_tail s)"
    and xs: "xs = map (\<lambda>i. kbd_buffer s ((kbd_tail s + Suc i) mod KBD_BUF_SIZE)) [0..<length xs]"
    using assms by (auto simp: kbd_contents_def split kbd_ok_def comp_def)
  moreover have "((kbd_tail s + 1) mod 256 + i) mod 256 = (kbd_tail s + Suc i) mod 256" for i
    by (simp add: mod_simps)
  ultimately show ?thesis
    using ne assms(1) len by (simp add: kbd_buffer_pop_def kbd_contents_def kbd_ok_def)
qed

lemma kbd_pop_empty: "kbd_ok s \<Longrightarrow> kbd_contents s = [] \<Longrightarrow> kbd_buffer_pop s = None"
  using kbd_len_head [of s] by (auto simp: kbd_contents_def kbd_buffer_pop_def kbd_ok_def)

interpretation kbd: bounded_fifo kbd_buffer_push kbd_buffer_pop kbd_contents kbd_ok 255
proof
  fix s :: "'a keyboard_scheme" and c x xs
  show "kbd_ok s \<Longrightarrow> kbd_contents (kbd_buffer_push c s) =
      (if length (kbd_contents s) < 255 then kbd_contents s @ [c] else kbd_contents s)"
    by (simp add: kbd_contents_push)
  show "kbd_ok s \<Longrightarrow> length (kbd_contents s) \<le> 255"
    using kbd_len_less [of s] by simp
qed (fact kbd_push_ok kbd_pop_empty kbd_contents_pop)+

section \<open>The handler\<close>

text \<open>
  What a sequence of scancodes means, independently of the buffer: a shift state and the
  characters typed.
\<close>

definition translate :: "bool \<Rightarrow> u8 \<Rightarrow> char" where
  "translate shift sc = (if shift then scancode_ascii_shift else scancode_ascii) ! unat sc"

fun typed :: "bool \<Rightarrow> u8 list \<Rightarrow> char list" where
  "typed shift [] = []"
| "typed shift (sc # scs) =
     (if sc \<in> {0x2A, 0x36} then typed True scs
      else if sc \<in> {0xAA, 0xB6} then typed False scs
      else if sc \<ge> 0x80 \<or> translate shift sc = CHR 0x00 then typed shift scs
      else translate shift sc # typed shift scs)"

lemma kprint_keyboard [frame_simps, simp]:
  "shift_held (kprint str s) = shift_held s" "kbd_buffer (kprint str s) = kbd_buffer s"
  "kbd_head (kprint str s) = kbd_head s" "kbd_tail (kprint str s) = kbd_tail s"
  using kprint_frame [of str s] by auto

lemma kprint_kbd [simp]: "kbd_ok (kprint str s) = kbd_ok s" "kbd_contents (kprint str s) = kbd_contents s"
  by (simp_all add: kbd_ok_def kbd_contents_def kbd_len_def)

lemma high_bit_u8: "(sc AND 0x80 = (0 :: u8)) = (sc < 0x80)"
proof -
  have "sc AND 0x80 = 0 \<longleftrightarrow> \<not> bit sc 7"
    using and_exp_eq_0_iff_not_bit [of sc 7] by simp
  also have "\<dots> \<longleftrightarrow> sc < 0x80"
  proof -
    have "bit sc 7 \<longleftrightarrow> bit (unat sc) 7"
      by (simp add: bit_unsigned_iff)
    also have "\<dots> \<longleftrightarrow> odd (unat sc div 128)"
      by (simp add: bit_iff_odd)
    also have "\<dots> \<longleftrightarrow> 128 \<le> unat sc"
      using div_nat_eqI [of 128 1 "unat sc"] unat_bound8 [of sc] by (cases "unat sc < 128") auto
    finally show ?thesis by (auto simp: word_less_nat_alt)
  qed
  finally show ?thesis .
qed

text \<open>One interrupt: what it does to the shift state and to the buffer, on every branch.\<close>

lemma handle_irq_shift:
  "shift_held (keyboard_handle_irq sc s) =
     (if sc \<in> {0x2A, 0x36} then True else if sc \<in> {0xAA, 0xB6} then False else shift_held s)"
  by (simp add: keyboard_handle_irq_def kbd_buffer_push_def Let_def)

lemma handle_irq_ok: "kbd_ok s \<Longrightarrow> kbd_ok (keyboard_handle_irq sc s)"
  using kbd_push_ok [of s] by (simp add: keyboard_handle_irq_def Let_def) (simp add: kbd_ok_def)

lemma handle_irq_contents:
  assumes "kbd_ok s"
  shows "kbd_contents (keyboard_handle_irq sc s) =
    (if sc \<in> {0x2A, 0x36, 0xAA, 0xB6} \<or> sc \<ge> 0x80 \<or> translate (shift_held s) sc = CHR 0x00
     then kbd_contents s
     else if kbd_len s < 255 then kbd_contents s @ [translate (shift_held s) sc]
     else kbd_contents s)"
proof -
  have "kbd_contents (s\<lparr>shift_held := b\<rparr>) = kbd_contents s" for b
    by (simp add: kbd_contents_def kbd_len_def)
  then show ?thesis
    using kbd_contents_push [OF assms]
    by (auto simp: keyboard_handle_irq_def translate_def high_bit_u8 not_less Let_def)
qed

lemma typed_buffered:
  "kbd_ok s \<Longrightarrow> kbd_contents (fold keyboard_handle_irq scs s) =
     kbd_contents s @ take (255 - kbd_len s) (typed (shift_held s) scs)"
proof (induction scs arbitrary: s)
  case (Cons sc scs)
  let ?s = "keyboard_handle_irq sc s"
  have IH: "kbd_contents (fold keyboard_handle_irq scs ?s) =
      kbd_contents ?s @ take (255 - kbd_len ?s) (typed (shift_held ?s) scs)"
    by (rule Cons.IH [OF handle_irq_ok [OF Cons.prems]])
  have len: "kbd_len ?s = length (kbd_contents ?s)" by simp
  show ?case
  proof (cases "sc \<in> {0x2A, 0x36, 0xAA, 0xB6} \<or> sc \<ge> 0x80 \<or> translate (shift_held s) sc = CHR 0x00")
    case True
    then have "kbd_contents ?s = kbd_contents s"
      using handle_irq_contents [OF Cons.prems, of sc] by simp
    moreover have "typed (shift_held s) (sc # scs) = typed (shift_held ?s) scs"
      using True by (auto simp: handle_irq_shift)
    ultimately show ?thesis using IH by (simp only: fold_simps len) simp
  next
    case False
    let ?c = "translate (shift_held s) sc"
    have t: "typed (shift_held s) (sc # scs) = ?c # typed (shift_held ?s) scs"
      using False by (simp add: handle_irq_shift)
    have "255 - kbd_len s = (if kbd_len s < 255 then Suc (255 - Suc (kbd_len s)) else 0)" by auto
    then show ?thesis
      using IH False handle_irq_contents [OF Cons.prems, of sc]
      by (simp only: fold_simps len t) simp
  qed
qed simp

section \<open>Properties\<close>

text \<open>C18. The driver as a whole: after any sequence of keyboard interrupts the buffer holds
  what it held before followed by the characters those scancodes type (shift make and
  break codes change the table, other break codes and keys without a character are
  ignored), in order; once 255 characters wait, further ones are lost and nothing else is.\<close>

theorem keyboard_buffers_typed_text:
  assumes "kbd_ok s"
  shows "kbd_ok (fold keyboard_handle_irq scs s) \<and>
    kbd_contents (fold keyboard_handle_irq scs s) =
      kbd_contents s @ take (255 - length (kbd_contents s)) (typed (shift_held s) scs)"
proof -
  have "kbd_ok (fold keyboard_handle_irq scs s)"
    using assms by (induction scs arbitrary: s) (auto simp: handle_irq_ok)
  then show ?thesis using typed_buffered [OF assms] by simp
qed

definition idle_keyboard :: keyboard where
  "idle_keyboard = console.extend blank_console
     \<lparr>shift_held = False, kbd_buffer = (\<lambda>_. CHR 0x00), kbd_head = 254, kbd_tail = 254\<rparr>"

theorem keyboard_buffers_typed_text_witness:
  "kbd_contents (fold keyboard_handle_irq [0x2A, 0x23, 0xA3, 0xAA, 0x17] idle_keyboard) = ''Hi''"
proof -
  have ok: "kbd_ok idle_keyboard"
    by (simp add: kbd_ok_def idle_keyboard_def console.defs blank_console_def)
  have c: "kbd_contents idle_keyboard = []" and s: "shift_held idle_keyboard = False"
    by (simp_all add: kbd_contents_def kbd_len_def idle_keyboard_def console.defs blank_console_def)
  have "typed False [0x2A, 0x23, 0xA3, 0xAA, 0x17] = ''Hi''"
    by code_simp
  then show ?thesis
    using keyboard_buffers_typed_text [OF ok, of "[0x2A, 0x23, 0xA3, 0xAA, 0x17]"] c s by simp
qed

text \<open>The reader: \<open>kbd_buffer_pop\<close> reports an empty buffer exactly when it is empty, and
  otherwise returns the oldest buffered character and removes it alone.\<close>

theorem keyboard_pop_is_fifo:
  assumes "kbd_ok s"
  shows "case kbd_contents s of
      [] \<Rightarrow> kbd_buffer_pop s = None
    | c # cs \<Rightarrow> \<exists>s'. kbd_buffer_pop s = Some (c, s') \<and> kbd_contents s' = cs \<and> kbd_ok s'"
  using kbd.pop_empty [OF assms] kbd.pop_first [OF assms] by (cases "kbd_contents s") auto

theorem keyboard_pop_is_fifo_witness:
  "\<exists>s'. kbd_buffer_pop (kbd_buffer_push CHR ''q'' idle_keyboard) = Some (CHR ''q'', s') \<and>
     kbd_contents s' = []"
proof -
  let ?s = "kbd_buffer_push CHR ''q'' idle_keyboard"
  have ok: "kbd_ok idle_keyboard"
    by (simp add: kbd_ok_def idle_keyboard_def console.defs blank_console_def)
  have "kbd_contents idle_keyboard = []" "kbd_len idle_keyboard = 0"
    by (simp_all add: kbd_contents_def kbd_len_def idle_keyboard_def console.defs blank_console_def)
  then have "kbd_contents ?s = ''q''" by (simp add: kbd_contents_push [OF ok])
  then show ?thesis using keyboard_pop_is_fifo [OF kbd_push_ok [OF ok], of "CHR ''q''"] by auto
qed

end
