(* ===== verification/NKern.thy ===== *)
theory NKern
  imports Keyboard
begin

text \<open>
  The kernel lock (\<open>src/nkern_lock.c\<close>): a cross-processor spinlock, a per-processor
  nesting count, and interrupts disabled while it is held. A processor is named by its
  local APIC id; the arrays are indexed by \<open>get_cpu_index\<close> (\<open>src/apic.c\<close>), which sends ids
  of 16 and more to slot 0. \<open>iflag\<close> is the interrupt flag of each processor.

  The functions of the first section are what the holder sees: \<open>spin_acquire\<close> returns only
  once its test-and-set has found the lock free, and then the lock is set. The second section
  is the same code as a system of interleaved steps, in which a processor at
  \<open>spin_acquire\<close> can only move while the lock is free; mutual exclusion is proved there.
  \<open>NKern_Unlock\<close> calls \<open>sched64_reschedule\<close>, defined in \<open>src/sched64.c\<close>, which comes
  later in this development: it is the argument \<open>resched\<close>.
\<close>

record nkern = keyboard +
  preempt_disable_count :: "nat \<Rightarrow> nat"
  reschedule_pending :: "nat \<Rightarrow> bool"
  saved_if :: "nat \<Rightarrow> bool"
  big_kernel_lock :: bool
  iflag :: "nat \<Rightarrow> bool"

definition get_cpu_index :: "nat \<Rightarrow> nat" where
  "get_cpu_index p = (if p < 16 then p else 0)"

section \<open>The operations\<close>

definition cli :: "nat \<Rightarrow> 'a nkern_scheme \<Rightarrow> 'a nkern_scheme" where
  "cli p s = s\<lparr>iflag := (iflag s)(p := False)\<rparr>"

definition sti :: "nat \<Rightarrow> 'a nkern_scheme \<Rightarrow> 'a nkern_scheme" where
  "sti p s = s\<lparr>iflag := (iflag s)(p := True)\<rparr>"

definition spin_acquire :: "'a nkern_scheme \<Rightarrow> 'a nkern_scheme" where
  "spin_acquire s = s\<lparr>big_kernel_lock := True\<rparr>"

definition spin_release :: "'a nkern_scheme \<Rightarrow> 'a nkern_scheme" where
  "spin_release s = s\<lparr>big_kernel_lock := False\<rparr>"

text \<open>\<open>NKern_Lock\<close> up to the test of the count that decides whether to spin.\<close>

definition lock_enter :: "nat \<Rightarrow> 'a nkern_scheme \<Rightarrow> 'a nkern_scheme" where
  "lock_enter p s =
     (let c = get_cpu_index p;
          flags = iflag s p;
          s = cli p s;
          s = (if preempt_disable_count s c = 0
               then s\<lparr>saved_if := (saved_if s)(c := flags)\<rparr> else s)
      in s\<lparr>preempt_disable_count := (preempt_disable_count s)(c := preempt_disable_count s c + 1)\<rparr>)"

definition NKern_Lock :: "nat \<Rightarrow> 'a nkern_scheme \<Rightarrow> 'a nkern_scheme" where
  "NKern_Lock p s =
     (let s = lock_enter p s
      in if preempt_disable_count s (get_cpu_index p) = 1 then spin_acquire s else s)"

text \<open>The guarded decrement with which both unlock functions begin.\<close>

definition count_down :: "nat \<Rightarrow> 'a nkern_scheme \<Rightarrow> 'a nkern_scheme" where
  "count_down p s =
     (let c = get_cpu_index p
      in if preempt_disable_count s c > 0
         then s\<lparr>preempt_disable_count := (preempt_disable_count s)(c := preempt_disable_count s c - 1)\<rparr>
         else s)"

definition NKern_Unlock ::
    "('a nkern_scheme \<Rightarrow> 'a nkern_scheme) \<Rightarrow> nat \<Rightarrow> 'a nkern_scheme \<Rightarrow> 'a nkern_scheme" where
  "NKern_Unlock resched p s =
     (let c = get_cpu_index p;
          s = count_down p s
      in if preempt_disable_count s c = 0
         then let s = spin_release s;
                  s = (if reschedule_pending s c
                       then resched (s\<lparr>reschedule_pending := (reschedule_pending s)(c := False)\<rparr>)
                       else s)
              in if saved_if s c then sti p s else s
         else s)"

definition NKern_IsLocked :: "nat \<Rightarrow> 'a nkern_scheme \<Rightarrow> bool" where
  "NKern_IsLocked p s \<longleftrightarrow> preempt_disable_count s (get_cpu_index p) > 0"

definition NKern_RequestReschedule :: "nat \<Rightarrow> 'a nkern_scheme \<Rightarrow> 'a nkern_scheme" where
  "NKern_RequestReschedule p s =
     s\<lparr>reschedule_pending := (reschedule_pending s)(get_cpu_index p := True)\<rparr>"

text \<open>\<open>NKern_LockForSwitch\<close> up to the test of the count.\<close>

definition switch_enter :: "nat \<Rightarrow> 'a nkern_scheme \<Rightarrow> 'a nkern_scheme" where
  "switch_enter p s =
     (let c = get_cpu_index p;
          s = cli p s
      in s\<lparr>preempt_disable_count := (preempt_disable_count s)(c := preempt_disable_count s c + 1)\<rparr>)"

definition NKern_LockForSwitch :: "nat \<Rightarrow> 'a nkern_scheme \<Rightarrow> 'a nkern_scheme" where
  "NKern_LockForSwitch p s =
     (let s = switch_enter p s
      in if preempt_disable_count s (get_cpu_index p) = 1 then spin_acquire s else s)"

definition NKern_UnlockAfterSwitch :: "nat \<Rightarrow> 'a nkern_scheme \<Rightarrow> 'a nkern_scheme" where
  "NKern_UnlockAfterSwitch p s =
     (let s = count_down p s
      in if preempt_disable_count s (get_cpu_index p) = 0 then sti p (spin_release s) else s)"

lemmas nkern_defs = cli_def sti_def spin_acquire_def spin_release_def lock_enter_def
  NKern_Lock_def count_down_def NKern_Unlock_def NKern_IsLocked_def
  NKern_RequestReschedule_def switch_enter_def NKern_LockForSwitch_def
  NKern_UnlockAfterSwitch_def Let_def

lemma NKern_Lock_frame:
  "\<exists>cnt sif l f. NKern_Lock p s = s\<lparr>preempt_disable_count := cnt, saved_if := sif,
     big_kernel_lock := l, iflag := f\<rparr>"
proof -
  have "NKern_Lock p s = s\<lparr>preempt_disable_count := preempt_disable_count (NKern_Lock p s),
      saved_if := saved_if (NKern_Lock p s), big_kernel_lock := big_kernel_lock (NKern_Lock p s),
      iflag := iflag (NKern_Lock p s)\<rparr>"
    by (simp add: nkern_defs)
  then show ?thesis by blast
qed

section \<open>The operations as interleaved steps\<close>

text \<open>
  \<open>Run\<close>: outside the lock functions, inside or outside a critical section. \<open>Spinning\<close>: at
  \<open>spin_acquire\<close>. \<open>Releasing\<close>: before \<open>spin_release\<close>, the flag telling which unlock
  function is running. \<open>Finishing\<close>: after the release in \<open>NKern_Unlock\<close>.
\<close>

datatype lock_pc = Run | Spinning | Releasing bool | Finishing

record lock_sys =
  kern :: nkern
  pcs :: "nat \<Rightarrow> lock_pc"

abbreviation count_of :: "lock_sys \<Rightarrow> nat \<Rightarrow> nat" where
  "count_of s p \<equiv> preempt_disable_count (kern s) (get_cpu_index p)"

inductive lock_step :: "nat set \<Rightarrow> lock_sys \<Rightarrow> lock_sys \<Rightarrow> bool" for P where
  enter_lock: "p \<in> P \<Longrightarrow> pcs s p = Run \<Longrightarrow> k = lock_enter p (kern s) \<Longrightarrow>
     lock_step P s \<lparr>kern = k, pcs = (pcs s)(p :=
       if preempt_disable_count k (get_cpu_index p) = 1 then Spinning else Run)\<rparr>"
| enter_switch: "p \<in> P \<Longrightarrow> pcs s p = Run \<Longrightarrow> k = switch_enter p (kern s) \<Longrightarrow>
     lock_step P s \<lparr>kern = k, pcs = (pcs s)(p :=
       if preempt_disable_count k (get_cpu_index p) = 1 then Spinning else Run)\<rparr>"
| acquire: "p \<in> P \<Longrightarrow> pcs s p = Spinning \<Longrightarrow> \<not> big_kernel_lock (kern s) \<Longrightarrow>
     lock_step P s \<lparr>kern = spin_acquire (kern s), pcs = (pcs s)(p := Run)\<rparr>"
| leave: "p \<in> P \<Longrightarrow> pcs s p = Run \<Longrightarrow> count_of s p > 0 \<Longrightarrow> k = count_down p (kern s) \<Longrightarrow>
     lock_step P s \<lparr>kern = k, pcs = (pcs s)(p :=
       if preempt_disable_count k (get_cpu_index p) = 0 then Releasing after_switch else Run)\<rparr>"
| release: "p \<in> P \<Longrightarrow> pcs s p = Releasing False \<Longrightarrow>
     lock_step P s \<lparr>kern = spin_release (kern s), pcs = (pcs s)(p := Finishing)\<rparr>"
| release_after_switch: "p \<in> P \<Longrightarrow> pcs s p = Releasing True \<Longrightarrow>
     lock_step P s \<lparr>kern = sti p (spin_release (kern s)), pcs = (pcs s)(p := Run)\<rparr>"
| finish: "p \<in> P \<Longrightarrow> pcs s p = Finishing \<Longrightarrow> \<not> reschedule_pending (kern s) (get_cpu_index p) \<Longrightarrow>
     k = (if saved_if (kern s) (get_cpu_index p) then sti p (kern s) else kern s) \<Longrightarrow>
     lock_step P s \<lparr>kern = k, pcs = (pcs s)(p := Run)\<rparr>"
| finish_reschedule: "p \<in> P \<Longrightarrow> pcs s p = Finishing \<Longrightarrow>
     reschedule_pending (kern s) (get_cpu_index p) \<Longrightarrow>
     k = switch_enter p ((kern s)\<lparr>reschedule_pending :=
           (reschedule_pending (kern s))(get_cpu_index p := False)\<rparr>) \<Longrightarrow>
     lock_step P s \<lparr>kern = k, pcs = (pcs s)(p := Spinning)\<rparr>"
| request: "p \<in> P \<Longrightarrow> pcs s p = Run \<Longrightarrow>
     lock_step P s (s\<lparr>kern := NKern_RequestReschedule p (kern s)\<rparr>)"

definition lock_init :: "nkern \<Rightarrow> bool" where
  "lock_init k \<longleftrightarrow> (\<forall>c. preempt_disable_count k c = 0) \<and> \<not> big_kernel_lock k"

inductive lock_reach :: "nat set \<Rightarrow> lock_sys \<Rightarrow> bool" for P where
  lock_start: "lock_init k \<Longrightarrow> lock_reach P \<lparr>kern = k, pcs = (\<lambda>_. Run)\<rparr>"
| lock_more: "lock_reach P s \<Longrightarrow> lock_step P s t \<Longrightarrow> lock_reach P t"

text \<open>Between a completed acquire and the release a processor owns the lock.\<close>

fun owns :: "lock_pc \<Rightarrow> nat \<Rightarrow> bool" where
  "owns Run n = (n > 0)"
| "owns Spinning n = False"
| "owns (Releasing _) n = True"
| "owns Finishing n = False"

abbreviation owner :: "lock_sys \<Rightarrow> nat \<Rightarrow> bool" where
  "owner s p \<equiv> owns (pcs s p) (count_of s p)"

fun pc_count :: "lock_pc \<Rightarrow> nat \<Rightarrow> bool" where
  "pc_count Run n = True"
| "pc_count Spinning n = (n = 1)"
| "pc_count (Releasing _) n = (n = 0)"
| "pc_count Finishing n = (n = 0)"

definition lock_inv :: "nat set \<Rightarrow> lock_sys \<Rightarrow> bool" where
  "lock_inv P s \<longleftrightarrow>
     (\<forall>p \<in> P. pc_count (pcs s p) (count_of s p)) \<and>
     (\<forall>p \<in> P. owner s p \<longrightarrow> big_kernel_lock (kern s)) \<and>
     (\<forall>p \<in> P. \<forall>q \<in> P. owner s p \<longrightarrow> owner s q \<longrightarrow> p = q) \<and>
     (\<forall>p \<in> P. pcs s p \<noteq> Run \<or> count_of s p > 0 \<longrightarrow> \<not> iflag (kern s) p)"

lemma lock_inv_init: "lock_init k \<Longrightarrow> lock_inv P \<lparr>kern = k, pcs = (\<lambda>_. Run)\<rparr>"
  by (simp add: lock_inv_def lock_init_def)

lemma lock_invD:
  assumes "lock_inv P s" "p \<in> P"
  shows "pc_count (pcs s p) (count_of s p)" "owner s p \<Longrightarrow> big_kernel_lock (kern s)"
    "\<lbrakk>owner s p; q \<in> P; owner s q\<rbrakk> \<Longrightarrow> q = p"
    "pcs s p \<noteq> Run \<or> count_of s p > 0 \<Longrightarrow> \<not> iflag (kern s) p"
  using assms unfolding lock_inv_def by blast+

text \<open>
  The shape all steps share: processor \<open>p\<close> moves, writing only its own slot and flag. It may
  end up owning the lock only if it owned it or the lock was free, and may clear the lock only
  if it owned it.
\<close>

lemma lock_inv_move:
  assumes inv: "lock_inv P s" and p: "p \<in> P" and inj: "inj_on get_cpu_index P"
    and slots: "\<And>c. c \<noteq> get_cpu_index p \<Longrightarrow>
      preempt_disable_count k c = preempt_disable_count (kern s) c"
    and flags: "\<And>q. q \<noteq> p \<Longrightarrow> iflag k q = iflag (kern s) q"
    and pcn: "pc_count pc (preempt_disable_count k (get_cpu_index p))"
    and gain: "owns pc (preempt_disable_count k (get_cpu_index p)) \<Longrightarrow>
      big_kernel_lock k \<and> (owner s p \<or> \<not> big_kernel_lock (kern s))"
    and lose: "big_kernel_lock k = big_kernel_lock (kern s) \<or> big_kernel_lock k \<or> owner s p"
    and off: "pc \<noteq> Run \<or> preempt_disable_count k (get_cpu_index p) > 0 \<Longrightarrow> \<not> iflag k p"
  shows "lock_inv P \<lparr>kern = k, pcs = (pcs s)(p := pc)\<rparr>"
proof -
  let ?t = "\<lparr>kern = k, pcs = (pcs s)(p := pc)\<rparr>"
  have cnt: "count_of ?t q = count_of s q" if "q \<in> P" "q \<noteq> p" for q
    using that p inj by (auto simp: inj_on_eq_iff intro!: slots)
  have own: "owner ?t q = owner s q" if "q \<in> P" "q \<noteq> p" for q
    using that cnt [OF that] by simp
  have 1: "pc_count (pcs ?t q) (count_of ?t q)" if "q \<in> P" for q
    using that cnt [OF that] pcn lock_invD(1) [OF inv that] by (cases "q = p") simp_all
  have 2: "big_kernel_lock k" if q: "q \<in> P" "owner ?t q" for q
  proof (cases "q = p")
    case True
    with q gain show ?thesis by simp
  next
    case False
    with q own have o: "owner s q" by simp
    then have "\<not> owner s p" using lock_invD(3) [OF inv q(1) o p] False by blast
    then show ?thesis using lose lock_invD(2) [OF inv q(1) o] by blast
  qed
  have 3: "q = p" if q: "q \<in> P" "owner ?t q" "owner ?t p" for q
  proof (rule ccontr)
    assume "q \<noteq> p"
    with q own have o: "owner s q" by simp
    moreover have "owner s p \<or> \<not> big_kernel_lock (kern s)" using q(3) gain by simp
    ultimately show False
      using lock_invD(2) [OF inv q(1) o] lock_invD(3) [OF inv q(1) o p] \<open>q \<noteq> p\<close> by blast
  qed
  have 4: "q = r" if "q \<in> P" "r \<in> P" "owner ?t q" "owner ?t r" for q r
  proof (cases "q = p \<or> r = p")
    case True
    then show ?thesis using 3 that by blast
  next
    case False
    then show ?thesis using that own lock_invD(3) [OF inv that(1) _ that(2)] by blast
  qed
  have 5: "\<not> iflag k q" if "q \<in> P" "pcs ?t q \<noteq> Run \<or> count_of ?t q > 0" for q
    using that cnt [OF that(1)] off flags lock_invD(4) [OF inv that(1)] by (cases "q = p") simp_all
  show ?thesis
    unfolding lock_inv_def using 1 2 4 5 by simp
qed

lemma lock_step_inv:
  assumes "lock_step P s t" "lock_inv P s" "inj_on get_cpu_index P"
  shows "lock_inv P t"
  using assms(1,2)
proof (induction rule: lock_step.induct)
  case (enter_lock p s k)
  note facts = lock_invD(1,2,4) [OF enter_lock.prems enter_lock.hyps(1)] enter_lock.hyps
  show ?case
    by (rule lock_inv_move [OF enter_lock.prems enter_lock.hyps(1) assms(3)])
      (use facts in \<open>auto simp: lock_enter_def cli_def Let_def split: if_splits\<close>)
next
  case (enter_switch p s k)
  note facts = lock_invD(1,2,4) [OF enter_switch.prems enter_switch.hyps(1)] enter_switch.hyps
  show ?case
    by (rule lock_inv_move [OF enter_switch.prems enter_switch.hyps(1) assms(3)])
      (use facts in \<open>auto simp: switch_enter_def cli_def Let_def split: if_splits\<close>)
next
  case (acquire p s)
  note facts = lock_invD(1,2,4) [OF acquire.prems acquire.hyps(1)] acquire.hyps
  show ?case
    by (rule lock_inv_move [OF acquire.prems acquire.hyps(1) assms(3)])
      (use facts in \<open>auto simp: spin_acquire_def\<close>)
next
  case (leave p s k after_switch)
  note facts = lock_invD(1,2,4) [OF leave.prems leave.hyps(1)] leave.hyps
  show ?case
    by (rule lock_inv_move [OF leave.prems leave.hyps(1) assms(3)])
      (use facts in \<open>auto simp: count_down_def Let_def split: if_splits\<close>)
next
  case (release p s)
  note facts = lock_invD(1,2,4) [OF release.prems release.hyps(1)] release.hyps
  show ?case
    by (rule lock_inv_move [OF release.prems release.hyps(1) assms(3)])
      (use facts in \<open>auto simp: spin_release_def\<close>)
next
  case (release_after_switch p s)
  note facts = lock_invD(1,2,4) [OF release_after_switch.prems release_after_switch.hyps(1)] release_after_switch.hyps
  show ?case
    by (rule lock_inv_move [OF release_after_switch.prems release_after_switch.hyps(1) assms(3)])
      (use facts in \<open>auto simp: spin_release_def sti_def\<close>)
next
  case (finish p s k)
  note facts = lock_invD(1,2,4) [OF finish.prems finish.hyps(1)] finish.hyps
  show ?case
    by (rule lock_inv_move [OF finish.prems finish.hyps(1) assms(3)])
      (use facts in \<open>auto simp: sti_def split: if_splits\<close>)
next
  case (finish_reschedule p s k)
  note facts = lock_invD(1,2,4) [OF finish_reschedule.prems finish_reschedule.hyps(1)] finish_reschedule.hyps
  show ?case
    by (rule lock_inv_move [OF finish_reschedule.prems finish_reschedule.hyps(1) assms(3)])
      (use facts in \<open>auto simp: switch_enter_def cli_def Let_def\<close>)
next
  case (request p s)
  then show ?case by (simp add: lock_inv_def NKern_RequestReschedule_def)
qed

lemma lock_reach_inv:
  "lock_reach P s \<Longrightarrow> inj_on get_cpu_index P \<Longrightarrow> lock_inv P s"
proof (induction rule: lock_reach.induct)
  case (lock_start k)
  then show ?case by (simp add: lock_inv_init)
next
  case (lock_more s t)
  then show ?case by (blast intro: lock_step_inv)
qed

section \<open>Properties\<close>


definition quiet_kernel :: nkern where
  "quiet_kernel = keyboard.extend idle_keyboard
     \<lparr>preempt_disable_count = (\<lambda>_. 0), reschedule_pending = (\<lambda>_. False), saved_if = (\<lambda>_. False),
      big_kernel_lock = False, iflag = (\<lambda>_. True)\<rparr>"

lemma lock_init_quiet: "lock_init quiet_kernel"
  by (simp add: lock_init_def quiet_kernel_def keyboard.defs)

text \<open>One processor takes the lock from the quiet state.\<close>

definition taken :: "nat \<Rightarrow> lock_sys" where
  "taken p = \<lparr>kern = NKern_Lock p quiet_kernel, pcs = (\<lambda>_. Run)\<rparr>"

lemma taken_reachable:
  assumes "p \<in> P"
  shows "lock_reach P (taken p)"
proof -
  let ?s0 = "\<lparr>kern = quiet_kernel, pcs = (\<lambda>_. Run)\<rparr>"
  let ?k1 = "lock_enter p quiet_kernel"
  have one: "preempt_disable_count ?k1 (get_cpu_index p) = 1" and free: "\<not> big_kernel_lock ?k1"
    by (simp_all add: lock_enter_def cli_def Let_def quiet_kernel_def keyboard.defs)
  have "lock_reach P \<lparr>kern = ?k1, pcs = (\<lambda>_. Run)(p := Spinning)\<rparr>"
    using lock_more [OF lock_start [OF lock_init_quiet]
        enter_lock [OF assms, of ?s0 ?k1]] one by simp
  from lock_more [OF this acquire [OF assms]] free one
  show ?thesis by (simp add: taken_def NKern_Lock_def Let_def fun_upd_idem)
qed


text \<open>The restriction to distinct slots is needed. A processor with APIC id 16 shares
  slot 0 with processor 0: while processor 0 holds the lock, \<open>NKern_Lock\<close> on processor 16
  finds the count already positive, skips \<open>spin_acquire\<close> and enters the critical section
  too.\<close>

theorem kernel_lock_shared_slot_breaks_exclusion:
  "\<exists>s. lock_reach {0, 16} s \<and> owner s 0 \<and> owner s 16"
proof -
  let ?k = "lock_enter 16 (kern (taken 0))"
  have two: "preempt_disable_count ?k 0 = 2"
    by (simp add: taken_def NKern_Lock_def lock_enter_def cli_def spin_acquire_def Let_def
        get_cpu_index_def quiet_kernel_def keyboard.defs)
  have pcs: "pcs (taken 0) = (\<lambda>_. Run)" by (simp add: taken_def)
  have "lock_reach {0, 16} \<lparr>kern = ?k, pcs = (pcs (taken 0))(16 :=
      if preempt_disable_count ?k (get_cpu_index 16) = 1 then Spinning else Run)\<rparr>"
    by (rule lock_more [OF taken_reachable [of 0 "{0, 16}"] enter_lock]) (simp_all add: pcs)
  moreover have "get_cpu_index 16 = 0" "get_cpu_index 0 = 0" by (simp_all add: get_cpu_index_def)
  ultimately have "lock_reach {0, 16} \<lparr>kern = ?k, pcs = (\<lambda>_. Run)\<rparr>"
    using two by (simp add: pcs fun_upd_idem)
  moreover have "owner \<lparr>kern = ?k, pcs = (\<lambda>_. Run)\<rparr> p" if "p = 0 \<or> p = 16" for p
    using that two by (auto simp: get_cpu_index_def)
  ultimately show ?thesis by blast
qed

text \<open>A balanced pair restores the state at any nesting depth: the count, the lock and the
  interrupt flag are as before the \<open>NKern_Lock\<close>, and nothing else of the kernel state is
  touched but the slot that remembers the flag.\<close>

theorem kernel_lock_unlock_restores:
  assumes "preempt_disable_count s (get_cpu_index p) > 0 \<Longrightarrow> big_kernel_lock s \<and> \<not> iflag s p"
    and "preempt_disable_count s (get_cpu_index p) = 0 \<Longrightarrow> \<not> big_kernel_lock s"
    and "\<not> reschedule_pending s (get_cpu_index p)"
  shows "\<exists>sif. NKern_Unlock resched p (NKern_Lock p s) = s\<lparr>saved_if := sif\<rparr>"
proof (cases "preempt_disable_count s (get_cpu_index p) = 0")
  case True
  then have "preempt_disable_count s = (preempt_disable_count s)(get_cpu_index p := 0)"
    by (simp add: fun_upd_idem)
  moreover have "(iflag s)(p := iflag s p) = iflag s" by simp
  ultimately have "NKern_Unlock resched p (NKern_Lock p s) =
      s\<lparr>saved_if := (saved_if s)(get_cpu_index p := iflag s p)\<rparr>"
    using True assms by (cases "iflag s p") (simp_all add: nkern_defs)
  then show ?thesis by blast
next
  case False
  then have "NKern_Unlock resched p (NKern_Lock p s) = s"
    using assms by (simp add: nkern_defs fun_upd_idem)
  then have "NKern_Unlock resched p (NKern_Lock p s) = s\<lparr>saved_if := saved_if s\<rparr>" by simp
  then show ?thesis by blast
qed

theorem kernel_lock_unlock_restores_witness:
  "\<exists>sif. NKern_Unlock id 3 (NKern_Lock 3 quiet_kernel) = quiet_kernel\<lparr>saved_if := sif\<rparr>"
  by (rule kernel_lock_unlock_restores) (simp_all add: quiet_kernel_def keyboard.defs)

text \<open>C16. A reschedule requested inside a nested critical section is deferred, not lost: the
  inner unlock keeps it pending and does not run the scheduler, the outermost one
  releases the lock, clears the request, runs \<open>sched64_reschedule\<close> once and then
  re-enables interrupts if the caller had them on.\<close>

theorem deferred_reschedule_runs_at_outermost_unlock:
  fixes s :: "'a nkern_scheme"
  assumes "preempt_disable_count s (get_cpu_index p) = 0"
  defines "inner \<equiv> NKern_RequestReschedule p (NKern_Lock p (NKern_Lock p s))"
  shows "reschedule_pending (NKern_Unlock resched p inner) (get_cpu_index p) \<and>
    big_kernel_lock (NKern_Unlock resched p inner) \<and>
    NKern_Unlock resched p (NKern_Unlock resched p inner) =
      (let u = resched (s\<lparr>saved_if := (saved_if s)(get_cpu_index p := iflag s p),
                 iflag := (iflag s)(p := False), big_kernel_lock := False,
                 reschedule_pending := (reschedule_pending s)(get_cpu_index p := False)\<rparr>)
       in if saved_if u (get_cpu_index p) then sti p u else u)"
proof -
  have "preempt_disable_count s = (preempt_disable_count s)(get_cpu_index p := 0)"
    using assms(1) by (simp add: fun_upd_idem)
  then show ?thesis
    using assms(1) unfolding inner_def by (simp add: nkern_defs)
qed

theorem deferred_reschedule_witness:
  "reschedule_pending (NKern_Unlock id 0
     (NKern_RequestReschedule 0 (NKern_Lock 0 (NKern_Lock 0 quiet_kernel)))) 0"
  using deferred_reschedule_runs_at_outermost_unlock [of quiet_kernel 0 id]
  by (simp add: get_cpu_index_def quiet_kernel_def keyboard.defs)

end
