(* ===== verification/Memory.thy ===== *)
theory Memory
  imports NKern
begin

text \<open>
  Physical memory as bytes. The kernel runs with the first gigabyte mapped one to one, so a
  C pointer into kernel memory is a physical address; addresses are natural numbers here and
  the code's \<open>uint64_t\<close> addresses are read with \<open>unat\<close>. Multi-byte values are little-endian and
  need not be aligned, as on the processor the code runs on. Used by the heap, the memory map,
  the page tables, the ACPI tables and the thread stacks.
\<close>

type_synonym memory = "nat \<Rightarrow> u8"

record kmem = nkern +
  mem :: memory

section \<open>Little-endian accesses\<close>

fun read_le :: "memory \<Rightarrow> nat \<Rightarrow> nat \<Rightarrow> nat" where
  "read_le m a 0 = 0"
| "read_le m a (Suc n) = unat (m a) + 256 * read_le m (Suc a) n"

fun write_le :: "memory \<Rightarrow> nat \<Rightarrow> nat \<Rightarrow> nat \<Rightarrow> memory" where
  "write_le m a 0 v = m"
| "write_le m a (Suc n) v = write_le (m(a := of_nat v)) (Suc a) n (v div 256)"

definition read16 :: "memory \<Rightarrow> nat \<Rightarrow> u16" where
  "read16 m a = of_nat (read_le m a 2)"

definition read32 :: "memory \<Rightarrow> nat \<Rightarrow> u32" where
  "read32 m a = of_nat (read_le m a 4)"

definition read64 :: "memory \<Rightarrow> nat \<Rightarrow> u64" where
  "read64 m a = of_nat (read_le m a 8)"

definition write32 :: "memory \<Rightarrow> nat \<Rightarrow> u32 \<Rightarrow> memory" where
  "write32 m a v = write_le m a 4 (unat v)"

definition write64 :: "memory \<Rightarrow> nat \<Rightarrow> u64 \<Rightarrow> memory" where
  "write64 m a v = write_le m a 8 (unat v)"

section \<open>Reads after writes\<close>

lemma write_le_outside: "x < a \<or> a + n \<le> x \<Longrightarrow> write_le m a n v x = m x"
  by (induction n arbitrary: m a v) auto

lemma read_le_cong: "(\<And>x. a \<le> x \<Longrightarrow> x < a + n \<Longrightarrow> m x = m' x) \<Longrightarrow> read_le m a n = read_le m' a n"
  by (induction n arbitrary: a) auto

lemma read_le_write_disjoint:
  "b + k \<le> a \<or> a + n \<le> b \<Longrightarrow> read_le (write_le m b k v) a n = read_le m a n"
  by (intro read_le_cong write_le_outside) auto

lemma write_le_first: "write_le m (Suc a) n v a = m a"
  by (rule write_le_outside) simp

lemma read_le_write_same: "read_le (write_le m a n v) a n = v mod 256 ^ n"
proof (induction n arbitrary: m a v)
  case (Suc n)
  have "v mod 256 ^ Suc n = v mod 256 + 256 * (v div 256 mod 256 ^ n)"
    by (simp add: mod_mult2_eq)
  then show ?case
    using Suc by (simp add: write_le_first unat_of_nat)
qed simp

lemma read64_write64_same [simp, mem_simps]: "read64 (write64 m a v) a = v"
  by (simp add: read64_def write64_def read_le_write_same)

lemma read32_write32_same [simp, mem_simps]: "read32 (write32 m a v) a = v"
  by (simp add: read32_def write32_def read_le_write_same)

lemma read64_write64_disjoint [mem_simps]:
  "b + 8 \<le> a \<or> a + 8 \<le> b \<Longrightarrow> read64 (write64 m b v) a = read64 m a"
  by (simp add: read64_def write64_def read_le_write_disjoint)

lemma read64_write32_disjoint [mem_simps]:
  "b + 4 \<le> a \<or> a + 8 \<le> b \<Longrightarrow> read64 (write32 m b v) a = read64 m a"
  by (simp add: read64_def write32_def read_le_write_disjoint)

lemma read32_write64_disjoint [mem_simps]:
  "b + 8 \<le> a \<or> a + 4 \<le> b \<Longrightarrow> read32 (write64 m b v) a = read32 m a"
  by (simp add: read32_def write64_def read_le_write_disjoint)

lemma read32_write32_disjoint [mem_simps]:
  "b + 4 \<le> a \<or> a + 4 \<le> b \<Longrightarrow> read32 (write32 m b v) a = read32 m a"
  by (simp add: read32_def write32_def read_le_write_disjoint)

lemma write64_outside [mem_simps]: "x < a \<or> a + 8 \<le> x \<Longrightarrow> write64 m a v x = m x"
  by (simp add: write64_def write_le_outside)

lemma write32_outside [mem_simps]: "x < a \<or> a + 4 \<le> x \<Longrightarrow> write32 m a v x = m x"
  by (simp add: write32_def write_le_outside)

lemma read64_cong: "(\<And>x. a \<le> x \<Longrightarrow> x < a + 8 \<Longrightarrow> m x = m' x) \<Longrightarrow> read64 m a = read64 m' a"
  unfolding read64_def by (rule arg_cong [OF read_le_cong]) blast

lemma read32_cong: "(\<And>x. a \<le> x \<Longrightarrow> x < a + 4 \<Longrightarrow> m x = m' x) \<Longrightarrow> read32 m a = read32 m' a"
  unfolding read32_def by (rule arg_cong [OF read_le_cong]) blast

section \<open>Other fields\<close>

lemma kprint_mem [frame_simps, simp]: "mem (kprint str s) = mem s"
  using kprint_frame [of str s] by auto

lemma kprint_hex64_mem [frame_simps, simp]: "mem (kprint_hex64 v s) = mem s"
  by (simp add: kprint_hex64_def)

lemma NKern_Lock_mem [frame_simps, simp]: "mem (NKern_Lock p s) = mem s"
  using NKern_Lock_frame [of p s] by auto

end
