(* ===== verification/Heap.thy ===== *)
theory Heap
  imports Memory
begin

text \<open>
  The kernel heap (\<open>src/heap.c\<close>) at the level of bytes: block headers, the links between
  them and the magic numbers are read from and written to memory exactly where the C code
  does it. A \<open>block_t\<close> is 32 bytes: \<open>size\<close> at offset 0, \<open>free\<close> (a 32-bit int) at 8,
  \<open>next\<close> at 16, \<open>prev\<close> at 24; address 0 is the null pointer. \<open>heap_arena\<close> is the address
  the linker gave the arena. Walking the block list may not end on a corrupt list, so the
  walks are partial functions; theory \<open>Heap_Correct\<close> proves that they end on every
  heap the operations can build. \<open>resched\<close> is \<open>sched64_reschedule\<close>, called by
  \<open>NKern_Unlock\<close>; \<open>p\<close> is the processor that runs the code.
\<close>

record heap = kmem +
  heap_arena :: nat
  heap_list :: nat

abbreviation (input) HEAP_SIZE :: nat where "HEAP_SIZE \<equiv> 1048576"
abbreviation (input) BLOCK_HDR :: nat where "BLOCK_HDR \<equiv> 32"
abbreviation (input) BLOCK_MAGIC :: u32 where "BLOCK_MAGIC \<equiv> 0xDEADC0DE"
abbreviation (input) PANIC_HEAP_OOM :: u64 where "PANIC_HEAP_OOM \<equiv> 1"
abbreviation (input) PANIC_HEAP_CORRUPT :: u64 where "PANIC_HEAP_CORRUPT \<equiv> 2"

section \<open>Fields of a block header\<close>

definition blk_size :: "memory \<Rightarrow> nat \<Rightarrow> u64" where "blk_size m b = read64 m b"
definition blk_free :: "memory \<Rightarrow> nat \<Rightarrow> u32" where "blk_free m b = read32 m (b + 8)"
definition blk_next :: "memory \<Rightarrow> nat \<Rightarrow> nat" where "blk_next m b = unat (read64 m (b + 16))"
definition blk_prev :: "memory \<Rightarrow> nat \<Rightarrow> nat" where "blk_prev m b = unat (read64 m (b + 24))"

definition set_size :: "nat \<Rightarrow> u64 \<Rightarrow> memory \<Rightarrow> memory" where "set_size b v m = write64 m b v"
definition set_free :: "nat \<Rightarrow> u32 \<Rightarrow> memory \<Rightarrow> memory" where "set_free b v m = write32 m (b + 8) v"
definition set_next :: "nat \<Rightarrow> nat \<Rightarrow> memory \<Rightarrow> memory" where
  "set_next b v m = write64 m (b + 16) (of_nat v)"
definition set_prev :: "nat \<Rightarrow> nat \<Rightarrow> memory \<Rightarrow> memory" where
  "set_prev b v m = write64 m (b + 24) (of_nat v)"

section \<open>The operations\<close>

definition align16 :: "u64 \<Rightarrow> u64" where
  "align16 n = (n + 15) AND NOT 15"

definition heap_init :: "'a heap_scheme \<Rightarrow> 'a heap_scheme" where
  "heap_init s =
     (let b = heap_arena s;
          m = set_size b (of_nat HEAP_SIZE - of_nat BLOCK_HDR) (mem s);
          m = set_free b 1 m;
          m = set_next b 0 m;
          m = set_prev b 0 m
      in s\<lparr>heap_list := b, mem := m\<rparr>)"

text \<open>\<open>None\<close>: the walk does not end. \<open>Some 0\<close>: the null pointer, no block fits.\<close>

partial_function (option) find_free_block :: "memory \<Rightarrow> nat \<Rightarrow> u64 \<Rightarrow> nat option" where
  "find_free_block m b sz =
     (if b = 0 then Some 0
      else if blk_free m b \<noteq> 0 \<and> blk_size m b \<ge> sz then Some b
      else find_free_block m (blk_next m b) sz)"

definition split_block :: "nat \<Rightarrow> u64 \<Rightarrow> memory \<Rightarrow> memory" where
  "split_block b sz m =
     (let remaining = blk_size m b - sz
      in if remaining \<le> of_nat BLOCK_HDR + 16 then m
         else
           let new_block = b + BLOCK_HDR + unat sz;
               m = set_size new_block (remaining - of_nat BLOCK_HDR) m;
               m = set_free new_block 1 m;
               m = set_next new_block (blk_next m b) m;
               m = set_prev new_block b m;
               m = (if blk_next m b \<noteq> 0 then set_prev (blk_next m b) new_block m else m);
               m = set_next b new_block m
           in set_size b sz m)"

definition kmalloc ::
    "('a heap_scheme \<Rightarrow> 'a heap_scheme) \<Rightarrow> nat \<Rightarrow> u64 \<Rightarrow> 'a heap_scheme \<Rightarrow>
     ('a heap_scheme, nat) presult" where
  "kmalloc resched p sz s =
     (if sz = 0 then Some (Inr (0, s))
      else
        let sz = align16 sz;
            s = NKern_Lock p s;
            total_needed = sz + 4
        in case find_free_block (mem s) (heap_list s) total_needed of
             None \<Rightarrow> None
           | Some b \<Rightarrow>
               if b = 0
               then Some (Inl (neka_panic ''HEAP'' PANIC_HEAP_OOM (NKern_Unlock resched p s)))
               else
                 let m = split_block b total_needed (mem s);
                     m = set_free b 0 m;
                     m = write32 m (b + BLOCK_HDR) BLOCK_MAGIC;
                     s = NKern_Unlock resched p (s\<lparr>mem := m\<rparr>)
                 in Some (Inr (b + BLOCK_HDR + 4, s)))"

definition coalesce_forward :: "nat \<Rightarrow> memory \<Rightarrow> memory" where
  "coalesce_forward b m =
     (let n = blk_next m b
      in if n \<noteq> 0 \<and> blk_free m n \<noteq> 0
         then
           let m = set_size b (blk_size m b + (of_nat BLOCK_HDR + blk_size m n)) m;
               m = set_next b (blk_next m n) m
           in if blk_next m n \<noteq> 0 then set_prev (blk_next m n) b m else m
         else m)"

definition kfree ::
    "('a heap_scheme \<Rightarrow> 'a heap_scheme) \<Rightarrow> nat \<Rightarrow> nat \<Rightarrow> 'a heap_scheme \<Rightarrow>
     ('a heap_scheme, unit) result" where
  "kfree resched p ptr s =
     (if ptr = 0 then Inr ((), s)
      else
        let s = NKern_Lock p s;
            magic_slot = ptr - 4
        in if read32 (mem s) magic_slot \<noteq> BLOCK_MAGIC
           then Inl (neka_panic ''HEAP'' PANIC_HEAP_CORRUPT (NKern_Unlock resched p s))
           else
             let b = magic_slot - BLOCK_HDR;
                 m = set_free b 1 (mem s);
                 m = write32 m magic_slot 0;
                 m = coalesce_forward b m;
                 m = (if blk_prev m b \<noteq> 0 \<and> blk_free m (blk_prev m b) \<noteq> 0
                      then coalesce_forward (blk_prev m b) m else m)
             in Inr ((), NKern_Unlock resched p (s\<lparr>mem := m\<rparr>)))"

partial_function (option) free_bytes_from :: "memory \<Rightarrow> nat \<Rightarrow> u64 \<Rightarrow> u64 option" where
  "free_bytes_from m b acc =
     (if b = 0 then Some acc
      else free_bytes_from m (blk_next m b)
             (if blk_free m b \<noteq> 0 then acc + blk_size m b else acc))"

definition heap_free_bytes :: "'a heap_scheme \<Rightarrow> u64 option" where
  "heap_free_bytes s = free_bytes_from (mem s) (heap_list s) 0"

partial_function (option) count_blocks_from :: "memory \<Rightarrow> nat \<Rightarrow> nat \<Rightarrow> nat option" where
  "count_blocks_from m b n =
     (if b = 0 then Some n else count_blocks_from m (blk_next m b) (n + 1))"

definition heap_print_stats :: "'a heap_scheme \<Rightarrow> 'a heap_scheme option" where
  "heap_print_stats s =
     (case heap_free_bytes s of None \<Rightarrow> None
      | Some free_bytes \<Rightarrow>
        (case count_blocks_from (mem s) (heap_list s) 0 of None \<Rightarrow> None
         | Some block_count \<Rightarrow>
             Some (kprint [nl] (kprint_hex64 (of_nat block_count)
                    (kprint '' bytes, blocks='' (kprint_hex64 free_bytes
                      (kprint ''[heap] free='' s)))))))"

end
