(* ===== verification/Heap_Correct.thy ===== *)
theory Heap_Correct
  imports Heap
begin

text \<open>
  Correctness of the heap. The arena is abstracted to the list of its blocks, each a payload
  size and a free flag (\<open>seg\<close>), and each operation is shown to act on that list as the
  abstract operations \<open>alloc_in\<close> and \<open>free_in\<close> do: first fit with splitting, and freeing
  with coalescing in both directions.
\<close>

type_synonym blocks = "(nat \<times> bool) list"

section \<open>Layout of a list of blocks in memory\<close>

text \<open>Bytes the blocks take, and the address of the last block (or the given one).\<close>

definition span :: "blocks \<Rightarrow> nat" where
  "span bs = sum_list (map (\<lambda>(n, _). BLOCK_HDR + n) bs)"

lemma span_simps [simp]:
  "span [] = 0" "span ((n, f) # bs) = BLOCK_HDR + n + span bs" "span (bs @ cs) = span bs + span cs"
  by (simp_all add: span_def)

fun last_addr :: "nat \<Rightarrow> nat \<Rightarrow> blocks \<Rightarrow> nat" where
  "last_addr a pv [] = pv"
| "last_addr a pv ((n, f) # bs) = last_addr (a + BLOCK_HDR + n) a bs"

definition hdr :: "memory \<Rightarrow> nat \<Rightarrow> nat \<Rightarrow> bool \<Rightarrow> nat \<Rightarrow> nat \<Rightarrow> bool" where
  "hdr m a n f pv nx \<longleftrightarrow>
     unat (blk_size m a) = n \<and> blk_free m a = (if f then 1 else 0) \<and>
     blk_next m a = nx \<and> blk_prev m a = pv \<and>
     (\<not> f \<longrightarrow> 4 \<le> n \<and> read32 m (a + BLOCK_HDR) = BLOCK_MAGIC)"

text \<open>
  \<open>seg m a pv bs nx\<close>: the blocks \<open>bs\<close> lie in memory one after the other from address \<open>a\<close>,
  linked both ways; the first one's \<open>prev\<close> is \<open>pv\<close>, the last one's \<open>next\<close> is \<open>nx\<close>.
\<close>

fun seg :: "memory \<Rightarrow> nat \<Rightarrow> nat \<Rightarrow> blocks \<Rightarrow> nat \<Rightarrow> bool" where
  "seg m a pv [] nx = True"
| "seg m a pv ((n, f) # bs) nx \<longleftrightarrow>
     hdr m a n f pv (if bs = [] then nx else a + BLOCK_HDR + n) \<and>
     seg m (a + BLOCK_HDR + n) a bs nx"

lemma seg_append:
  "seg m a pv (xs @ ys) nx \<longleftrightarrow>
     seg m a pv xs (if ys = [] then nx else a + span xs) \<and>
     seg m (a + span xs) (last_addr a pv xs) ys nx"
  by (induction xs arbitrary: a pv) (auto simp: add.assoc split: if_splits)

lemma last_addr_snoc: "last_addr a pv (xs @ [(n, f)]) = a + span xs"
  by (induction xs arbitrary: a pv) auto

lemma hdr_cong:
  assumes "\<And>x. a \<le> x \<Longrightarrow> x < a + BLOCK_HDR + n \<Longrightarrow> m x = m' x"
  shows "hdr m a n f pv nx = hdr m' a n f pv nx"
proof -
  have "read64 m a = read64 m' a" "read32 m (a + 8) = read32 m' (a + 8)"
    "read64 m (a + 16) = read64 m' (a + 16)" "read64 m (a + 24) = read64 m' (a + 24)"
    using assms by (auto intro!: read64_cong read32_cong)
  moreover have "4 \<le> n \<Longrightarrow> read32 m (a + 32) = read32 m' (a + 32)"
    using assms by (auto intro!: read32_cong)
  ultimately show ?thesis
    by (auto simp: hdr_def blk_size_def blk_free_def blk_next_def blk_prev_def)
qed

lemma seg_cong:
  assumes "\<And>x. a \<le> x \<Longrightarrow> x < a + span bs \<Longrightarrow> m x = m' x"
  shows "seg m a pv bs nx = seg m' a pv bs nx"
  using assms
proof (induction bs arbitrary: a pv)
  case (Cons b bs)
  obtain n f where b: "b = (n, f)" by (cases b)
  show ?case
    using hdr_cong [of a n m m' f pv] Cons by (simp add: b)
qed simp

text \<open>Only the last block's \<open>next\<close> field of a segment depends on what follows it.\<close>

lemma seg_set_next:
  assumes "seg m a pv (xs @ [(n, f)]) nx"
    and "\<And>x. x < a + span xs + 16 \<or> a + span xs + 24 \<le> x \<Longrightarrow> m' x = m x"
    and "blk_next m' (a + span xs) = nx'"
  shows "seg m' a pv (xs @ [(n, f)]) nx'"
proof -
  let ?b = "a + span xs"
  have 1: "seg m a pv xs ?b" and 2: "hdr m ?b n f (last_addr a pv xs) nx"
    using assms(1) by (auto simp: seg_append)
  have "seg m' a pv xs ?b"
    using 1 seg_cong [of a xs m' m] assms(2) by simp
  moreover have "hdr m' ?b n f (last_addr a pv xs) nx'"
  proof -
    have "read64 m' ?b = read64 m ?b" "read32 m' (?b + 8) = read32 m (?b + 8)"
      "read64 m' (?b + 24) = read64 m (?b + 24)" "read32 m' (?b + 32) = read32 m (?b + 32)"
      using assms(2) by (auto intro!: read64_cong read32_cong)
    then show ?thesis
      using 2 assms(3) by (auto simp: hdr_def blk_size_def blk_free_def blk_next_def blk_prev_def)
  qed
  ultimately show ?thesis by (simp add: seg_append)
qed

lemma seg_set_prev:
  assumes "seg m a pv bs nx" "\<And>x. x < a + 24 \<or> a + 32 \<le> x \<Longrightarrow> m' x = m x"
    and "bs \<noteq> [] \<Longrightarrow> blk_prev m' a = pv'"
  shows "seg m' a pv' bs nx"
proof (cases bs)
  case (Cons b cs)
  obtain n f where b: "b = (n, f)" by (cases b)
  let ?nx = "if cs = [] then nx else a + 32 + n"
  have "hdr m a n f pv ?nx" using assms(1) by (simp add: Cons b)
  moreover have "read64 m' a = read64 m a" "read32 m' (a + 8) = read32 m (a + 8)"
    "read64 m' (a + 16) = read64 m (a + 16)" "read32 m' (a + 32) = read32 m (a + 32)"
    using assms(2) by (auto intro!: read64_cong read32_cong)
  ultimately have "hdr m' a n f pv' ?nx"
    using assms(3) Cons by (auto simp: hdr_def blk_size_def blk_free_def blk_next_def blk_prev_def)
  moreover have "seg m' (a + 32 + n) a cs nx = seg m (a + 32 + n) a cs nx"
    using assms(2) by (intro seg_cong) simp
  ultimately show ?thesis using assms(1) by (simp add: Cons b)
qed simp

lemmas blk_defs = blk_size_def blk_free_def blk_next_def blk_prev_def
  set_size_def set_free_def set_next_def set_prev_def

section \<open>Splitting a block\<close>

text \<open>\<open>k\<close> payload bytes are cut from a free block of \<open>n\<close>.\<close>

lemma split_block_effect:
  fixes sz :: u64
  assumes "hdr m b n True pv nx" and sz: "unat sz = k" "k \<le> n" "48 < n - k"
    and nx: "nx = 0 \<or> nx = b + 32 + n" and big: "b + 64 + n < 2 ^ 64" and "0 < b"
  defines "c \<equiv> b + 32 + k" and "m' \<equiv> split_block b sz m"
  shows "blk_size m' b = sz" "blk_free m' b = 1" "blk_next m' b = c" "blk_prev m' b = pv"
    "unat (blk_size m' c) = n - k - 32" "blk_free m' c = 1" "blk_next m' c = nx" "blk_prev m' c = b"
    "nx \<noteq> 0 \<Longrightarrow> blk_prev m' nx = c"
    "\<And>x. (x < b \<or> b + 32 \<le> x) \<Longrightarrow> (x < c \<or> c + 32 \<le> x) \<Longrightarrow>
        (nx \<noteq> 0 \<Longrightarrow> x < nx + 24 \<or> nx + 32 \<le> x) \<Longrightarrow> m' x = m x"
proof -
  let ?r = "blk_size m b - sz"
  have n: "unat (blk_size m b) = n" "blk_free m b = 1" "blk_next m b = nx" "blk_prev m b = pv"
    using assms(1) by (auto simp: hdr_def)
  have le: "sz \<le> blk_size m b" using n sz by (simp add: word_le_nat_alt)
  have r: "unat ?r = n - k" using unat_sub [OF le] n sz by simp
  have r48: "\<not> ?r \<le> 48" using r sz by (simp add: word_le_nat_alt)
  have r32: "unat (?r - 32) = n - k - 32"
    using unat_sub [of 32 ?r] r sz by (simp add: word_le_nat_alt)
  have nx': "read64 m (b + 16) = of_nat nx" using n(3) by (auto simp: blk_next_def)
  have nxb: "unat (of_nat nx :: u64) = nx"
    by (rule unat_of_nat_small) (use nx big in auto)
  define m1 where "m1 = set_prev c b (set_next c nx (set_free c 1 (set_size c (?r - 32) m)))"
  have rd: "blk_next m1 b = nx"
    using sz by (simp add: m1_def blk_defs mem_simps c_def nx' nxb)
  have rd': "blk_next (set_free c 1 (set_size c (?r - 32) m)) b = nx"
    using sz by (simp add: blk_defs mem_simps c_def nx' nxb)
  have m': "m' = set_size b sz (set_next b c (if nx \<noteq> 0 then set_prev nx c m1 else m1))"
    using r48 rd [unfolded m1_def] rd' sz unfolding m'_def split_block_def m1_def
    by (cases "nx = 0") (simp_all add: Let_def c_def [symmetric])
  have cb: "unat (of_nat c :: u64) = c" and bb: "unat (of_nat b :: u64) = b"
    by (rule unat_of_nat_small, use big sz in \<open>simp add: c_def\<close>)+
  note facts = m' m1_def blk_defs mem_simps c_def
  show "blk_size m' b = sz" by (simp add: m' set_size_def blk_size_def)
  show "blk_free m' b = 1" using nx sz n(2) by (auto simp: facts)
  show "blk_next m' b = c" using cb by (simp add: facts)
  show "blk_prev m' b = pv" using nx sz n(4) by (auto simp: facts)
  show "unat (blk_size m' c) = n - k - 32" using nx sz r32 by (auto simp: facts)
  show "blk_free m' c = 1" using nx sz by (auto simp: facts)
  show "blk_next m' c = nx" using nx sz nxb by (auto simp: facts)
  show "blk_prev m' c = b" using nx sz bb by (auto simp: facts)
  show "nx \<noteq> 0 \<Longrightarrow> blk_prev m' nx = c" using nx sz cb by (auto simp: facts)
  show "m' x = m x" if "x < b \<or> b + 32 \<le> x" "x < c \<or> c + 32 \<le> x"
    "nx \<noteq> 0 \<Longrightarrow> x < nx + 24 \<or> nx + 32 \<le> x" for x
    using that by (auto simp: facts)
qed

section \<open>Allocating in a list of blocks\<close>

definition carve :: "nat \<Rightarrow> nat \<Rightarrow> blocks" where
  "carve k n = (if n - k \<le> 48 then [(n, False)] else [(k, False), (n - k - 32, True)])"

lemma span_carve [simp]: "k \<le> n \<Longrightarrow> span (carve k n) = 32 + n"
  by (simp add: carve_def)

lemma carve_ne [simp]: "carve k n \<noteq> []"
  by (simp add: carve_def)

lemma unat_blk_free [simp]: "blk_free (set_free b v m) b = v"
  by (simp add: blk_defs)

lemma seg_splitD:
  assumes "seg m a pv (xs @ (n, f) # ys) nx"
  shows "seg m a pv xs (a + span xs)"
    "hdr m (a + span xs) n f (last_addr a pv xs) (if ys = [] then nx else a + span xs + 32 + n)"
    "seg m (a + span xs + 32 + n) (a + span xs) ys nx"
  using assms by (simp_all add: seg_append)

lemma seg_joinI:
  assumes "seg m a pv xs (a + span xs)" "seg m (a + span xs) (last_addr a pv xs) ys nx" "ys \<noteq> []"
  shows "seg m a pv (xs @ ys) nx"
  using assms by (simp add: seg_append)

text \<open>Marking a block as taken or free and writing its magic slot.\<close>

lemma hdr_mark:
  assumes "hdr m b n f pv nx" "4 \<le> n" "\<not> g \<Longrightarrow> v = BLOCK_MAGIC"
  shows "hdr (write32 (set_free b (if g then 1 else 0) m) (b + 32) v) b n g pv nx"
  using assms by (simp add: hdr_def blk_defs mem_simps)

lemma mark_outside:
  "x < b \<or> b + 32 + n \<le> x \<Longrightarrow> 4 \<le> n \<Longrightarrow> write32 (set_free b w m) (b + 32) v x = m x"
  by (auto simp: blk_defs mem_simps)

lemma alloc_whole:
  assumes seg: "seg m a pv (xs @ (n, True) # ys) nx" and n: "4 \<le> n"
  defines "b \<equiv> a + span xs"
  defines "m' \<equiv> write32 (set_free b 0 m) (b + 32) BLOCK_MAGIC"
  shows "seg m' a pv (xs @ (n, False) # ys) nx"
    and "\<And>x. x < b \<or> b + 32 + n \<le> x \<Longrightarrow> m' x = m x"
proof -
  have parts: "seg m a pv xs b" "hdr m b n True (last_addr a pv xs) (if ys = [] then nx else b + 32 + n)"
    "seg m (b + 32 + n) b ys nx"
    using seg_splitD [OF seg] unfolding b_def by blast+
  show out: "m' x = m x" if "x < b \<or> b + 32 + n \<le> x" for x
    unfolding m'_def by (rule mark_outside [OF that n])
  have "hdr m' b n False (last_addr a pv xs) (if ys = [] then nx else b + 32 + n)"
    using hdr_mark [OF parts(2) n, of False BLOCK_MAGIC] by (simp add: m'_def split del: if_split)
  moreover have "seg m' a pv xs b"
    using parts(1) seg_cong [of a xs m' m] out by (simp add: b_def)
  moreover have "seg m' (b + 32 + n) b ys nx"
    using parts(3) seg_cong [of "b + 32 + n" ys m' m] out by simp
  ultimately show "seg m' a pv (xs @ (n, False) # ys) nx"
    by (cases "ys = []") (simp_all add: seg_append b_def)
qed

lemma alloc_cut:
  fixes sz :: u64
  assumes seg: "seg m a pv (xs @ (n, True) # ys) 0" and sz: "unat sz = k" "4 \<le> k" "k \<le> n" "48 < n - k"
    and bnd: "0 < a" "a + span (xs @ (n, True) # ys) + 32 < 2 ^ 64"
  defines "b \<equiv> a + span xs"
  defines "m' \<equiv> split_block b sz m"
  shows "seg m' a pv (xs @ (k, True) # (n - k - 32, True) # ys) 0"
    and "\<And>x. x < b \<or> b + 32 + n \<le> x \<Longrightarrow> x < b + 56 + n \<or> b + 64 + n \<le> x \<Longrightarrow> m' x = m x"
proof -
  let ?c = "b + 32 + k"
  let ?nx = "if ys = [] then 0 else b + 32 + n"
  have parts: "seg m a pv xs b" "hdr m b n True (last_addr a pv xs) ?nx" "seg m (b + 32 + n) b ys 0"
    using seg_splitD [OF seg] unfolding b_def by blast+
  have nx: "?nx = 0 \<or> ?nx = b + 32 + n" by simp
  have "b + 64 + n < 2 ^ 64" "0 < b" using bnd by (simp_all add: b_def)
  note e = split_block_effect [OF parts(2) sz(1,3,4) nx this, folded m'_def]
  show out: "m' x = m x" if "x < b \<or> b + 32 + n \<le> x" "x < b + 56 + n \<or> b + 64 + n \<le> x" for x
    using that e(10) [of x] sz by (cases "ys = []") auto
  have "seg m' a pv xs b"
    using parts(1) seg_cong [of a xs m' m] out by (simp add: b_def)
  moreover have "hdr m' b k True (last_addr a pv xs) ?c" using e(1-4) sz by (simp add: hdr_def)
  moreover have "hdr m' ?c (n - k - 32) True b ?nx" using e(5-8) by (simp add: hdr_def)
  moreover have "seg m' (b + 32 + n) ?c ys 0"
  proof (cases "ys = []")
    case False
    let ?m = "\<lambda>x. if x < b + 32 + n then m' x else m x"
    have "seg ?m (b + 32 + n) b ys 0"
      using parts(3) seg_cong [of "b + 32 + n" ys ?m m] by simp
    then show ?thesis
      by (rule seg_set_prev) (use out e(9) False in auto)
  qed simp
  moreover have "?c + 32 + (n - k - 32) = b + 32 + n" using sz by simp
  ultimately show "seg m' a pv (xs @ (k, True) # (n - k - 32, True) # ys) 0"
    by (cases "ys = []") (simp_all add: seg_append b_def add_ac)
qed

lemma alloc_seg:
  fixes sz :: u64
  assumes seg: "seg m a pv (xs @ (n, True) # ys) 0" and sz: "unat sz = k" "4 \<le> k" "k \<le> n"
    and bnd: "0 < a" "a + span (xs @ (n, True) # ys) + 32 < 2 ^ 64"
  defines "b \<equiv> a + span xs"
  defines "m' \<equiv> write32 (set_free b 0 (split_block b sz m)) (b + 32) BLOCK_MAGIC"
  shows "seg m' a pv (xs @ carve k n @ ys) 0"
    and "\<And>x. x < b \<or> b + 32 + n \<le> x \<Longrightarrow> x < b + 56 + n \<or> b + 64 + n \<le> x \<Longrightarrow> m' x = m x"
proof -
  have n: "unat (blk_size m b) = n" using seg_splitD(2) [OF seg] by (simp add: hdr_def b_def)
  have "unat (blk_size m b - sz) = n - k"
    using unat_sub [of sz "blk_size m b"] n sz by (simp add: word_le_nat_alt)
  then have small: "split_block b sz m = m" if "n - k \<le> 48"
    using that by (simp add: split_block_def Let_def word_le_nat_alt)
  have "seg m' a pv (xs @ carve k n @ ys) 0 \<and>
    (\<forall>x. (x < b \<or> b + 32 + n \<le> x) \<longrightarrow> (x < b + 56 + n \<or> b + 64 + n \<le> x) \<longrightarrow> m' x = m x)"
  proof (cases "n - k \<le> 48")
    case True
    then show ?thesis
      using alloc_whole [OF seg] small sz by (simp add: m'_def b_def carve_def)
  next
    case False
    then have cut: "48 < n - k" by simp
    note c = alloc_cut [OF seg sz cut bnd, folded b_def]
    have "m' x = m x" if "x < b \<or> b + 32 + n \<le> x" "x < b + 56 + n \<or> b + 64 + n \<le> x" for x
      using alloc_whole(2) [OF c(1) sz(2), of x] c(2) [of x] that cut
      by (auto simp: m'_def b_def)
    then show ?thesis
      using alloc_whole(1) [OF c(1) sz(2)] cut by (simp add: m'_def b_def carve_def)
  qed
  then show "seg m' a pv (xs @ carve k n @ ys) 0"
    and "\<And>x. x < b \<or> b + 32 + n \<le> x \<Longrightarrow> x < b + 56 + n \<or> b + 64 + n \<le> x \<Longrightarrow> m' x = m x"
    by blast+
qed

section \<open>Payloads\<close>

text \<open>The bytes handed out: in each taken block, everything after the magic number.\<close>

fun live :: "nat \<Rightarrow> blocks \<Rightarrow> nat set" where
  "live a [] = {}"
| "live a ((n, f) # bs) = (if f then {} else {a + 36..<a + 32 + n}) \<union> live (a + 32 + n) bs"

lemma live_append: "live a (xs @ ys) = live a xs \<union> live (a + span xs) ys"
  by (induction xs arbitrary: a) (auto simp: add.assoc)

lemma live_bounds: "x \<in> live a bs \<Longrightarrow> a + 36 \<le> x \<and> x < a + span bs"
proof (induction bs arbitrary: a)
  case (Cons b bs)
  obtain n f where "b = (n, f)" by (cases b)
  then show ?case using Cons.prems Cons.IH [of "a + 32 + n"] by (auto split: if_splits)
qed simp

section \<open>Coalescing\<close>

fun merge_next :: "nat \<Rightarrow> blocks \<Rightarrow> blocks" where
  "merge_next n ((k, True) # zs) = (n + 32 + k, True) # zs"
| "merge_next n ys = (n, True) # ys"

lemma merge_next_ne [simp]: "merge_next n ys \<noteq> []"
  by (cases "(n, ys)" rule: merge_next.cases) auto

lemma span_merge_next [simp]: "span (merge_next n ys) = 32 + n + span ys"
  by (cases "(n, ys)" rule: merge_next.cases) auto

lemma coalesce_noop:
  assumes "seg m a pv (xs @ (n, f) # ys) 0" "\<And>k zs. ys \<noteq> (k, True) # zs"
  shows "coalesce_forward (a + span xs) m = m"
proof -
  note parts = seg_splitD [OF assms(1)]
  show ?thesis
  proof (cases ys)
    case Nil
    then show ?thesis using parts(2) by (simp add: coalesce_forward_def hdr_def)
  next
    case (Cons y zs)
    then obtain k where "y = (k, False)" using assms(2) by (cases y) auto
    then show ?thesis using parts(2,3) Cons by (simp add: coalesce_forward_def hdr_def)
  qed
qed

lemma coalesce_effect:
  assumes h1: "hdr m b n True pv c" and h2: "hdr m c k True b nx" and c: "c = b + 32 + n"
    and nx: "nx = 0 \<or> nx = c + 32 + k" and big: "c + 64 + k < 2 ^ 64"
  defines "m' \<equiv> coalesce_forward b m"
  shows "hdr m' b (n + 32 + k) True pv nx" "nx \<noteq> 0 \<Longrightarrow> blk_prev m' nx = b"
    "\<And>x. (x < b \<or> b + 32 \<le> x) \<Longrightarrow> (nx \<noteq> 0 \<Longrightarrow> x < nx + 24 \<or> nx + 32 \<le> x) \<Longrightarrow> m' x = m x"
proof -
  have f: "unat (blk_size m b) = n" "blk_free m b = 1" "blk_next m b = c" "blk_prev m b = pv"
    "unat (blk_size m c) = k" "blk_free m c = 1" "blk_next m c = nx"
    using h1 h2 by (auto simp: hdr_def)
  let ?sz = "blk_size m b + (32 + blk_size m c)"
  have inner: "unat (32 + blk_size m c) = 32 + k"
    using unat_add_small [of 32 "blk_size m c"] f big by simp
  have sz: "unat ?sz = n + 32 + k"
    using unat_add_small [of "blk_size m b" "32 + blk_size m c"] f inner big c by simp
  have nxb: "unat (of_nat nx :: u64) = nx" and bb: "unat (of_nat b :: u64) = b"
    by (rule unat_of_nat_small, use nx big c in auto)+
  have nx1: "blk_next (set_size b ?sz m) c = nx"
    using f(7) c by (simp add: blk_defs mem_simps)
  have nx2: "blk_next (set_next b nx (set_size b ?sz m)) c = nx"
    using f(7) c by (simp add: blk_defs mem_simps)
  define m1 where "m1 = set_next b nx (set_size b ?sz m)"
  have m': "m' = (if nx \<noteq> 0 then set_prev nx b m1 else m1)"
    using f c nx1 nx2 unfolding m'_def coalesce_forward_def m1_def
    by (cases "nx = 0") (simp_all add: Let_def)
  note facts = m' m1_def blk_defs mem_simps
  have "blk_size m' b = ?sz" "blk_free m' b = 1" "blk_next m' b = nx" "blk_prev m' b = pv"
    using nx c f(2,4) nxb by (auto simp: facts)
  then show "hdr m' b (n + 32 + k) True pv nx" using sz by (simp add: hdr_def)
  show "nx \<noteq> 0 \<Longrightarrow> blk_prev m' nx = b" using bb by (simp add: facts)
  show "m' x = m x" if "x < b \<or> b + 32 \<le> x" "nx \<noteq> 0 \<Longrightarrow> x < nx + 24 \<or> nx + 32 \<le> x" for x
    using that by (auto simp: facts)
qed

lemma coalesce_seg:
  assumes seg: "seg m a pv (xs @ (n, True) # ys) 0"
    and bnd: "0 < a" "a + span (xs @ (n, True) # ys) + 32 < 2 ^ 64"
  defines "b \<equiv> a + span xs"
  defines "m' \<equiv> coalesce_forward b m"
  shows "seg m' a pv (xs @ merge_next n ys) 0"
    and "\<And>x. x < b \<Longrightarrow> m' x = m x"
    and "\<And>x. x \<in> live (b + 32 + n) ys \<Longrightarrow> m' x = m x"
    and "\<And>x. b + 32 \<le> x \<Longrightarrow> x < b + 32 + fst (hd (merge_next n ys)) \<Longrightarrow> m' x = m x"
proof -
  have "seg m' a pv (xs @ merge_next n ys) 0 \<and> (\<forall>x < b. m' x = m x) \<and>
    (\<forall>x \<in> live (b + 32 + n) ys. m' x = m x) \<and> 
    (\<forall>x. b + 32 \<le> x \<and> x < b + 32 + fst (hd (merge_next n ys)) \<longrightarrow> m' x = m x)"
  proof (cases "\<exists>k zs. ys = (k, True) # zs")
    case False
    then have "m' = m" using coalesce_noop [OF seg] by (simp add: m'_def b_def)
    moreover have "merge_next n ys = (n, True) # ys"
      using False by (cases "(n, ys)" rule: merge_next.cases) auto
    ultimately show ?thesis using seg by simp
  next
    case True
    then obtain k zs where ys: "ys = (k, True) # zs" by blast
    let ?c = "b + 32 + n"
    let ?nx = "if zs = [] then 0 else ?c + 32 + k"
    have parts: "seg m a pv xs b" "hdr m b n True (last_addr a pv xs) ?c" "hdr m ?c k True b ?nx"
      "seg m (?c + 32 + k) ?c zs 0"
      using seg_splitD [OF seg] by (simp_all add: b_def ys split: if_splits)
    have nx: "?nx = 0 \<or> ?nx = ?c + 32 + k" by simp
    have "?c + 64 + k < 2 ^ 64" using bnd by (simp add: b_def ys)
    note e = coalesce_effect [OF parts(2,3) refl nx this, folded m'_def]
    have out: "m' x = m x" if "x < b \<or> b + 32 \<le> x" "x < ?c + 56 + k \<or> ?c + 64 + k \<le> x" for x
      using that e(3) [of x] by (cases "zs = []") auto
    have "seg m' a pv xs b" using parts(1) seg_cong [of a xs m' m] out by (simp add: b_def)
    moreover have "seg m' (?c + 32 + k) b zs 0"
    proof (cases "zs = []")
      case False
      let ?m = "\<lambda>x. if x < ?c + 32 + k then m' x else m x"
      have "seg ?m (?c + 32 + k) ?c zs 0"
        using parts(4) seg_cong [of "?c + 32 + k" zs ?m m] by simp
      then show ?thesis by (rule seg_set_prev) (use out e(2) False in auto)
    qed simp
    ultimately have "seg m' a pv (xs @ merge_next n ys) 0"
      using e(1) by (cases "zs = []") (simp_all add: ys seg_append b_def add_ac)
    moreover have "m' x = m x" if "x \<in> live ?c ys" for x
      using that live_bounds [of x "?c + 32 + k" zs] out [of x] by (simp add: ys)
    ultimately show ?thesis using out by (simp add: ys)
  qed
  then show "seg m' a pv (xs @ merge_next n ys) 0" and "\<And>x. x < b \<Longrightarrow> m' x = m x"
    and "\<And>x. x \<in> live (b + 32 + n) ys \<Longrightarrow> m' x = m x"
    and "\<And>x. b + 32 \<le> x \<Longrightarrow> x < b + 32 + fst (hd (merge_next n ys)) \<Longrightarrow> m' x = m x"
    by blast+
qed

lemma coalesce_outside:
  assumes seg: "seg m a pv (xs @ (n, True) # ys) 0" and bnd: "a + span (xs @ (n, True) # ys) + 32 < 2 ^ 64"
    and x: "x < a \<or> a + span (xs @ (n, True) # ys) \<le> x"
  shows "coalesce_forward (a + span xs) m x = m x"
proof (cases "\<exists>k zs. ys = (k, True) # zs")
  case False
  then show ?thesis using coalesce_noop [OF seg] by simp
next
  case True
  then obtain k zs where ys: "ys = (k, True) # zs" by blast
  let ?b = "a + span xs"
  let ?c = "?b + 32 + n"
  let ?nx = "if zs = [] then 0 else ?c + 32 + k"
  have parts: "hdr m ?b n True (last_addr a pv xs) ?c" "hdr m ?c k True ?b ?nx"
    using seg_splitD [OF seg] by (simp_all add: ys split: if_splits)
  have nx: "?nx = 0 \<or> ?nx = ?c + 32 + k" by simp
  have "?c + 64 + k < 2 ^ 64" using bnd by (simp add: ys)
  note e = coalesce_effect(3) [OF parts refl nx this]
  have "32 \<le> span zs" if "zs \<noteq> []" using that by (cases zs) auto
  then show ?thesis using x by (intro e) (auto simp: ys)
qed

section \<open>First fit\<close>

fun first_fit :: "nat \<Rightarrow> nat \<Rightarrow> blocks \<Rightarrow> nat option" where
  "first_fit k a [] = None"
| "first_fit k a ((n, f) # bs) = (if f \<and> k \<le> n then Some a else first_fit k (a + 32 + n) bs)"

lemma first_fit_None: "first_fit k a bs = None \<longleftrightarrow> (\<forall>(n, f) \<in> set bs. \<not> (f \<and> k \<le> n))"
  by (induction bs arbitrary: a) (auto split: if_splits)

lemma first_fit_SomeE:
  assumes "first_fit k a bs = Some b"
  obtains xs n ys where "bs = xs @ (n, True) # ys" "b = a + span xs" "k \<le> n"
    "\<forall>(n, f) \<in> set xs. \<not> (f \<and> k \<le> n)"
  using assms
proof (induction bs arbitrary: a thesis)
  case (Cons c cs)
  obtain n f where c: "c = (n, f)" by (cases c)
  show ?case
  proof (cases "f \<and> k \<le> n")
    case True
    then show ?thesis using Cons.prems(1) [of "[]" n cs] Cons.prems(2) by (simp add: c)
  next
    case False
    then have "first_fit k (a + 32 + n) cs = Some b"
      using Cons.prems(2) by (simp add: c split: if_splits)
    then obtain xs n' ys where "cs = xs @ (n', True) # ys" "b = a + 32 + n + span xs" "k \<le> n'"
      "\<forall>(n, f) \<in> set xs. \<not> (f \<and> k \<le> n)"
      using Cons.IH [of "a + 32 + n"] by blast
    then show ?thesis using Cons.prems(1) [of "c # xs" n' ys] False by (simp add: c)
  qed
qed simp

lemma find_free_seg:
  assumes "seg m a pv bs 0" "0 < a"
  shows "find_free_block m (if bs = [] then 0 else a) sz =
    Some (case first_fit (unat sz) a bs of None \<Rightarrow> 0 | Some b \<Rightarrow> b)"
  using assms
proof (induction bs arbitrary: a pv)
  case Nil
  then show ?case by (simp add: find_free_block.simps)
next
  case (Cons c cs)
  obtain n f where c: "c = (n, f)" by (cases c)
  have h: "hdr m a n f pv (if cs = [] then 0 else a + 32 + n)" "seg m (a + 32 + n) a cs 0"
    using Cons.prems(1) by (simp_all add: c split: if_splits)
  have fits: "blk_free m a \<noteq> 0 \<and> blk_size m a \<ge> sz \<longleftrightarrow> f \<and> unat sz \<le> n"
    using h(1) by (auto simp: hdr_def word_le_nat_alt)
  have nx: "blk_next m a = (if cs = [] then 0 else a + 32 + n)"
    using h(1) by (simp only: hdr_def)
  show ?case
    using Cons.IH [OF h(2)] Cons.prems(2) fits nx
    by (subst find_free_block.simps, cases "cs = []") (auto simp: c)
qed

section \<open>Walking the list\<close>

definition free_total :: "blocks \<Rightarrow> nat" where
  "free_total bs = sum_list (map (\<lambda>(n, f). if f then n else 0) bs)"

lemma free_total_simps [simp]:
  "free_total [] = 0" "free_total ((n, f) # bs) = (if f then n else 0) + free_total bs"
  "free_total (bs @ cs) = free_total bs + free_total cs"
  by (simp_all add: free_total_def)

lemma free_total_le: "free_total bs \<le> span bs"
proof (induction bs)
  case (Cons b bs)
  then show ?case by (cases b) simp
qed simp

lemma free_bytes_seg:
  assumes "seg m a pv bs 0" "0 < a"
  shows "free_bytes_from m (if bs = [] then 0 else a) acc = Some (acc + of_nat (free_total bs))"
  using assms
proof (induction bs arbitrary: a pv acc)
  case Nil
  then show ?case by (simp add: free_bytes_from.simps)
next
  case (Cons c cs)
  obtain n f where c: "c = (n, f)" by (cases c)
  have h: "hdr m a n f pv (if cs = [] then 0 else a + 32 + n)" "seg m (a + 32 + n) a cs 0"
    using Cons.prems(1) by (simp_all add: c split: if_splits)
  have "blk_next m a = (if cs = [] then 0 else a + 32 + n)" "blk_size m a = of_nat n"
    "(blk_free m a \<noteq> 0) = f"
    using h(1) by (auto simp: hdr_def)
  then show ?case
    using Cons.IH [OF h(2)] Cons.prems(2)
    by (subst free_bytes_from.simps, cases f) (simp_all add: c add.assoc split del: if_split)
qed

lemma count_blocks_seg:
  assumes "seg m a pv bs 0" "0 < a"
  shows "count_blocks_from m (if bs = [] then 0 else a) i = Some (i + length bs)"
  using assms
proof (induction bs arbitrary: a pv i)
  case Nil
  then show ?case by (simp add: count_blocks_from.simps)
next
  case (Cons c cs)
  obtain n f where c: "c = (n, f)" by (cases c)
  have h: "hdr m a n f pv (if cs = [] then 0 else a + 32 + n)" "seg m (a + 32 + n) a cs 0"
    using Cons.prems(1) by (simp_all add: c split: if_splits)
  have "blk_next m a = (if cs = [] then 0 else a + 32 + n)"
    using h(1) by (simp only: hdr_def)
  then show ?case
    using Cons.IH [OF h(2)] Cons.prems(2)
    by (subst count_blocks_from.simps) (simp add: c split del: if_split cong: if_cong)
qed

section \<open>The invariant and the operations\<close>

definition heap_ok :: "'a heap_scheme \<Rightarrow> blocks \<Rightarrow> bool" where
  "heap_ok s bs \<longleftrightarrow> bs \<noteq> [] \<and> heap_list s = heap_arena s \<and> 0 < heap_arena s \<and>
     heap_arena s + HEAP_SIZE + 32 < 2 ^ 64 \<and> span bs = HEAP_SIZE \<and>
     seg (mem s) (heap_arena s) 0 bs 0"

text \<open>No two neighbouring free blocks.\<close>

fun coalesced :: "blocks \<Rightarrow> bool" where
  "coalesced [] = True"
| "coalesced [_] = True"
| "coalesced ((_, f) # (n, g) # bs) \<longleftrightarrow> \<not> (f \<and> g) \<and> coalesced ((n, g) # bs)"

definition ends_free :: "blocks \<Rightarrow> bool" where "ends_free bs \<longleftrightarrow> bs \<noteq> [] \<and> snd (last bs)"
definition starts_free :: "blocks \<Rightarrow> bool" where "starts_free bs \<longleftrightarrow> bs \<noteq> [] \<and> snd (hd bs)"

lemma coalesced_append:
  "coalesced (xs @ ys) \<longleftrightarrow> coalesced xs \<and> coalesced ys \<and> \<not> (ends_free xs \<and> starts_free ys)"
proof (induction xs rule: coalesced.induct)
  case (2 v)
  obtain n f where "v = (n, f)" by (cases v)
  then show ?case by (cases ys) (auto simp: ends_free_def starts_free_def)
qed (auto simp: ends_free_def)

text \<open>The abstract operations.\<close>

definition free_in :: "blocks \<Rightarrow> nat \<Rightarrow> blocks \<Rightarrow> blocks" where
  "free_in xs n ys =
     (if ends_free xs then butlast xs @ merge_next (fst (last xs)) (merge_next n ys)
      else xs @ merge_next n ys)"

lemma heap_init_ok:
  assumes "0 < heap_arena s" "heap_arena s + HEAP_SIZE + 32 < 2 ^ 64"
  shows "heap_ok (heap_init s) [(HEAP_SIZE - 32, True)]"
  using assms by (simp add: heap_ok_def heap_init_def hdr_def blk_defs mem_simps Let_def)

lemma align16_unat:
  assumes "unat sz \<le> 2 ^ 64 - 32"
  shows "unat (align16 sz) = (unat sz + 15) div 16 * 16"
  using assms unat_add_small [of sz 15] by (simp add: align16_def unat_and_not_15)

lemma align16_bounds:
  assumes "unat sz \<le> 2 ^ 64 - 32"
  shows "unat sz \<le> unat (align16 sz)" "unat (align16 sz + 4) = unat (align16 sz) + 4"
proof -
  show le: "unat sz \<le> unat (align16 sz)" by (simp add: align16_unat [OF assms])
  have "unat (align16 sz) \<le> unat sz + 15" by (simp add: align16_unat [OF assms])
  then show "unat (align16 sz + 4) = unat (align16 sz) + 4"
    using assms unat_add_small [of "align16 sz" 4] by simp
qed

lemma NKern_Lock_heap [frame_simps, simp]:
  "heap_list (NKern_Lock p s) = heap_list s" "heap_arena (NKern_Lock p s) = heap_arena s"
  using NKern_Lock_frame [of p s] by auto

lemma heap_okD:
  assumes "heap_ok s bs"
  shows "seg (mem s) (heap_arena s) 0 bs 0" "0 < heap_arena s" "bs \<noteq> []"
    "heap_list s = heap_arena s" "span bs = HEAP_SIZE"
    "heap_arena s + span bs + 32 < 2 ^ 64"
  using assms by (simp_all add: heap_ok_def)

lemma heap_ok_counts:
  assumes "heap_ok s bs"
  shows "heap_free_bytes s = Some (of_nat (free_total bs))"
    "count_blocks_from (mem s) (heap_list s) 0 = Some (length bs)"
  using free_bytes_seg [OF heap_okD(1,2) [OF assms], of 0]
    count_blocks_seg [OF heap_okD(1,2) [OF assms], of 0] heap_okD(3,4) [OF assms]
  by (simp_all add: heap_free_bytes_def)

lemma heap_ok_transfer:
  assumes "heap_ok s bs" "heap_list t = heap_list s" "heap_arena t = heap_arena s"
    "seg (mem t) (heap_arena s) 0 cs 0" "span cs = span bs" "cs \<noteq> []"
  shows "heap_ok t cs"
  using assms by (simp add: heap_ok_def)

lemma ends_freeE:
  assumes "ends_free xs"
  obtains ws k where "xs = ws @ [(k, True)]"
proof -
  obtain k f where "last xs = (k, f)" by (cases "last xs")
  then have "xs = butlast xs @ [(k, True)]"
    using assms append_butlast_last_id [of xs] by (simp add: ends_free_def)
  then show ?thesis by (rule that)
qed

lemma ends_free_snoc [simp]: "ends_free (xs @ [(k, f)]) = f"
  by (simp add: ends_free_def)

lemma free_in_snoc: "free_in (ws @ [(k, True)]) n ys = ws @ merge_next k (merge_next n ys)"
  by (simp add: free_in_def)

lemma span_free_in: "span (free_in xs n ys) = span xs + 32 + n + span ys"
proof (cases "ends_free xs")
  case True
  then obtain ws k where "xs = ws @ [(k, True)]" by (rule ends_freeE)
  then show ?thesis by (simp add: free_in_snoc)
qed (simp add: free_in_def)

lemma free_in_ne: "free_in xs n ys \<noteq> []"
  by (simp add: free_in_def)

text \<open>What \<open>kfree\<close> does to memory, without the lock.\<close>

definition release_block :: "nat \<Rightarrow> memory \<Rightarrow> memory" where
  "release_block b m =
     (let m = set_free b 1 m;
          m = write32 m (b + 32) 0;
          m = coalesce_forward b m
      in if blk_prev m b \<noteq> 0 \<and> blk_free m (blk_prev m b) \<noteq> 0
         then coalesce_forward (blk_prev m b) m else m)"

lemma release_mark:
  assumes "seg m a pv (xs @ (n, False) # ys) nx"
  defines "b \<equiv> a + span xs"
  defines "m' \<equiv> write32 (set_free b 1 m) (b + 32) 0"
  shows "seg m' a pv (xs @ (n, True) # ys) nx"
    and "\<And>x. x < b \<or> b + 32 + n \<le> x \<Longrightarrow> m' x = m x" "read32 m' (b + 32) = 0"
proof -
  have parts: "seg m a pv xs b" "hdr m b n False (last_addr a pv xs) (if ys = [] then nx else b + 32 + n)"
    "seg m (b + 32 + n) b ys nx"
    using seg_splitD [OF assms(1)] unfolding b_def by blast+
  have n: "4 \<le> n" using parts(2) by (simp add: hdr_def)
  show out: "m' x = m x" if "x < b \<or> b + 32 + n \<le> x" for x
    unfolding m'_def by (rule mark_outside [OF that n])
  show "read32 m' (b + 32) = 0" by (simp add: m'_def)
  have "hdr m' b n True (last_addr a pv xs) (if ys = [] then nx else b + 32 + n)"
    using hdr_mark [OF parts(2) n, of True 0] by (simp add: m'_def split del: if_split)
  moreover have "seg m' a pv xs b"
    using parts(1) seg_cong [of a xs m' m] out by (simp add: b_def)
  moreover have "seg m' (b + 32 + n) b ys nx"
    using parts(3) seg_cong [of "b + 32 + n" ys m' m] out by simp
  ultimately show "seg m' a pv (xs @ (n, True) # ys) nx"
    by (cases "ys = []") (simp_all add: seg_append b_def)
qed

lemma live_merge_next: "live a (merge_next n ys) = live (a + 32 + n) ys"
  by (cases "(n, ys)" rule: merge_next.cases) (auto simp: add.assoc)

lemma live_free_in: "live a (free_in xs n ys) = live a (xs @ (n, True) # ys)"
proof (cases "ends_free xs")
  case True
  then obtain ws k where "xs = ws @ [(k, True)]" by (rule ends_freeE)
  then show ?thesis by (simp add: free_in_snoc live_append live_merge_next add.assoc)
qed (simp add: free_in_def live_append live_merge_next)

text \<open>The backward merge of \<open>kfree\<close>, after the forward one.\<close>

lemma release_prev:
  assumes seg: "seg m a 0 (xs @ (j, True) # zs) 0"
    and bnd: "0 < a" "a + span (xs @ (j, True) # zs) + 32 < 2 ^ 64"
  defines "q \<equiv> last_addr a 0 xs" and "b \<equiv> a + span xs"
  defines "m' \<equiv> (if q \<noteq> 0 \<and> blk_free m q \<noteq> 0 then coalesce_forward q m else m)"
  shows "seg m' a 0 (if ends_free xs then butlast xs @ merge_next (fst (last xs)) ((j, True) # zs)
        else xs @ (j, True) # zs) 0"
    and "\<And>x. x \<in> live a (xs @ (j, True) # zs) \<Longrightarrow> m' x = m x"
    and "\<And>x. b + 32 \<le> x \<Longrightarrow> x < b + 32 + j \<Longrightarrow> m' x = m x"
proof -
  consider (first) "xs = []" | (taken) ws k where "xs = ws @ [(k, False)]"
    | (free) ws k where "xs = ws @ [(k, True)]"
    by (metis (full_types) append_butlast_last_id surj_pair)
  then have "seg m' a 0 (if ends_free xs then butlast xs @ merge_next (fst (last xs)) ((j, True) # zs)
        else xs @ (j, True) # zs) 0 \<and> (\<forall>x \<in> live a (xs @ (j, True) # zs). m' x = m x) \<and>
      (\<forall>x. b + 32 \<le> x \<and> x < b + 32 + j \<longrightarrow> m' x = m x)"
  proof cases
    case first
    then show ?thesis using seg by (simp add: m'_def q_def ends_free_def)
  next
    case (taken ws k)
    then have "blk_free m q = 0"
      using seg_splitD(2) [of m a 0 ws k False "(j, True) # zs"] seg
      by (simp add: hdr_def q_def last_addr_snoc)
    then show ?thesis using taken seg by (simp add: m'_def)
  next
    case (free ws k)
    then have seg': "seg m a 0 (ws @ (k, True) # (j, True) # zs) 0" using seg by simp
    have q: "q = a + span ws" using free by (simp add: q_def last_addr_snoc)
    then have m': "m' = coalesce_forward (a + span ws) m"
      using seg_splitD(2) [OF seg'] bnd(1) by (simp add: m'_def hdr_def)
    have bnd': "a + span (ws @ (k, True) # (j, True) # zs) + 32 < 2 ^ 64" using bnd(2) free by simp
    note c = coalesce_seg [OF seg' bnd(1) bnd', folded m']
    have "m' x = m x" if "x \<in> live a (xs @ (j, True) # zs)" for x
      using that c(2,3) [of x] live_bounds [of x a ws] by (auto simp: free live_append add.assoc)
    then show ?thesis using c(1,4) free by (auto simp: b_def)
  qed
  then show "seg m' a 0 (if ends_free xs then butlast xs @ merge_next (fst (last xs)) ((j, True) # zs)
        else xs @ (j, True) # zs) 0"
    and "\<And>x. x \<in> live a (xs @ (j, True) # zs) \<Longrightarrow> m' x = m x"
    and "\<And>x. b + 32 \<le> x \<Longrightarrow> x < b + 32 + j \<Longrightarrow> m' x = m x"
    by blast+
qed

lemma merge_nextE:
  obtains j zs where "merge_next n ys = (j, True) # zs" "n \<le> j"
  by (cases "(n, ys)" rule: merge_next.cases) auto

lemma release_block_seg:
  assumes seg: "seg m a 0 (xs @ (n, False) # ys) 0"
    and bnd: "0 < a" "a + span (xs @ (n, False) # ys) + 32 < 2 ^ 64"
  defines "b \<equiv> a + span xs"
  defines "m' \<equiv> release_block b m"
  shows "seg m' a 0 (free_in xs n ys) 0"
    and "\<And>x. x \<in> live a (xs @ (n, True) # ys) \<Longrightarrow> m' x = m x"
    and "read32 m' (b + 32) = 0"
proof -
  define m1 where "m1 = write32 (set_free b 1 m) (b + 32) 0"
  define m2 where "m2 = coalesce_forward b m1"
  obtain j zs where mn: "merge_next n ys = (j, True) # zs" and jn: "n \<le> j" by (rule merge_nextE)
  have n4: "4 \<le> n" using seg_splitD(2) [OF seg] by (simp add: hdr_def)
  have bnd1: "a + span (xs @ (n, True) # ys) + 32 < 2 ^ 64"
    and bnd2: "a + span (xs @ (j, True) # zs) + 32 < 2 ^ 64"
    using bnd(2) span_merge_next [of n ys] mn by simp_all
  note r1 = release_mark [OF seg, folded b_def, folded m1_def]
  note r2 = coalesce_seg [OF r1(1) bnd(1) bnd1, folded b_def, folded m2_def, unfolded mn]
  note r3 = release_prev [OF r2(1) bnd(1) bnd2, folded b_def]
  have "blk_prev m2 b = last_addr a 0 xs"
    using seg_splitD(2) [OF r2(1)] by (simp add: hdr_def b_def)
  then have m': "m' = (if last_addr a 0 xs \<noteq> 0 \<and> blk_free m2 (last_addr a 0 xs) \<noteq> 0
      then coalesce_forward (last_addr a 0 xs) m2 else m2)"
    unfolding m'_def release_block_def
    by (simp add: Let_def m1_def [symmetric] m2_def [symmetric])
  show "seg m' a 0 (free_in xs n ys) 0" using r3(1) unfolding m' free_in_def mn .
  have live: "live a (xs @ (j, True) # zs) = live a (xs @ (n, True) # ys)"
    using live_merge_next [of "a + span xs" n ys] by (simp add: live_append mn)
  show "m' x = m x" if x: "x \<in> live a (xs @ (n, True) # ys)" for x
  proof -
    have "x < b \<or> b + 32 + n \<le> x"
      using x live_bounds [of x a xs] live_bounds [of x "b + 32 + n" ys] by (auto simp: live_append b_def)
    then have "m1 x = m x" by (rule r1(2))
    moreover have "m2 x = m1 x"
      using x r2(2,3) [of x] live_bounds [of x a xs] by (auto simp: live_append b_def)
    ultimately show ?thesis using r3(2) [of x] x by (simp add: m' live split del: if_split)
  qed
  have "read32 m' (b + 32) = read32 m2 (b + 32)"
    using r3(3) n4 jn by (intro read32_cong) (simp add: m' split del: if_split)
  also have "\<dots> = read32 m1 (b + 32)" using r2(4) n4 jn by (intro read32_cong) simp
  finally show "read32 m' (b + 32) = 0" using r1(3) by simp
qed


lemma release_block_outside:
  assumes seg: "seg m a 0 (xs @ (n, False) # ys) 0"
    and bnd: "0 < a" "a + span (xs @ (n, False) # ys) + 32 < 2 ^ 64" and x: "x < a \<or> a + span (xs @ (n, False) # ys) \<le> x"
  shows "release_block (a + span xs) m x = m x"
proof -
  define b where "b = a + span xs"
  define m1 where "m1 = write32 (set_free b 1 m) (b + 32) 0"
  define m2 where "m2 = coalesce_forward b m1"
  obtain j zs where mn: "merge_next n ys = (j, True) # zs" by (rule merge_nextE)
  have bnd1: "a + span (xs @ (n, True) # ys) + 32 < 2 ^ 64" using bnd(2) by simp
  have sp: "span (xs @ (j, True) # zs) = span (xs @ (n, False) # ys)" using span_merge_next [of n ys] mn by simp
  note r1 = release_mark [OF seg, folded b_def, folded m1_def]
  note r2 = coalesce_seg [OF r1(1) bnd(1) bnd1, folded b_def, folded m2_def, unfolded mn]
  have prev: "blk_prev m2 b = last_addr a 0 xs" using seg_splitD(2) [OF r2(1)] by (simp add: hdr_def b_def)
  have "m1 x = m x" by (rule r1(2)) (use x in \<open>auto simp: b_def\<close>)
  moreover have "m2 x = m1 x" unfolding m2_def b_def by (rule coalesce_outside [OF r1(1) bnd1]) (use x in auto)
  moreover have "release_block b m x = m2 x"
  proof (cases "last_addr a 0 xs \<noteq> 0 \<and> blk_free m2 (last_addr a 0 xs) \<noteq> 0")
    case False
    then show ?thesis by (auto simp: release_block_def Let_def m1_def [symmetric] m2_def [symmetric] prev)
  next
    case True
    then obtain ws k f where xs: "xs = ws @ [(k, f)]" by (cases xs rule: rev_cases) auto
    have seg2: "seg m2 a 0 (ws @ (k, f) # (j, True) # zs) 0" using r2(1) by (simp add: xs)
    have q: "last_addr a 0 xs = a + span ws" by (simp add: xs last_addr_snoc)
    have f: "f" using seg_splitD(2) [OF seg2] True by (cases f) (simp_all add: hdr_def q)
    have "coalesce_forward (a + span ws) m2 x = m2 x"
      by (rule coalesce_outside [OF seg2 [simplified f]]) (use sp bnd(2) x in \<open>auto simp: xs\<close>)
    then show ?thesis using True by (simp add: release_block_def Let_def m1_def [symmetric] m2_def [symmetric] prev q)
  qed
  ultimately show ?thesis by (simp add: b_def)
qed

section \<open>Allocation and release on the block list\<close>

lemma coalesced_single [simp]: "coalesced [x]"
  by (cases x) simp

lemma starts_free_simps [simp]: "starts_free ((n, f) # bs) = f" "\<not> starts_free []"
  by (simp_all add: starts_free_def)

lemma ends_free_Nil [simp]: "\<not> ends_free []"
  by (simp add: ends_free_def)

lemma coalesced_Cons: "coalesced ((n, f) # bs) \<longleftrightarrow> coalesced bs \<and> \<not> (f \<and> starts_free bs)"
  using coalesced_append [of "[(n, f)]" bs] by (simp add: ends_free_def)

lemma ends_free_Cons: "ends_free ((n, f) # bs) = (if bs = [] then f else ends_free bs)"
  by (simp add: ends_free_def)

lemma coalesced_alloc:
  assumes "coalesced (xs @ (n, True) # ys)"
  shows "coalesced (xs @ carve k n @ ys)"
  using assms by (auto simp: carve_def coalesced_append coalesced_Cons)

lemma coalesced_merge_next:
  assumes "coalesced ys"
  shows "coalesced (merge_next n ys)"
  using assms by (cases "(n, ys)" rule: merge_next.cases) (auto simp: coalesced_Cons)

lemma coalesced_free_in:
  assumes "coalesced (xs @ (n, False) # ys)"
  shows "coalesced (free_in xs n ys)"
proof (cases "ends_free xs")
  case True
  then obtain ws k where xs: "xs = ws @ [(k, True)]" by (rule ends_freeE)
  have starts: "starts_free (merge_next i zs)" for i zs
    by (cases "(i, zs)" rule: merge_next.cases) auto
  have "coalesced (merge_next k (merge_next n ys))" "coalesced ws" "\<not> ends_free ws"
    using assms by (auto simp: xs coalesced_append coalesced_Cons intro: coalesced_merge_next)
  then show ?thesis by (simp add: xs free_in_snoc coalesced_append)
next
  case False
  then show ?thesis
    using assms by (simp add: free_in_def coalesced_append coalesced_Cons coalesced_merge_next)
qed

lemma coalesced_all_free:
  assumes "coalesced bs" "bs \<noteq> []" "\<forall>(n, f) \<in> set bs. f"
  shows "bs = [(span bs - 32, True)]"
  using assms by (cases bs rule: coalesced.cases) auto

text \<open>Freeing what was just allocated gives back the block list.\<close>

lemma carveE:
  assumes "k \<le> n" "4 \<le> k"
  obtains j r where "carve k n = (j, False) # r" "k \<le> j" "j \<le> n"
    "\<And>ys. \<not> starts_free ys \<Longrightarrow> merge_next j (r @ ys) = (n, True) # ys"
proof (cases "n - k \<le> 48")
  case True
  have "merge_next n ys = (n, True) # ys" if "\<not> starts_free ys" for ys
    using that by (cases "(n, ys)" rule: merge_next.cases) auto
  then show ?thesis using that [of n "[]"] True assms by (simp add: carve_def)
next
  case False
  then show ?thesis using that [of k "[(n - k - 32, True)]"] assms by (simp add: carve_def)
qed

lemma free_carve:
  assumes "coalesced (xs @ (n, True) # ys)" "carve k n = (j, False) # r" "k \<le> n" "4 \<le> k"
  shows "free_in xs j (r @ ys) = xs @ (n, True) # ys"
proof -
  have "\<not> starts_free ys" "\<not> ends_free xs"
    using assms(1) by (auto simp: coalesced_append coalesced_Cons)
  then show ?thesis
    using carveE [OF assms(3,4)] assms(2) by (metis free_in_def list.inject prod.inject)
qed

text \<open>The client pointers of the taken blocks, with the bytes behind each.\<close>

fun taken_in :: "nat \<Rightarrow> blocks \<Rightarrow> (nat \<times> nat) set" where
  "taken_in a [] = {}"
| "taken_in a ((n, f) # bs) = (if f then {} else {(a + 36, n - 4)}) \<union> taken_in (a + 32 + n) bs"

lemma taken_append: "taken_in a (xs @ ys) = taken_in a xs \<union> taken_in (a + span xs) ys"
  by (induction xs arbitrary: a) (auto simp: add.assoc)

lemma taken_bounds:
  "(q, k) \<in> taken_in a bs \<Longrightarrow> \<forall>(n, f) \<in> set bs. f \<or> 4 \<le> n \<Longrightarrow> a + 36 \<le> q \<and> q + k \<le> a + span bs"
proof (induction bs arbitrary: a)
  case (Cons b bs)
  obtain n f where "b = (n, f)" by (cases b)
  then show ?case using Cons.prems Cons.IH [of "a + 32 + n"] by (auto split: if_splits)
qed simp

lemma taken_merge_next: "taken_in a (merge_next n ys) = taken_in (a + 32 + n) ys"
  by (cases "(n, ys)" rule: merge_next.cases) (auto simp: add.assoc)

lemma taken_free_in: "taken_in a (free_in xs n ys) = taken_in a (xs @ (n, True) # ys)"
proof (cases "ends_free xs")
  case True
  then obtain ws k where "xs = ws @ [(k, True)]" by (rule ends_freeE)
  then show ?thesis by (simp add: free_in_snoc taken_append taken_merge_next add.assoc)
qed (simp add: free_in_def taken_append taken_merge_next)

lemma taken_live: "(q, k) \<in> taken_in a bs \<Longrightarrow> {q..<q + k} \<subseteq> live a bs"
proof (induction bs arbitrary: a)
  case (Cons b bs)
  obtain n f where "b = (n, f)" by (cases b)
  then show ?case using Cons.prems Cons.IH [of "a + 32 + n"] by (auto split: if_splits)
qed simp

lemma taken_splitE:
  assumes "(q, k) \<in> taken_in a bs"
  obtains xs n ys where "bs = xs @ (n, False) # ys" "q = a + span xs + 36" "k = n - 4"
  using assms
proof (induction bs arbitrary: a thesis)
  case (Cons b bs)
  obtain n f where b: "b = (n, f)" by (cases b)
  show ?case
  proof (cases "(q, k) \<in> taken_in (a + 32 + n) bs")
    case True
    then obtain xs i ys where "bs = xs @ (i, False) # ys" "q = a + 32 + n + span xs + 36" "k = i - 4"
      using Cons.IH by blast
    then show ?thesis using Cons.prems(1) [of "b # xs" i ys] b by simp
  next
    case False
    then show ?thesis using Cons.prems(1) [of "[]" n bs] Cons.prems(2) b by (auto split: if_splits)
  qed
qed simp

lemma taken_disjoint:
  assumes "(q, k) \<in> taken_in a bs" "(r, l) \<in> taken_in a bs" "q \<noteq> r"
    "\<forall>(n, f) \<in> set bs. f \<or> 4 \<le> n"
  shows "{q..<q + k} \<inter> {r..<r + l} = {}"
  using assms
proof (induction bs arbitrary: a)
  case (Cons b bs)
  obtain n f where b: "b = (n, f)" by (cases b)
  have sizes: "\<forall>(n, f) \<in> set bs. f \<or> 4 \<le> n" using Cons.prems(4) by simp
  have far: "a + 32 + n + 36 \<le> x" if "(x, i) \<in> taken_in (a + 32 + n) bs" for x i
    using taken_bounds [OF that sizes] by simp
  show ?case
    using Cons.prems Cons.IH [OF _ _ Cons.prems(3) sizes] far [of q k] far [of r l]
    by (auto simp: b split: if_splits)
qed simp

lemma seg_sizes: "seg m a pv bs nx \<Longrightarrow> \<forall>(n, f) \<in> set bs. f \<or> 4 \<le> n"
proof (induction bs arbitrary: a pv)
  case (Cons b bs)
  obtain n f where b: "b = (n, f)" by (cases b)
  show ?case using Cons.prems Cons.IH [of "a + 32 + n" a] by (auto simp: b hdr_def)
qed simp

lemma seg_payload:
  assumes "seg m a pv bs nx" "\<And>x. a \<le> x \<Longrightarrow> x < a + span bs \<Longrightarrow> x \<notin> live a bs \<Longrightarrow> m' x = m x"
  shows "seg m' a pv bs nx"
  using assms
proof (induction bs arbitrary: a pv)
  case (Cons b bs)
  obtain n f where b: "b = (n, f)" by (cases b)
  have out: "m' x = m x" if "a \<le> x" "x < a + 36" "x < a + 32 + n" for x
  proof (rule Cons.prems(2))
    show "x \<notin> live a (b # bs)" using that live_bounds [of x "a + 32 + n" bs] by (auto simp: b)
  qed (use that in \<open>simp_all add: b\<close>)
  have "hdr m a n f pv (if bs = [] then nx else a + 32 + n)" using Cons.prems(1) by (simp add: b)
  moreover have "read64 m' a = read64 m a" "read32 m' (a + 8) = read32 m (a + 8)"
    "read64 m' (a + 16) = read64 m (a + 16)" "read64 m' (a + 24) = read64 m (a + 24)"
    by (auto intro!: read64_cong read32_cong out)
  moreover have "\<not> f \<Longrightarrow> 4 \<le> n \<Longrightarrow> read32 m' (a + 32) = read32 m (a + 32)"
    by (intro read32_cong out) auto
  ultimately have "hdr m' a n f pv (if bs = [] then nx else a + 32 + n)"
    by (auto simp: hdr_def blk_defs)
  moreover have "seg m' (a + 32 + n) a bs nx"
  proof (rule Cons.IH)
    show "seg m (a + 32 + n) a bs nx" using Cons.prems(1) by (simp add: b)
    show "m' x = m x" if "a + 32 + n \<le> x" "x < a + 32 + n + span bs" "x \<notin> live (a + 32 + n) bs" for x
      using that by (intro Cons.prems(2)) (auto simp: b)
  qed
  ultimately show ?case by (simp add: b)
qed simp

section \<open>Clients of the heap\<close>

text \<open>
  A run of clients on a freshly initialised heap: \<open>A\<close> maps each outstanding pointer to the size it
  was asked for. Clients allocate, free what they own, and write to what they own; the rest
  of the kernel writes anywhere outside the arena.
\<close>

inductive heap_client ::
    "(nat \<Rightarrow> 'a heap_scheme \<Rightarrow> 'a heap_scheme) \<Rightarrow> 'a heap_scheme \<Rightarrow> (nat \<rightharpoonup> nat) \<Rightarrow> bool"
  for resched where
  client_init: "0 < heap_arena s \<Longrightarrow> heap_arena s + HEAP_SIZE + 32 < 2 ^ 64 \<Longrightarrow>
     heap_client resched (heap_init s) Map.empty"
| client_alloc: "heap_client resched s A \<Longrightarrow> sz \<noteq> 0 \<Longrightarrow> unat sz \<le> 2 ^ 64 - 32 \<Longrightarrow>
     kmalloc (resched p) p sz s = Some (Inr (q, s')) \<Longrightarrow> heap_client resched s' (A(q \<mapsto> unat sz))"
| client_free: "heap_client resched s A \<Longrightarrow> A q = Some k \<Longrightarrow>
     kfree (resched p) p q s = Inr ((), s') \<Longrightarrow> heap_client resched s' (A(q := None))"
| client_write: "heap_client resched s A \<Longrightarrow> heap_arena t = heap_arena s \<Longrightarrow> heap_list t = heap_list s \<Longrightarrow>
     (\<And>x. heap_arena s \<le> x \<Longrightarrow> x < heap_arena s + HEAP_SIZE \<Longrightarrow>
        (\<And>q k. A q = Some k \<Longrightarrow> x \<notin> {q..<q + k}) \<Longrightarrow> mem t x = mem s x) \<Longrightarrow>
     heap_client resched t A"

definition owned :: "nat \<Rightarrow> blocks \<Rightarrow> (nat \<rightharpoonup> nat) \<Rightarrow> bool" where
  "owned a bs A \<longleftrightarrow> fst ` taken_in a bs = dom A \<and>
     (\<forall>q k l. A q = Some k \<longrightarrow> (q, l) \<in> taken_in a bs \<longrightarrow> k \<le> l)"

lemma owned_taken:
  assumes "owned a bs A" "A q = Some k"
  obtains l where "(q, l) \<in> taken_in a bs" "k \<le> l"
proof -
  have "q \<in> fst ` taken_in a bs" using assms by (auto simp: owned_def)
  then obtain l where "(q, l) \<in> taken_in a bs" by auto
  then show ?thesis using that assms by (auto simp: owned_def)
qed

lemma owned_live:
  assumes "owned a bs A" "A q = Some k"
  shows "{q..<q + k} \<subseteq> live a bs"
proof -
  obtain l where l: "(q, l) \<in> taken_in a bs" "k \<le> l" using owned_taken [OF assms] .
  have "{q..<q + k} \<subseteq> {q..<q + l}" using l(2) by auto
  also have "\<dots> \<subseteq> live a bs" by (rule taken_live [OF l(1)])
  finally show ?thesis .
qed

lemma taken_unique:
  assumes "\<forall>(n, f) \<in> set (xs @ (n, True) # ys). f \<or> 4 \<le> n"
  shows "(a + span xs + 36, l) \<notin> taken_in a (xs @ (n, True) # ys)"
proof
  assume "(a + span xs + 36, l) \<in> taken_in a (xs @ (n, True) # ys)"
  then consider "(a + span xs + 36, l) \<in> taken_in a xs"
    | "(a + span xs + 36, l) \<in> taken_in (a + span xs + 32 + n) ys"
    by (auto simp: taken_append)
  then show False
    using taken_bounds [of "a + span xs + 36" l a xs]
      taken_bounds [of "a + span xs + 36" l "a + span xs + 32 + n" ys] assms
    by cases auto
qed

lemma owned_alloc:
  assumes own: "owned a (xs @ (n, True) # ys) A" and k: "k \<le> j - 4" "carve c n = (j, False) # r"
    and sizes: "\<forall>(n, f) \<in> set (xs @ (n, True) # ys). f \<or> 4 \<le> n" and c: "c \<le> n" "4 \<le> c"
  shows "owned a (xs @ carve c n @ ys) (A(a + span xs + 36 \<mapsto> k))"
proof -
  have "taken_in (a + span xs) (carve c n @ ys) =
      insert (a + span xs + 36, j - 4) (taken_in (a + span xs + 32 + n) ys)"
    using k c by (auto simp: carve_def add.assoc split: if_splits)
  then have t: "taken_in a (xs @ carve c n @ ys) =
      insert (a + span xs + 36, j - 4) (taken_in a (xs @ (n, True) # ys))"
    by (auto simp: taken_append)
  note new = taken_unique [OF sizes, of a]
  have "fst ` taken_in a (xs @ carve c n @ ys) = dom (A(a + span xs + 36 \<mapsto> k))"
    using own by (simp add: t owned_def)
  moreover have "i \<le> l" if "(A(a + span xs + 36 \<mapsto> k)) q = Some i"
      "(q, l) \<in> taken_in a (xs @ carve c n @ ys)" for q i l
    using that(1) that(2) [unfolded t] own new [of l] k(1) by (auto simp: owned_def split: if_splits)
  ultimately show ?thesis unfolding owned_def by blast
qed

lemma owned_free:
  assumes own: "owned a (xs @ (n, False) # ys) A"
    and sizes: "\<forall>(n, f) \<in> set (xs @ (n, False) # ys). f \<or> 4 \<le> n"
  shows "owned a (free_in xs n ys) (A(a + span xs + 36 := None))"
proof -
  have t: "taken_in a (xs @ (n, False) # ys) =
      insert (a + span xs + 36, n - 4) (taken_in a (xs @ (n, True) # ys))"
    by (auto simp: taken_append)
  have "\<forall>(n, f) \<in> set (xs @ (n, True) # ys). f \<or> 4 \<le> n" using sizes by auto
  note new = taken_unique [OF this, of a]
  have "a + span xs + 36 \<notin> fst ` taken_in a (xs @ (n, True) # ys)" using new by force
  then have "fst ` taken_in a (free_in xs n ys) = dom (A(a + span xs + 36 := None))"
    using own unfolding t owned_def taken_free_in by (simp add: insert_ident) blast
  moreover have "i \<le> l" if "(A(a + span xs + 36 := None)) q = Some i"
      "(q, l) \<in> taken_in a (free_in xs n ys)" for q i l
    using that own by (auto simp: t owned_def taken_free_in split: if_splits)
  ultimately show ?thesis unfolding owned_def by blast
qed

section \<open>The interface to the scheduler, and the operations as a whole\<close>

text \<open>
  \<open>NKern_Unlock\<close> may call the scheduler; the heap relies on that call leaving the arena and the
  two variables of \<open>heap.c\<close> alone.
\<close>

locale heap_scheduler =
  fixes resched :: "nat \<Rightarrow> 'a heap_scheme \<Rightarrow> 'a heap_scheme"
  assumes resched_mem: "mem (resched p s) = mem s"
    and resched_arena: "heap_arena (resched p s) = heap_arena s"
    and resched_list: "heap_list (resched p s) = heap_list s"
begin

lemma unlock_heap [simp]:
  "mem (NKern_Unlock (resched p) p s) = mem s"
  "heap_arena (NKern_Unlock (resched p) p s) = heap_arena s"
  "heap_list (NKern_Unlock (resched p) p s) = heap_list s"
  by (simp_all add: NKern_Unlock_def count_down_def spin_release_def sti_def Let_def resched_mem
      resched_arena resched_list)

lemma kmalloc_fits:
  assumes ok: "heap_ok s bs" and sz: "sz \<noteq> 0" "unat sz \<le> 2 ^ 64 - 32"
    and fit: "first_fit (unat (align16 sz) + 4) (heap_arena s) bs = Some b"
  obtains xs n ys s' where "bs = xs @ (n, True) # ys" "b = heap_arena s + span xs"
    "unat (align16 sz) + 4 \<le> n"
    "\<forall>(n, f) \<in> set xs. \<not> (f \<and> unat (align16 sz) + 4 \<le> n)"
    "kmalloc (resched p) p sz s = Some (Inr (b + 36, s'))"
    "heap_ok s' (xs @ carve (unat (align16 sz) + 4) n @ ys)" "heap_arena s' = heap_arena s"
    "\<forall>x \<in> live (heap_arena s) bs. mem s' x = mem s x"
proof -
  let ?k = "unat (align16 sz) + 4"
  let ?a = "heap_arena s"
  obtain xs n ys where bs: "bs = xs @ (n, True) # ys" and b: "b = ?a + span xs" and n: "?k \<le> n"
    and first: "\<forall>(n, f) \<in> set xs. \<not> (f \<and> ?k \<le> n)"
    by (rule first_fit_SomeE [OF fit])
  note h = heap_okD [OF ok]
  have k: "unat (align16 sz + 4) = ?k" by (rule align16_bounds(2) [OF sz(2)])
  define m' where
    "m' = write32 (set_free b 0 (split_block b (align16 sz + 4) (mem s))) (b + 32) BLOCK_MAGIC"
  define s' where "s' = NKern_Unlock (resched p) p (mem_update (\<lambda>_. m') (NKern_Lock p s))"
  note e = alloc_seg [OF h(1) [unfolded bs] k _ n h(2) h(6) [unfolded bs], folded b, folded m'_def]
  have "find_free_block (mem s) ?a (align16 sz + 4) = Some b"
    using find_free_seg [OF h(1,2), of "align16 sz + 4"] h(3) k fit by simp
  moreover have "b \<noteq> 0" using h(2) b by simp
  ultimately have run: "kmalloc (resched p) p sz s = Some (Inr (b + 36, s'))"
    using sz(1) h(4) by (simp add: kmalloc_def Let_def s'_def m'_def)
  have mem': "mem s' = m'" by (simp add: s'_def)
  have ok': "heap_ok s' (xs @ carve ?k n @ ys)"
    by (rule heap_ok_transfer [OF ok]) (use e(1) n bs in \<open>simp_all add: s'_def\<close>)
  have "mem s' x = mem s x" if "x \<in> live ?a bs" for x
    using that e(2) [of x] live_bounds [of x ?a xs] live_bounds [of x "b + 32 + n" ys]
    by (auto simp: mem' bs live_append b)
  then show ?thesis
    using that [OF bs b n first run ok'] by (simp add: s'_def)
qed

lemma kmalloc_full:
  assumes "heap_ok s bs" "sz \<noteq> 0" "unat sz \<le> 2 ^ 64 - 32"
    "first_fit (unat (align16 sz) + 4) (heap_arena s) bs = None"
  shows "\<exists>t. kmalloc (resched p) p sz s = Some (Inl (Panic ''HEAP'' PANIC_HEAP_OOM t))"
proof -
  note h = heap_okD [OF assms(1)]
  have "find_free_block (mem s) (heap_arena s) (align16 sz + 4) = Some 0"
    using find_free_seg [OF h(1,2), of "align16 sz + 4"] h(3) assms(4)
    by (simp add: align16_bounds(2) [OF assms(3)])
  then show ?thesis using assms(2) h(4) by (simp add: kmalloc_def neka_panic_def Let_def)
qed

lemma kfree_taken:
  assumes ok: "heap_ok s (xs @ (n, False) # ys)"
  obtains s' where "kfree (resched p) p (heap_arena s + span xs + 36) s = Inr ((), s')"
    "heap_ok s' (free_in xs n ys)" "heap_arena s' = heap_arena s"
    "\<forall>x \<in> live (heap_arena s) (xs @ (n, True) # ys). mem s' x = mem s x"
    "read32 (mem s') (heap_arena s + span xs + 32) = 0"
    "\<And>x. x < heap_arena s \<or> heap_arena s + HEAP_SIZE \<le> x \<Longrightarrow> mem s' x = mem s x"
proof -
  let ?a = "heap_arena s"
  let ?b = "?a + span xs"
  note h = heap_okD [OF ok]
  note e = release_block_seg [OF h(1,2,6)] release_block_outside [OF h(1,2,6), unfolded h(5)]
  define s' where "s' = NKern_Unlock (resched p) p (mem_update (\<lambda>_. release_block ?b (mem s)) (NKern_Lock p s))"
  have magic: "read32 (mem s) (?b + 32) = BLOCK_MAGIC"
    using seg_splitD(2) [OF h(1)] by (simp add: hdr_def)
  have run: "kfree (resched p) p (?b + 36) s = Inr ((), s')"
    using magic by (simp add: kfree_def Let_def s'_def release_block_def add.commute [of 32])
  have ok': "heap_ok s' (free_in xs n ys)"
    by (rule heap_ok_transfer [OF ok]) (use e(1) in \<open>simp_all add: s'_def span_free_in free_in_ne\<close>)
  have "mem s' = release_block ?b (mem s)" by (simp add: s'_def)
  then show ?thesis using that [OF run ok'] e(2-4) by (simp add: s'_def)
qed

lemma kfree_corrupt:
  assumes "ptr \<noteq> 0" "read32 (mem s) (ptr - 4) \<noteq> BLOCK_MAGIC"
  shows "\<exists>t. kfree (resched p) p ptr s = Inl (Panic ''HEAP'' PANIC_HEAP_CORRUPT t)"
  using assms by (simp add: kfree_def Let_def neka_panic_def)

lemma client_inv:
  assumes "heap_client resched s A"
  shows "\<exists>bs. heap_ok s bs \<and> coalesced bs \<and> owned (heap_arena s) bs A"
  using assms
proof (induction rule: heap_client.induct)
  case (client_init s)
  have "heap_ok (heap_init s) [(HEAP_SIZE - 32, True)]" by (rule heap_init_ok) (use client_init in simp_all)
  moreover have "owned x [(HEAP_SIZE - 32, True)] Map.empty" for x by (simp add: owned_def)
  ultimately show ?case by (meson coalesced_single)
next
  case (client_alloc s A sz p q s')
  then obtain bs where bs: "heap_ok s bs" "coalesced bs" "owned (heap_arena s) bs A" by blast
  let ?k = "unat (align16 sz) + 4"
  have "first_fit ?k (heap_arena s) bs \<noteq> None"
    using kmalloc_full [OF bs(1) client_alloc.hyps(2,3), of p] client_alloc.hyps(4) by fastforce
  then obtain b where "first_fit ?k (heap_arena s) bs = Some b" by blast
  from kmalloc_fits [OF bs(1) client_alloc.hyps(2,3) this, of p] client_alloc.hyps(4)
  obtain xs n ys where 1: "bs = xs @ (n, True) # ys" "q = heap_arena s + span xs + 36" "?k \<le> n"
      "heap_ok s' (xs @ carve ?k n @ ys)" "heap_arena s' = heap_arena s"
    by (metis Pair_inject option.inject sum.inject(2))
  obtain j r where j: "carve ?k n = (j, False) # r" "?k \<le> j" by (rule carveE [OF 1(3)]) simp_all
  have "unat sz \<le> j - 4" using align16_bounds(1) [OF client_alloc.hyps(3)] j(2) by simp
  then have "owned (heap_arena s) (xs @ carve ?k n @ ys) (A(q \<mapsto> unat sz))"
    using owned_alloc [OF bs(3) [unfolded 1(1)] _ j(1) seg_sizes [OF heap_okD(1) [OF bs(1)], unfolded 1(1)] 1(3)]
    by (simp add: 1(2))
  moreover have "coalesced (xs @ carve ?k n @ ys)" using bs(2) 1(1) coalesced_alloc by blast
  ultimately show ?case using 1(4) unfolding 1(5) by blast
next
  case (client_free s A q k p s')
  then obtain bs where bs: "heap_ok s bs" "coalesced bs" "owned (heap_arena s) bs A" by blast
  obtain l where "(q, l) \<in> taken_in (heap_arena s) bs" using owned_taken [OF bs(3) client_free.hyps(2)] .
  then obtain xs n ys where 1: "bs = xs @ (n, False) # ys" "q = heap_arena s + span xs + 36"
    by (rule taken_splitE)
  have 2: "heap_ok s' (free_in xs n ys)" "heap_arena s' = heap_arena s"
    using kfree_taken [OF bs(1) [unfolded 1(1)], of p] 1(2) client_free.hyps(3)
    by (metis Pair_inject sum.inject(2))+
  have "coalesced (free_in xs n ys)" using bs(2) 1(1) coalesced_free_in by blast
  moreover have "owned (heap_arena s) (free_in xs n ys) (A(q := None))"
    using owned_free [OF bs(3) [unfolded 1(1)] seg_sizes [OF heap_okD(1) [OF bs(1)], unfolded 1(1)]] 1(2) by simp
  ultimately show ?case using 2(1) unfolding 2(2) by blast
next
  case (client_write s A t)
  then obtain bs where bs: "heap_ok s bs" "coalesced bs" "owned (heap_arena s) bs A" by blast
  note h = heap_okD [OF bs(1)]
  have "seg (mem t) (heap_arena s) 0 bs 0"
  proof (rule seg_payload [OF h(1)])
    fix x assume x: "heap_arena s \<le> x" "x < heap_arena s + span bs" "x \<notin> live (heap_arena s) bs"
    have "x \<notin> {q..<q + k}" if "A q = Some k" for q k
      using owned_live [OF bs(3) that] x(3) by blast
    then show "mem t x = mem s x" using x h(5) by (intro client_write.hyps(4)) auto
  qed
  then have "heap_ok t bs"
    using heap_ok_transfer [OF bs(1) client_write.hyps(3,2)] h(3) by blast
  then show ?case using bs client_write.hyps(2) by auto
qed

lemma client_regions:
  assumes "heap_client resched s A" "A q = Some k"
  shows "heap_arena s + 36 \<le> q \<and> q + k \<le> heap_arena s + HEAP_SIZE \<and>
    (\<forall>r l. A r = Some l \<longrightarrow> r \<noteq> q \<longrightarrow> {q..<q + k} \<inter> {r..<r + l} = {})"
proof -
  obtain bs where bs: "heap_ok s bs" "owned (heap_arena s) bs A" using client_inv [OF assms(1)] by blast
  note h = heap_okD [OF bs(1)]
  note sizes = seg_sizes [OF h(1)]
  obtain i where i: "(q, i) \<in> taken_in (heap_arena s) bs" "k \<le> i" using owned_taken [OF bs(2) assms(2)] .
  have "{q..<q + k} \<inter> {r..<r + l} = {}" if r: "A r = Some l" "r \<noteq> q" for r l
  proof -
    obtain j where j: "(r, j) \<in> taken_in (heap_arena s) bs" "l \<le> j" using owned_taken [OF bs(2) r(1)] .
    have "{q..<q + i} \<inter> {r..<r + j} = {}"
      using taken_disjoint [OF i(1) j(1) _ sizes] r(2) by simp
    moreover have "{q..<q + k} \<subseteq> {q..<q + i}" "{r..<r + l} \<subseteq> {r..<r + j}" using i(2) j(2) by auto
    ultimately show ?thesis by blast
  qed
  then show ?thesis using taken_bounds [OF i(1) sizes] i(2) h(5) by auto
qed

lemma client_free_ok:
  assumes "heap_client resched s A" "A q = Some k"
  obtains s' where "kfree (resched p) p q s = Inr ((), s')" "heap_client resched s' (A(q := None))"
    "\<And>r l x. A r = Some l \<Longrightarrow> r \<noteq> q \<Longrightarrow> x \<in> {r..<r + l} \<Longrightarrow> mem s' x = mem s x"
    "\<And>p'. \<exists>t. kfree (resched p') p' q s' = Inl (Panic ''HEAP'' PANIC_HEAP_CORRUPT t)"
proof -
  obtain bs where bs: "heap_ok s bs" "owned (heap_arena s) bs A" using client_inv [OF assms(1)] by blast
  obtain i where i: "(q, i) \<in> taken_in (heap_arena s) bs" using owned_taken [OF bs(2) assms(2)] .
  then obtain xs n ys where 1: "bs = xs @ (n, False) # ys" "q = heap_arena s + span xs + 36"
    by (rule taken_splitE)
  obtain s' where f: "kfree (resched p) p q s = Inr ((), s')"
      "\<forall>x \<in> live (heap_arena s) (xs @ (n, True) # ys). mem s' x = mem s x"
      "read32 (mem s') (heap_arena s + span xs + 32) = 0"
    using kfree_taken [OF bs(1) [unfolded 1(1)], of p] 1(2) by metis
  have "mem s' x = mem s x" if r: "A r = Some l" "r \<noteq> q" "x \<in> {r..<r + l}" for r l x
  proof -
    obtain j where j: "(r, j) \<in> taken_in (heap_arena s) bs" "l \<le> j" using owned_taken [OF bs(2) r(1)] .
    have "(r, j) \<in> taken_in (heap_arena s) (xs @ (n, True) # ys)"
      using j(1) r(2) 1 by (auto simp: taken_append)
    then have "{r..<r + j} \<subseteq> live (heap_arena s) (xs @ (n, True) # ys)" by (rule taken_live)
    moreover have "x \<in> {r..<r + j}" using r(3) j(2) by auto
    ultimately show ?thesis using f(2) by blast
  qed
  moreover have "\<exists>t. kfree (resched p') p' q s' = Inl (Panic ''HEAP'' PANIC_HEAP_CORRUPT t)" for p'
    by (rule kfree_corrupt) (use f(3) 1(2) in \<open>simp_all add: add.commute [of 32]\<close>)
  ultimately show ?thesis using that [OF f(1) client_free [OF assms f(1)]] by blast
qed

lemma client_alloc_total:
  assumes "heap_client resched s A" "sz \<noteq> 0" "unat sz \<le> 2 ^ 64 - 32"
  shows "(\<exists>q s'. kmalloc (resched p) p sz s = Some (Inr (q, s')) \<and> A q = None \<and>
        heap_client resched s' (A(q \<mapsto> unat sz)) \<and>
        (\<forall>r l. A r = Some l \<longrightarrow> (\<forall>x \<in> {r..<r + l}. mem s' x = mem s x))) \<or>
     (\<exists>t bs. kmalloc (resched p) p sz s = Some (Inl (Panic ''HEAP'' PANIC_HEAP_OOM t)) \<and>
        heap_ok s bs \<and> (\<forall>(n, f) \<in> set bs. f \<longrightarrow> n < unat (align16 sz) + 4))"
proof -
  obtain bs where bs: "heap_ok s bs" "owned (heap_arena s) bs A" using client_inv [OF assms(1)] by blast
  note sizes = seg_sizes [OF heap_okD(1) [OF bs(1)]]
  show ?thesis
  proof (cases "first_fit (unat (align16 sz) + 4) (heap_arena s) bs")
    case None
    then show ?thesis using kmalloc_full [OF bs(1) assms(2,3) None, of p] bs(1)
      by (fastforce simp: first_fit_None)
  next
    case (Some b)
    obtain xs n ys s' where 1: "bs = xs @ (n, True) # ys" "b = heap_arena s + span xs"
        "kmalloc (resched p) p sz s = Some (Inr (b + 36, s'))"
        "\<forall>x \<in> live (heap_arena s) bs. mem s' x = mem s x"
      by (rule kmalloc_fits [OF bs(1) assms(2,3) Some, of p]) blast
    have "b + 36 \<notin> fst ` taken_in (heap_arena s) bs"
      using taken_unique [OF sizes [unfolded 1(1)], of "heap_arena s"] 1(1,2) by force
    then have "A (b + 36) = None" using bs(2) by (auto simp: owned_def)
    moreover have "mem s' x = mem s x" if r: "A r = Some l" "x \<in> {r..<r + l}" for r l x
      using owned_live [OF bs(2) r(1)] r(2) 1(4) by blast
    ultimately show ?thesis using 1(3) client_alloc [OF assms 1(3)] by blast
  qed
qed

lemma client_all_freed:
  assumes "heap_client resched s Map.empty"
  shows "heap_free_bytes s = Some (of_nat (HEAP_SIZE - BLOCK_HDR)) \<and>
    count_blocks_from (mem s) (heap_list s) 0 = Some 1"
proof -
  obtain bs where bs: "heap_ok s bs" "coalesced bs" "owned (heap_arena s) bs Map.empty"
    using client_inv [OF assms] by blast
  note h = heap_okD [OF bs(1)]
  have "f" if nf: "(n, f) \<in> set bs" for n f
  proof (rule ccontr)
    assume "\<not> f"
    then obtain xs ys where "bs = xs @ (n, False) # ys" using nf split_list by fastforce
    then show False using bs(3) by (auto simp: owned_def taken_append)
  qed
  then have "bs = [(HEAP_SIZE - 32, True)]" using coalesced_all_free [OF bs(2) h(3)] h(5) by auto
  then show ?thesis using heap_ok_counts [OF bs(1)] by simp
qed

lemma client_alloc_free:
  assumes "heap_client resched s A" "sz \<noteq> 0" "unat sz \<le> 2 ^ 64 - 32"
    "kmalloc (resched p) p sz s = Some (Inr (q, s'))"
  obtains s'' where "kfree (resched p') p' q s' = Inr ((), s'')"
    "heap_free_bytes s'' = heap_free_bytes s"
    "count_blocks_from (mem s'') (heap_list s'') 0 = count_blocks_from (mem s) (heap_list s) 0"
proof -
  obtain bs where bs: "heap_ok s bs" "coalesced bs" using client_inv [OF assms(1)] by blast
  let ?k = "unat (align16 sz) + 4"
  obtain b where b: "first_fit ?k (heap_arena s) bs = Some b"
    using kmalloc_full [OF bs(1) assms(2,3), of p] assms(4) by fastforce
  obtain xs n ys where 1: "bs = xs @ (n, True) # ys" "b = heap_arena s + span xs" "?k \<le> n"
      "q = b + 36" "heap_ok s' (xs @ carve ?k n @ ys)" "heap_arena s' = heap_arena s"
    by (rule kmalloc_fits [OF bs(1) assms(2,3) b, of p]) (use assms(4) in simp)
  obtain j r where j: "carve ?k n = (j, False) # r" by (rule carveE [OF 1(3)]) simp_all
  have "heap_ok s' (xs @ (j, False) # r @ ys)" using 1(5) j by simp
  then obtain s'' where f: "kfree (resched p') p' q s' = Inr ((), s'')" "heap_ok s'' (free_in xs j (r @ ys))"
    by (rule kfree_taken [of s' xs j "r @ ys" p']) (use 1 in simp)
  then have "heap_ok s'' bs" using free_carve [OF bs(2) [unfolded 1(1)] j 1(3)] 1(1) by simp
  then show ?thesis
    using that [OF f(1)] heap_ok_counts [OF bs(1)] heap_ok_counts [of s'' bs] by simp
qed

end

end
