(* ===== verification/Memmap.thy ===== *)
theory Memmap
  imports Heap_Correct
begin

text \<open>
  The physical memory map and the frame allocator on top of it (\<open>src/memmap.c\<close>). The
  array \<open>regions\<close> with its \<open>region_count\<close> is the list of its first \<open>region_count\<close> entries.
  The two parsers read the boot loader's structures from memory byte by byte.
  \<open>memmap_parse_uefi\<close> and \<open>memmap_alloc_frame\<close> loop for ever on some inputs and are partial
  functions; \<open>memmap_parse_multiboot\<close> ends on every memory content.
\<close>

record region_t =
  rbase :: u64
  rlength :: u64

record memmap = heap +
  regions :: "region_t list"
  map_active :: bool
  reserve_start :: u64
  reserve_end :: u64
  cur_region :: nat
  cur_offset :: u64

abbreviation (input) MAX_REGIONS :: nat where "MAX_REGIONS \<equiv> 64"
abbreviation (input) PANIC_MEMMAP_OOM :: u64 where "PANIC_MEMMAP_OOM \<equiv> 1"
abbreviation (input) MULTIBOOT_MEM_AVAILABLE :: u32 where "MULTIBOOT_MEM_AVAILABLE \<equiv> 1"
abbreviation (input) EFI_CONVENTIONAL_MEMORY :: u32 where "EFI_CONVENTIONAL_MEMORY \<equiv> 7"

section \<open>The operations\<close>

definition add_region :: "u64 \<Rightarrow> u64 \<Rightarrow> 'a memmap_scheme \<Rightarrow> 'a memmap_scheme" where
  "add_region b l s =
     (if MAX_REGIONS \<le> length (regions s) then s
      else s\<lparr>regions := regions s @ [\<lparr>rbase = b, rlength = l\<rparr>]\<rparr>)"

text \<open>
  The loop of \<open>memmap_parse_multiboot\<close>. An entry is packed: \<open>size\<close> at 0, \<open>addr\<close> at 4, \<open>len\<close> at
  12, \<open>type\<close> at 20; \<open>end\<close> was computed in 32 bits, so \<open>ptr\<close> does not wrap.
\<close>

function multiboot_loop :: "nat \<Rightarrow> nat \<Rightarrow> 'a memmap_scheme \<Rightarrow> 'a memmap_scheme" where
  "multiboot_loop ptr end s =
     (if ptr < end
      then let s = (if read32 (mem s) (ptr + 20) = MULTIBOOT_MEM_AVAILABLE
                    then add_region (read64 (mem s) (ptr + 4)) (read64 (mem s) (ptr + 12)) s
                    else s)
           in multiboot_loop (ptr + (unat (read32 (mem s) ptr) + 4)) end s
      else s)"
  by pat_completeness auto
termination
  by (relation "measure (\<lambda>(ptr, end, _). end - ptr)") auto

declare multiboot_loop.simps [simp del]

definition memmap_parse_multiboot :: "u64 \<Rightarrow> 'a memmap_scheme \<Rightarrow> 'a memmap_scheme" where
  "memmap_parse_multiboot mbi_addr s =
     (if mbi_addr = 0 then s
      else let info = unat mbi_addr
           in if \<not> bit (read32 (mem s) info) 6
              then kprint (''[memmap] WARNING: GRUB did not provide memory map'' @ [nl]) s
              else let mmap_length = read32 (mem s) (info + 44);
                       mmap_addr = read32 (mem s) (info + 48)
                   in multiboot_loop (unat mmap_addr) (unat (mmap_addr + mmap_length)) s)"

text \<open>An EFI descriptor: \<open>type\<close> at 0, \<open>phys_start\<close> at 8, \<open>num_pages\<close> at 24.\<close>

partial_function (option) uefi_loop ::
    "nat \<Rightarrow> u64 \<Rightarrow> u64 \<Rightarrow> u64 \<Rightarrow> 'a memmap_scheme \<Rightarrow> 'a memmap_scheme option" where
  "uefi_loop efi_map map_size descriptor_size offset s =
     (if offset < map_size
      then let d = efi_map + unat offset;
               s = (if read32 (mem s) d = EFI_CONVENTIONAL_MEMORY
                    then add_region (read64 (mem s) (d + 8)) (read64 (mem s) (d + 24) * 4096) s
                    else s)
           in uefi_loop efi_map map_size descriptor_size (offset + descriptor_size) s
      else Some s)"

definition memmap_parse_uefi :: "nat \<Rightarrow> u64 \<Rightarrow> u64 \<Rightarrow> 'a memmap_scheme \<Rightarrow> 'a memmap_scheme option" where
  "memmap_parse_uefi efi_map map_size descriptor_size s = uefi_loop efi_map map_size descriptor_size 0 s"

definition memmap_region_is_safe :: "u64 \<Rightarrow> u64 \<Rightarrow> 'a memmap_scheme \<Rightarrow> bool" where
  "memmap_region_is_safe addr len s =
     (\<exists>r \<in> set (regions s). rbase r \<le> addr \<and> addr + len \<le> rbase r + rlength r)"

definition memmap_activate :: "u64 \<Rightarrow> u64 \<Rightarrow> 'a memmap_scheme \<Rightarrow> 'a memmap_scheme" where
  "memmap_activate reserved_lo reserved_hi s =
     (let s = s\<lparr>reserve_start := reserved_lo, reserve_end := reserved_hi,
                cur_region := 0, cur_offset := 0, map_active := True\<rparr>;
          ram = foldl (\<lambda>t r. t + rlength r) 0 (regions s)
      in kprint ('' bytes total usable RAM reported'' @ [nl])
           (kprint_hex64 ram
             (kprint '' regions, ''
               (kprint_hex64 (of_nat (length (regions s)))
                 (kprint ''[memmap] activated: '' s)))))"

definition memmap_is_active :: "'a memmap_scheme \<Rightarrow> bool" where
  "memmap_is_active s = map_active s"

definition page_up :: "u64 \<Rightarrow> u64" where
  "page_up a = (a + 0xFFF) AND NOT 0xFFF"

text \<open>
  The loop of \<open>memmap_alloc_frame\<close>: the frame found, if any, and the final cursor.
\<close>

partial_function (option) alloc_loop ::
    "region_t list \<Rightarrow> u64 \<Rightarrow> u64 \<Rightarrow> nat \<Rightarrow> u64 \<Rightarrow> (u64 option \<times> nat \<times> u64) option" where
  "alloc_loop rs lo hi i off =
     (if i < length rs
      then let r = rs ! i;
               base_aligned = page_up (rbase r);
               addr = base_aligned + off;
               region_end = rbase r + rlength r
           in if region_end \<le> addr then alloc_loop rs lo hi (i + 1) 0
              else if addr < 0x100000
              then alloc_loop rs lo hi i (if base_aligned < 0x100000 then 0x100000 - base_aligned else 0)
              else if addr < hi \<and> lo < addr + 4096
              then alloc_loop rs lo hi i (if base_aligned < hi then hi - base_aligned else off + 4096)
              else Some (Some addr, i, off + 4096)
      else Some (None, i, off))"

definition memmap_alloc_frame :: "'a memmap_scheme \<Rightarrow> ('a memmap_scheme, u64) presult" where
  "memmap_alloc_frame s =
     (case alloc_loop (regions s) (reserve_start s) (reserve_end s) (cur_region s) (cur_offset s) of
        None \<Rightarrow> None
      | Some (found, i, off) \<Rightarrow>
          let s = s\<lparr>cur_region := i, cur_offset := off\<rparr>
          in case found of
               None \<Rightarrow> Some (Inl (neka_panic ''MEMMAP'' PANIC_MEMMAP_OOM s))
             | Some addr \<Rightarrow> Some (Inr (addr, s)))"

section \<open>Specification of the frame allocator\<close>

text \<open>
  The page addresses from \<open>a\<close> up to \<open>e\<close>, and which of them may be handed out: not below one
  megabyte and not overlapping the reserved range.
\<close>

function pages :: "nat \<Rightarrow> nat \<Rightarrow> nat list" where
  "pages a e = (if a < e then a # pages (a + 4096) e else [])"
  by pat_completeness auto
termination
  by (relation "measure (\<lambda>(a, e). e - a)") auto

declare pages.simps [simp del]

definition usable :: "nat \<Rightarrow> nat \<Rightarrow> nat \<Rightarrow> bool" where
  "usable lo hi a \<longleftrightarrow> 0x100000 \<le> a \<and> \<not> (a < hi \<and> lo < a + 4096)"

abbreviation region_end :: "region_t \<Rightarrow> nat" where
  "region_end r \<equiv> unat (rbase r) + unat (rlength r)"

abbreviation first_page :: "region_t \<Rightarrow> nat" where
  "first_page r \<equiv> (unat (rbase r) + 4095) div 4096 * 4096"

definition frames_from :: "nat \<Rightarrow> nat \<Rightarrow> region_t \<Rightarrow> nat \<Rightarrow> nat list" where
  "frames_from lo hi r off = filter (usable lo hi) (pages (first_page r + off) (region_end r))"

definition frames_left :: "nat \<Rightarrow> nat \<Rightarrow> region_t list \<Rightarrow> nat \<Rightarrow> nat \<Rightarrow> nat list" where
  "frames_left lo hi rs i off =
     (if i < length rs
      then frames_from lo hi (rs ! i) off @ concat (map (\<lambda>r. frames_from lo hi r 0) (drop (i + 1) rs))
      else [])"

definition free_frames :: "'a memmap_scheme \<Rightarrow> nat list" where
  "free_frames s = frames_left (unat (reserve_start s)) (unat (reserve_end s)) (regions s)
     (cur_region s) (unat (cur_offset s))"

text \<open>
  What the allocator relies on: no region reaches the last page of the 64-bit address
  space, and the reserved range ends on a page boundary (\<open>linker64.ld\<close> aligns
  \<open>kernel_end\<close>).
\<close>

definition region_ok :: "region_t \<Rightarrow> bool" where
  "region_ok r \<longleftrightarrow> region_end r + 4096 \<le> 2 ^ 64"

definition cursor_ok :: "region_t list \<Rightarrow> nat \<Rightarrow> nat \<Rightarrow> bool" where
  "cursor_ok rs i off \<longleftrightarrow> 4096 dvd off \<and> (i < length rs \<longrightarrow> first_page (rs ! i) + off < 2 ^ 64)"

definition memmap_ok :: "'a memmap_scheme \<Rightarrow> bool" where
  "memmap_ok s \<longleftrightarrow> (\<forall>r \<in> set (regions s). region_ok r) \<and> 4096 dvd unat (reserve_end s) \<and>
     cursor_ok (regions s) (cur_region s) (unat (cur_offset s))"

section \<open>The allocator meets the specification\<close>

lemma page_up_unat: "unat a + 4095 < 2 ^ 64 \<Longrightarrow> unat (page_up a) = (unat a + 4095) div 4096 * 4096"
  using unat_add_small [of a 4095] by (simp add: page_up_def unat_and_not_4095)

lemma pages_skip:
  assumes "a \<le> c" "4096 dvd c - a" "\<And>x. a \<le> x \<Longrightarrow> x < c \<Longrightarrow> \<not> P x"
  shows "filter P (pages a e) = filter P (pages c e)"
  using assms
proof (induction a e rule: pages.induct)
  case (1 a e)
  show ?case
  proof (cases "a = c")
    case False
    then have "4096 \<le> c - a" using "1.prems"(1,2) by (intro dvd_imp_le) auto
    then have step: "a + 4096 \<le> c" "4096 dvd c - (a + 4096)"
      using "1.prems"(2) dvd_diff_nat [of 4096 "c - a" 4096] by auto
    show ?thesis
    proof (cases "a < e")
      case True
      have "\<not> P a" using "1.prems"(3) [of a] False "1.prems"(1) by simp
      then show ?thesis using "1.IH" [OF True step] "1.prems"(3) True by (simp add: pages.simps [of a])
    next
      case False
      then show ?thesis using "1.prems"(1) by (simp add: pages.simps [of a] pages.simps [of c])
    qed
  qed simp
qed

lemma frames_from_skip:
  assumes "off \<le> off'" "4096 dvd off' - off"
    "\<And>x. first_page r + off \<le> x \<Longrightarrow> x < first_page r + off' \<Longrightarrow> \<not> usable lo hi x"
  shows "frames_from lo hi r off = frames_from lo hi r off'"
  unfolding frames_from_def by (rule pages_skip) (use assms in simp_all)

text \<open>One turn of the loop, on numbers: the branches with their guards.\<close>

lemma alloc_turn:
  assumes rs: "\<forall>r \<in> set rs. region_ok r" "i < length rs" and cur: "cursor_ok rs i (unat off)"
    and hi: "4096 dvd unat hi"
  defines "r \<equiv> rs ! i"
  defines "a \<equiv> first_page r + unat off"
  shows "region_end r \<le> a \<Longrightarrow> alloc_loop rs lo hi i off = alloc_loop rs lo hi (i + 1) 0"
    and "\<lbrakk>a < region_end r; a < 0x100000\<rbrakk> \<Longrightarrow>
      alloc_loop rs lo hi i off = alloc_loop rs lo hi i (0x100000 - page_up (rbase r)) \<and>
      unat (0x100000 - page_up (rbase r)) = 0x100000 - first_page r"
    and "\<lbrakk>a < region_end r; 0x100000 \<le> a; a < unat hi; unat lo < a + 4096\<rbrakk> \<Longrightarrow>
      alloc_loop rs lo hi i off = alloc_loop rs lo hi i (hi - page_up (rbase r)) \<and>
      unat (hi - page_up (rbase r)) = unat hi - first_page r"
    and "\<lbrakk>a < region_end r; usable (unat lo) (unat hi) a\<rbrakk> \<Longrightarrow>
      alloc_loop rs lo hi i off = Some (Some (of_nat a), i, off + 4096) \<and> unat (off + 4096) = unat off + 4096"
proof -
  have rok: "region_end r + 4096 \<le> 2 ^ 64" using rs by (simp add: region_ok_def r_def)
  have base: "unat (page_up (rbase r)) = first_page r" using rok by (intro page_up_unat) simp
  have a_lt: "a < 2 ^ 64" using cur rs(2) by (simp add: cursor_ok_def a_def r_def)
  have addr: "unat (page_up (rbase r) + off) = a"
    using unat_add_small [of "page_up (rbase r)" off] a_lt by (simp add: base a_def)
  have fin: "unat (rbase r + rlength r) = region_end r" using rok by (intro unat_add_small) simp
  have plus: "unat (page_up (rbase r) + off + 4096) = a + 4096" if "a < region_end r"
    using unat_add_small [of "page_up (rbase r) + off" 4096] rok that by (simp add: addr)
  have mega: "unat (0x100000 :: u64) = 0x100000" by simp
  note loop = alloc_loop.simps [of rs lo hi i off, folded r_def, unfolded Let_def]
  note cmp = word_le_nat_alt word_less_nat_alt addr fin base
  show "region_end r \<le> a \<Longrightarrow> alloc_loop rs lo hi i off = alloc_loop rs lo hi (i + 1) 0"
    using rs(2) by (subst loop) (simp add: cmp)
  show "alloc_loop rs lo hi i off = alloc_loop rs lo hi i (0x100000 - page_up (rbase r)) \<and>
      unat (0x100000 - page_up (rbase r)) = 0x100000 - first_page r"
    if "a < region_end r" "a < 0x100000"
  proof -
    have "first_page r < 0x100000" using that by (simp add: a_def)
    then show ?thesis using rs(2) that by (subst loop) (simp add: cmp unat_sub)
  qed
  show "alloc_loop rs lo hi i off = alloc_loop rs lo hi i (hi - page_up (rbase r)) \<and>
      unat (hi - page_up (rbase r)) = unat hi - first_page r"
    if "a < region_end r" "0x100000 \<le> a" "a < unat hi" "unat lo < a + 4096"
  proof -
    have "first_page r < unat hi" using that by (simp add: a_def)
    then show ?thesis using rs(2) that by (subst loop) (simp add: cmp plus unat_sub)
  qed
  show "alloc_loop rs lo hi i off = Some (Some (of_nat a), i, off + 4096) \<and> unat (off + 4096) = unat off + 4096"
    if "a < region_end r" "usable (unat lo) (unat hi) a"
  proof -
    have "alloc_loop rs lo hi i off = Some (Some (page_up (rbase r) + off), i, off + 4096)"
      using rs(2) that by (subst loop) (auto simp: cmp plus usable_def)
    moreover have "page_up (rbase r) + off = of_nat a" using addr by (metis word_of_nat_unat)
    moreover have "unat off + 4096 < 18446744073709551616" using that rok by (simp add: a_def)
    then have "unat (off + 4096) = unat off + 4096" using unat_add_small [of off 4096] by simp
    ultimately show ?thesis by simp
  qed
qed

definition loop_result :: "nat \<Rightarrow> nat \<Rightarrow> region_t list \<Rightarrow> nat list \<Rightarrow> (u64 option \<times> nat \<times> u64) option \<Rightarrow> bool" where
  "loop_result lo hi rs fs res \<longleftrightarrow>
     (\<exists>i off. cursor_ok rs i (unat off) \<and>
       (case fs of [] \<Rightarrow> res = Some (None, i, off) \<and> length rs \<le> i
        | f # gs \<Rightarrow> res = Some (Some (of_nat f), i, off) \<and> f < 2 ^ 64 \<and>
            frames_left lo hi rs i (unat off) = gs))"

lemma frames_left_skip:
  assumes "i < length rs" "frames_from lo hi (rs ! i) off = frames_from lo hi (rs ! i) off'"
  shows "frames_left lo hi rs i off = frames_left lo hi rs i off'"
  using assms by (simp add: frames_left_def)

lemma frames_left_next:
  assumes "i < length rs" "frames_from lo hi (rs ! i) off = []"
  shows "frames_left lo hi rs i off = frames_left lo hi rs (i + 1) 0"
  using assms by (cases "i + 1 < length rs") (simp_all add: frames_left_def Cons_nth_drop_Suc [symmetric])

lemma alloc_loop_spec:
  assumes "\<forall>r \<in> set rs. region_ok r" "4096 dvd unat hi" "cursor_ok rs i (unat off)"
  shows "loop_result (unat lo) (unat hi) rs (frames_left (unat lo) (unat hi) rs i (unat off))
    (alloc_loop rs lo hi i off)"
  using assms(3)
proof (induction "(i, off)" arbitrary: i off
    rule: wf_induct_rule [OF wf_measures [of "[\<lambda>(i, off). length rs - i,
      \<lambda>(i, off). region_end (rs ! i) - (first_page (rs ! i) + unat off)]"]])
  case (1 i off)
  let ?r = "rs ! i"
  let ?a = "first_page ?r + unat off"
  note cur = "1.prems"
  show ?case
  proof (cases "i < length rs")
    case False
    then have "alloc_loop rs lo hi i off = Some (None, i, off)" by (subst alloc_loop.simps) simp
    then show ?thesis using False cur by (auto simp: frames_left_def loop_result_def)
  next
    case i: True
    note turn = alloc_turn [OF assms(1) i cur assms(2)]
    have rok: "region_end ?r + 4096 \<le> 2 ^ 64" using assms(1) i by (simp add: region_ok_def)
    have al: "4096 dvd unat off" using cur by (simp add: cursor_ok_def)
    have skip: "loop_result (unat lo) (unat hi) rs (frames_left (unat lo) (unat hi) rs i (unat off))
        (alloc_loop rs lo hi i off)"
      if off': "unat off < unat off'" "4096 dvd unat off'" "?a < region_end ?r"
        "first_page ?r + unat off' < 2 ^ 64"
        "alloc_loop rs lo hi i off = alloc_loop rs lo hi i off'"
        "\<And>x. ?a \<le> x \<Longrightarrow> x < first_page ?r + unat off' \<Longrightarrow> \<not> usable (unat lo) (unat hi) x" for off'
    proof -
      have "loop_result (unat lo) (unat hi) rs (frames_left (unat lo) (unat hi) rs i (unat off'))
          (alloc_loop rs lo hi i off')"
        by (rule "1.hyps") (use off' in \<open>auto simp: cursor_ok_def\<close>)
      moreover have "frames_from (unat lo) (unat hi) ?r (unat off) = frames_from (unat lo) (unat hi) ?r (unat off')"
        by (rule frames_from_skip) (use off' al in auto)
      ultimately show ?thesis using frames_left_skip [OF i] off'(5) by metis
    qed
    consider (full) "region_end ?r \<le> ?a" | (low) "?a < region_end ?r" "?a < 0x100000"
      | (reserved) "?a < region_end ?r" "0x100000 \<le> ?a" "?a < unat hi" "unat lo < ?a + 4096"
      | (found) "?a < region_end ?r" "usable (unat lo) (unat hi) ?a"
      by (fastforce simp: usable_def)
    then show ?thesis
    proof cases
      case full
      then have "frames_from (unat lo) (unat hi) ?r (unat off) = []"
        by (simp add: frames_from_def pages.simps)
      moreover have c: "cursor_ok rs (i + 1) (unat (0 :: u64))"
        using assms(1) by (auto simp: cursor_ok_def region_ok_def dest!: nth_mem)
      have "loop_result (unat lo) (unat hi) rs (frames_left (unat lo) (unat hi) rs (i + 1) (unat (0 :: u64)))
          (alloc_loop rs lo hi (i + 1) 0)"
        by (rule "1.hyps") (use i c in auto)
      ultimately show ?thesis using frames_left_next [OF i] turn(1) [OF full] by simp
    next
      case low
      note t = turn(2) [OF low, THEN conjunct1] turn(2) [OF low, THEN conjunct2]
      show ?thesis
        by (rule skip [of "0x100000 - page_up (rbase ?r)"])
          (use low t in \<open>auto simp: usable_def less_diff_conv2\<close>)
    next
      case reserved
      note t = turn(3) [OF reserved, THEN conjunct1] turn(3) [OF reserved, THEN conjunct2]
      have "4096 dvd unat hi - first_page ?r" using assms(2) by (intro dvd_diff_nat) simp_all
      then show ?thesis
        using reserved t by (intro skip [of "hi - page_up (rbase ?r)"]) (auto simp: usable_def)
    next
      case found
      note t = turn(4) [OF found]
      have "frames_from (unat lo) (unat hi) ?r (unat off) =
          ?a # frames_from (unat lo) (unat hi) ?r (unat off + 4096)"
        using found by (simp add: frames_from_def pages.simps [of ?a] add.assoc)
      then have fl: "frames_left (unat lo) (unat hi) rs i (unat off) =
          ?a # frames_left (unat lo) (unat hi) rs i (unat (off + 4096))"
        using i t by (simp add: frames_left_def)
      have "cursor_ok rs i (unat (off + 4096))"
        using t al found rok by (simp add: cursor_ok_def)
      then show ?thesis
        unfolding fl loop_result_def using t found rok by fastforce
    qed
  qed
qed

section \<open>The interface of a frame source\<close>

text \<open>
  What the page-table code relies on: a call hands out the next of the frames the source has
  left and touches nothing the caller sees through \<open>view\<close>; it panics only when none is
  left.
\<close>

fun take_frames :: "('s \<Rightarrow> ('s, u64) presult) \<Rightarrow> nat \<Rightarrow> 's \<Rightarrow> ('s, u64 list) presult" where
  "take_frames alloc 0 s = Some (Inr ([], s))"
| "take_frames alloc (Suc n) s =
     bind_p (alloc s) (\<lambda>f s. bind_p (take_frames alloc n s) (\<lambda>fs s. Some (Inr (f # fs, s))))"

locale frame_source =
  fixes alloc :: "'s \<Rightarrow> ('s, u64) presult"
    and ok :: "'s \<Rightarrow> bool" and avail :: "'s \<Rightarrow> nat list" and view :: "'s \<Rightarrow> 'v"
    and oom :: "'s panic \<Rightarrow> bool"
  assumes alloc_next: "\<lbrakk>ok s; avail s = f # fs\<rbrakk> \<Longrightarrow>
      \<exists>s'. alloc s = Some (Inr (of_nat f, s')) \<and> ok s' \<and> avail s' = fs \<and> view s' = view s"
    and alloc_empty: "\<lbrakk>ok s; avail s = []\<rbrakk> \<Longrightarrow> \<exists>e. alloc s = Some (Inl e) \<and> oom e"
begin

lemma take_frames_enough:
  assumes "ok s" "n \<le> length (avail s)"
  shows "\<exists>s'. take_frames alloc n s = Some (Inr (map of_nat (take n (avail s)), s')) \<and>
    ok s' \<and> avail s' = drop n (avail s) \<and> view s' = view s"
  using assms
proof (induction n arbitrary: s)
  case (Suc n)
  then obtain f fs where "avail s = f # fs" by (cases "avail s") auto
  then show ?case
    using alloc_next [OF Suc.prems(1)] Suc.IH Suc.prems(2) by fastforce
qed simp

lemma take_frames_oom:
  assumes "ok s" "length (avail s) < n"
  shows "\<exists>e. take_frames alloc n s = Some (Inl e) \<and> oom e"
  using assms
proof (induction n arbitrary: s)
  case (Suc n)
  show ?case
  proof (cases "avail s")
    case Nil
    then show ?thesis using alloc_empty [OF Suc.prems(1)] by fastforce
  next
    case (Cons f fs)
    then show ?thesis using alloc_next [OF Suc.prems(1)] Suc.IH Suc.prems(2) by fastforce
  qed
qed simp

end

definition memmap_oom :: "'a memmap_scheme panic \<Rightarrow> bool" where
  "memmap_oom e \<longleftrightarrow> (\<exists>t. e = Panic ''MEMMAP'' PANIC_MEMMAP_OOM t)"

definition without_cursor :: "'a memmap_scheme \<Rightarrow> 'a memmap_scheme" where
  "without_cursor s = s\<lparr>cur_region := 0, cur_offset := 0\<rparr>"

interpretation phys: frame_source memmap_alloc_frame memmap_ok free_frames without_cursor memmap_oom
proof
  fix s :: "'a memmap_scheme"
  assume ok: "memmap_ok s"
  then have spec: "loop_result (unat (reserve_start s)) (unat (reserve_end s)) (regions s) (free_frames s)
      (alloc_loop (regions s) (reserve_start s) (reserve_end s) (cur_region s) (cur_offset s))"
    unfolding free_frames_def by (intro alloc_loop_spec) (auto simp: memmap_ok_def)
  show "\<exists>e. memmap_alloc_frame s = Some (Inl e) \<and> memmap_oom e" if "free_frames s = []"
    using spec that by (auto simp: loop_result_def memmap_alloc_frame_def memmap_oom_def neka_panic_def)
  show "\<exists>s'. memmap_alloc_frame s = Some (Inr (of_nat f, s')) \<and> memmap_ok s' \<and>
      free_frames s' = fs \<and> without_cursor s' = without_cursor s" if fs: "free_frames s = f # fs" for f fs
  proof -
    obtain i off where "alloc_loop (regions s) (reserve_start s) (reserve_end s) (cur_region s)
        (cur_offset s) = Some (Some (of_nat f), i, off)" "cursor_ok (regions s) i (unat off)"
      "frames_left (unat (reserve_start s)) (unat (reserve_end s)) (regions s) i (unat off) = fs"
      using spec by (auto simp: loop_result_def fs)
    then show ?thesis
      using ok by (simp add: memmap_alloc_frame_def memmap_ok_def free_frames_def without_cursor_def)
  qed
qed

section \<open>Which frames there are\<close>

lemma pages_iff: "x \<in> set (pages a e) \<longleftrightarrow> a \<le> x \<and> x < e \<and> 4096 dvd x - a"
proof (induction a e rule: pages.induct)
  case (1 a e)
  show ?case
  proof (cases "a < e")
    case True
    have "4096 dvd x - (a + 4096) \<longleftrightarrow> 4096 dvd x - a" if "a + 4096 \<le> x"
      using that dvd_add_left_iff [of 4096 4096 "x - (a + 4096)"] by (simp add: algebra_simps)
    moreover have "a + 4096 \<le> x" if "a \<le> x" "4096 dvd x - a" "x \<noteq> a"
      using that dvd_imp_le [of 4096 "x - a"] by simp
    ultimately show ?thesis using 1 True by (auto simp: pages.simps [of a])
  next
    case False
    then show ?thesis by (simp add: pages.simps [of a])
  qed
qed

lemma pages_distinct: "distinct (pages a e)"
proof (induction a e rule: pages.induct)
  case (1 a e)
  then show ?case by (cases "a < e") (simp_all add: pages.simps [of a] pages_iff)
qed

definition whole_pages :: "region_t \<Rightarrow> bool" where
  "whole_pages r \<longleftrightarrow> 4096 dvd region_end r"

definition apart :: "region_t list \<Rightarrow> bool" where
  "apart rs \<longleftrightarrow> sorted_wrt (\<lambda>r r'. region_end r \<le> unat (rbase r') \<or> region_end r' \<le> unat (rbase r)) rs"

lemma frame_in_region:
  assumes "f \<in> set (frames_from lo hi r off)" "4096 dvd off"
  shows "unat (rbase r) \<le> f" "f < region_end r" "4096 dvd f" "usable lo hi f"
    "whole_pages r \<Longrightarrow> f + 4096 \<le> region_end r"
proof -
  let ?b = "first_page r + off"
  have f: "?b \<le> f" "f < region_end r" "4096 dvd f - ?b" "usable lo hi f"
    using assms(1) by (auto simp: frames_from_def pages_iff)
  then show "f < region_end r" "usable lo hi f" by simp_all
  have "4096 dvd ?b" using assms(2) by (intro dvd_add) simp_all
  then have "4096 dvd f - ?b + ?b" by (rule dvd_add [OF f(3)])
  then show al: "4096 dvd f" using f(1) by (simp only: le_add_diff_inverse2)
  have "unat (rbase r) \<le> first_page r" using div_mult_mod_eq [of "unat (rbase r) + 4095" 4096] by linarith
  then show "unat (rbase r) \<le> f" using f(1) by linarith
  show "f + 4096 \<le> region_end r" if "whole_pages r"
  proof -
    have "4096 dvd region_end r - f" using that al unfolding whole_pages_def by (rule dvd_diff_nat)
    then have "4096 \<le> region_end r - f" using f(2) by (intro dvd_imp_le) simp_all
    then show ?thesis using f(2) by linarith
  qed
qed

lemma frames_left_elem:
  assumes "f \<in> set (frames_left lo hi rs i off)" "4096 dvd off"
  obtains r j where "r \<in> set rs" "f \<in> set (frames_from lo hi r j)" "4096 dvd j"
proof -
  have i: "i < length rs" using assms(1) by (simp add: frames_left_def split: if_splits)
  then consider "f \<in> set (frames_from lo hi (rs ! i) off)"
    | q where "q \<in> set (drop (i + 1) rs)" "f \<in> set (frames_from lo hi q 0)"
    using assms(1) by (auto simp: frames_left_def)
  then show ?thesis
    using that i assms(2) nth_mem [OF i] in_set_dropD [of _ "i + 1" rs] by cases force+
qed

lemma frames_apart:
  assumes "f \<in> set (frames_from lo hi r i)" "g \<in> set (frames_from lo hi q j)" "4096 dvd i" "4096 dvd j"
    "apart (r # rs)" "q \<in> set rs"
  shows "f \<noteq> g"
proof -
  have "region_end r \<le> unat (rbase q) \<or> region_end q \<le> unat (rbase r)"
    using assms(5,6) by (simp add: apart_def)
  then show ?thesis
    using frame_in_region(1,2) [OF assms(1,3)] frame_in_region(1,2) [OF assms(2,4)] by linarith
qed

lemma frames_concat_distinct:
  assumes "apart (r # rs)" "4096 dvd off"
  shows "distinct (frames_from lo hi r off @ concat (map (\<lambda>r. frames_from lo hi r 0) rs))"
  using assms
proof (induction rs arbitrary: r off)
  case Nil
  then show ?case by (simp add: frames_from_def pages_distinct)
next
  case (Cons q rs)
  have "apart (q # rs)" using Cons.prems(1) by (simp add: apart_def)
  then have 1: "distinct (frames_from lo hi q 0 @ concat (map (\<lambda>r. frames_from lo hi r 0) rs))"
    by (rule Cons.IH) simp
  have 2: "set (frames_from lo hi r off) \<inter> set (frames_from lo hi p 0) = {}" if "p \<in> set (q # rs)" for p
    using frames_apart [OF _ _ Cons.prems(2) _ Cons.prems(1) that] by fastforce
  then have "set (frames_from lo hi r off) \<inter>
      set (frames_from lo hi q 0 @ concat (map (\<lambda>r. frames_from lo hi r 0) rs)) = {}"
    by fastforce
  then show ?case
    using 1 by (simp add: frames_from_def pages_distinct)
qed

lemma frames_left_distinct:
  assumes "apart rs" "4096 dvd off"
  shows "distinct (frames_left lo hi rs i off)"
proof (cases "i < length rs")
  case True
  have "apart (drop i rs)" using assms(1) unfolding apart_def by (rule sorted_wrt_drop)
  then have "apart (rs ! i # drop (i + 1) rs)" using True by (simp add: Cons_nth_drop_Suc)
  then show ?thesis
    using frames_concat_distinct [OF _ assms(2)] True by (simp add: frames_left_def)
qed (simp add: frames_left_def)

section \<open>The parsers\<close>

text \<open>
  \<open>mmap_at m ptr end es\<close>: from \<open>ptr\<close> to \<open>end\<close> memory holds the multiboot entries \<open>es\<close>, each
  given by its \<open>size\<close> field, address, length and type.
\<close>

fun mmap_at :: "memory \<Rightarrow> nat \<Rightarrow> nat \<Rightarrow> (nat \<times> u64 \<times> u64 \<times> u32) list \<Rightarrow> bool" where
  "mmap_at m ptr end [] \<longleftrightarrow> end \<le> ptr"
| "mmap_at m ptr end ((sz, a, l, t) # es) \<longleftrightarrow>
     ptr < end \<and> unat (read32 m ptr) = sz \<and> read64 m (ptr + 4) = a \<and> read64 m (ptr + 12) = l \<and>
     read32 m (ptr + 20) = t \<and> mmap_at m (ptr + sz + 4) end es"

definition ram_regions :: "(nat \<times> u64 \<times> u64 \<times> u32) list \<Rightarrow> region_t list" where
  "ram_regions es = map (\<lambda>(_, a, l, _). \<lparr>rbase = a, rlength = l\<rparr>) (filter (\<lambda>(_, _, _, t). t = 1) es)"

lemma add_region_frame:
  "add_region b l s = s\<lparr>regions := take MAX_REGIONS (regions s @ [\<lparr>rbase = b, rlength = l\<rparr>])\<rparr>"
  if "length (regions s) \<le> MAX_REGIONS"
  using that by (simp add: add_region_def)

lemma multiboot_loop_entries:
  assumes "mmap_at (mem s) ptr end es" "length (regions s) \<le> MAX_REGIONS"
  shows "multiboot_loop ptr end s = s\<lparr>regions := take MAX_REGIONS (regions s @ ram_regions es)\<rparr>"
  using assms
proof (induction es arbitrary: ptr s)
  case Nil
  then show ?case by (subst multiboot_loop.simps) (simp add: ram_regions_def)
next
  case (Cons e es)
  obtain sz a l t where e: "e = (sz, a, l, t)" by (cases e)
  let ?s = "if t = 1 then add_region a l s else s"
  have "mem ?s = mem s" by (simp add: add_region_def)
  have "multiboot_loop ptr end s = multiboot_loop (ptr + sz + 4) end ?s"
    using Cons.prems(1) by (subst multiboot_loop.simps) (simp add: e Let_def add_region_def add.assoc)
  moreover have "length (regions ?s) \<le> MAX_REGIONS" using Cons.prems(2) by (simp add: add_region_def)
  ultimately have "multiboot_loop ptr end s = ?s\<lparr>regions := take MAX_REGIONS (regions ?s @ ram_regions es)\<rparr>"
    using Cons.IH [of ?s "ptr + sz + 4"] Cons.prems(1) \<open>mem ?s = mem s\<close> by (simp add: e)
  then show ?case
    using Cons.prems(2) by (auto simp: e ram_regions_def add_region_def take_Cons')
qed

text \<open>The descriptors a UEFI memory map of the given size holds, and their usable regions.\<close>

definition efi_region :: "memory \<Rightarrow> nat \<Rightarrow> region_t list" where
  "efi_region m d = (if read32 m d = EFI_CONVENTIONAL_MEMORY
     then [\<lparr>rbase = read64 m (d + 8), rlength = read64 m (d + 24) * 4096\<rparr>] else [])"

definition efi_regions :: "memory \<Rightarrow> nat \<Rightarrow> nat \<Rightarrow> nat \<Rightarrow> region_t list" where
  "efi_regions m efi_map dsz n = concat (map (\<lambda>i. efi_region m (efi_map + i * dsz)) [0..<n])"

lemma uefi_loop_end:
  "map_size \<le> offset \<Longrightarrow> uefi_loop efi_map map_size dsz offset s = Some s"
  by (subst uefi_loop.simps) (simp add: not_less [symmetric])

lemma uefi_loop_entries:
  assumes "unat map_size = n * unat dsz" "0 < unat dsz" "i \<le> n" "n * unat dsz + unat dsz < 2 ^ 64"
    "unat offset = i * unat dsz" "length (regions s) \<le> MAX_REGIONS"
  shows "uefi_loop efi_map map_size dsz offset s =
    Some (s\<lparr>regions := take MAX_REGIONS (regions s @
      concat (map (\<lambda>i. efi_region (mem s) (efi_map + i * unat dsz)) [i..<n]))\<rparr>)"
  using assms(3,5,6)
proof (induction "n - i" arbitrary: i offset s)
  case 0
  then show ?case using assms(1) by (subst uefi_loop_end) (simp_all add: word_le_nat_alt)
next
  case (Suc k)
  then have i: "i < n" by simp
  let ?d = "efi_map + i * unat dsz"
  let ?s = "if read32 (mem s) ?d = EFI_CONVENTIONAL_MEMORY
    then add_region (read64 (mem s) (?d + 8)) (read64 (mem s) (?d + 24) * 4096) s else s"
  have lt: "(i + 1) * unat dsz \<le> n * unat dsz" using i by (intro mult_le_mono) simp_all
  have ms: "mem ?s = mem s" "length (regions ?s) \<le> MAX_REGIONS"
    using Suc.prems(3) by (simp_all add: add_region_def)
  have off: "unat (offset + dsz) = (i + 1) * unat dsz"
    using unat_add_small [of offset dsz] Suc.prems(2) lt assms(4) by simp
  have "offset < map_size" using i assms(1,2) Suc.prems(2) by (simp add: word_less_nat_alt)
  then have "uefi_loop efi_map map_size dsz offset s = uefi_loop efi_map map_size dsz (offset + dsz) ?s"
    by (subst uefi_loop.simps) (simp add: Let_def Suc.prems(2))
  also have "\<dots> = Some (?s\<lparr>regions := take MAX_REGIONS (regions ?s @
      concat (map (\<lambda>i. efi_region (mem ?s) (efi_map + i * unat dsz)) [i + 1..<n]))\<rparr>)"
    by (rule Suc.hyps(1)) (use Suc.hyps(2) i off ms in auto)
  finally show ?case
    using Suc.prems(3) i by (simp add: ms upt_conv_Cons efi_region_def add_region_def)
qed

text \<open>With a descriptor size of zero the loop over a non-empty map never ends.\<close>

lemma uefi_loop_zero_aux:
  assumes "uefi_loop efi_map map_size dsz offset s = Some t"
  shows "dsz = 0 \<longrightarrow> map_size \<le> offset"
  by (rule uefi_loop.raw_induct [OF _ assms,
        where P = "\<lambda>efi_map map_size dsz offset s t. dsz = 0 \<longrightarrow> map_size \<le> offset"])
    (fastforce simp: Let_def split: if_splits)

lemma uefi_loop_zero:
  assumes "0 < map_size"
  shows "uefi_loop efi_map map_size 0 0 s = None"
  using uefi_loop_zero_aux [of efi_map map_size 0 0 s] assms
  by (cases "uefi_loop efi_map map_size 0 0 s") auto

section \<open>Properties\<close>

text \<open>A small machine for the witnesses: two megabytes of memory, the first one reserved.\<close>

definition bare_heap :: heap where
  "bare_heap = kmem.extend (nkern.extend quiet_kernel \<lparr>mem = (\<lambda>_. 0)\<rparr>)
     \<lparr>heap_arena = 0x110000, heap_list = 0\<rparr>"

definition bare_map :: memmap where
  "bare_map = heap.extend bare_heap
     \<lparr>regions = [\<lparr>rbase = 0, rlength = 0x9F000\<rparr>, \<lparr>rbase = 0x1FD800, rlength = 0x2800\<rparr>],
      map_active = True, reserve_start = 0x100000, reserve_end = 0x1FF000,
      cur_region = 0, cur_offset = 0\<rparr>"

lemmas bare_defs = bare_map_def bare_heap_def quiet_kernel_def keyboard.defs nkern.defs kmem.defs heap.defs

lemma bare_map_fields [simp]:
  "regions bare_map = [\<lparr>rbase = 0, rlength = 0x9F000\<rparr>, \<lparr>rbase = 0x1FD800, rlength = 0x2800\<rparr>]"
  "reserve_start bare_map = 0x100000" "reserve_end bare_map = 0x1FF000"
  "cur_region bare_map = 0" "cur_offset bare_map = 0" "mem bare_map = (\<lambda>_. 0)"
  by (simp_all add: bare_defs)

lemma bare_map_ok: "memmap_ok bare_map"
  by (simp add: memmap_ok_def region_ok_def cursor_ok_def)

lemma bare_map_frames: "free_frames bare_map = [0x1FF000]"
proof -
  have "frames_from 0x100000 0x1FF000 \<lparr>rbase = 0, rlength = 0x9F000\<rparr> 0 = []"
    by (auto simp: frames_from_def filter_empty_conv pages_iff usable_def)
  moreover have "frames_from 0x100000 0x1FF000 \<lparr>rbase = 0x1FD800, rlength = 0x2800\<rparr> 0 = [0x1FF000]"
    by (simp add: frames_from_def pages.simps usable_def)
  ultimately show ?thesis by (simp add: free_frames_def frames_left_def)
qed





lemma parse_multiboot_ok:
  assumes "mbi \<noteq> 0" "bit (read32 (mem s) (unat mbi)) 6"
    and "unat (read32 (mem s) (unat mbi + 48)) + unat (read32 (mem s) (unat mbi + 44)) < 2 ^ 32"
    and "mmap_at (mem s) (unat (read32 (mem s) (unat mbi + 48)))
      (unat (read32 (mem s) (unat mbi + 48)) + unat (read32 (mem s) (unat mbi + 44))) es"
    and "regions s = []"
  shows "memmap_parse_multiboot mbi s = s\<lparr>regions := take MAX_REGIONS (ram_regions es)\<rparr>"
proof -
  have "unat (read32 (mem s) (unat mbi + 48) + read32 (mem s) (unat mbi + 44)) =
      unat (read32 (mem s) (unat mbi + 48)) + unat (read32 (mem s) (unat mbi + 44))"
    using assms(3) by (simp add: unat_word_ariths)
  then show ?thesis
    using assms multiboot_loop_entries [OF assms(4)] by (simp add: memmap_parse_multiboot_def Let_def)
qed

text \<open>C23. \<open>memmap_parse_multiboot\<close> reads a well-formed multiboot map exactly: after it the
  region table holds the available-RAM entries in order, up to the table's 64 slots, and
  nothing else of the state has changed. (The loop itself ends on any memory content.)\<close>

theorem memmap_parse_multiboot_reads_map:
  assumes "mbi \<noteq> 0" "bit (read32 (mem s) (unat mbi)) 6"
    and "unat (read32 (mem s) (unat mbi + 48)) + unat (read32 (mem s) (unat mbi + 44)) < 2 ^ 32"
    and "mmap_at (mem s) (unat (read32 (mem s) (unat mbi + 48)))
      (unat (read32 (mem s) (unat mbi + 48)) + unat (read32 (mem s) (unat mbi + 44))) es"
    and "regions s = []"
  shows "memmap_parse_multiboot mbi s = s\<lparr>regions := take MAX_REGIONS (ram_regions es)\<rparr>"
  using assms by (rule parse_multiboot_ok)

text \<open>A multiboot information block at 0x1000 with one entry at 0x2000.\<close>

definition grub_mem :: memory where
  "grub_mem = write32 (write64 (write64 (write32 (write32 (write32 (write32 (\<lambda>_. 0)
     0x1000 0x40) 0x102C 24) 0x1030 0x2000) 0x2000 20) 0x2004 0x100000) 0x200C 0x700000) 0x2014 1"

theorem memmap_parse_multiboot_witness:
  "regions (memmap_parse_multiboot 0x1000 (bare_map\<lparr>mem := grub_mem, regions := []\<rparr>)) =
     [\<lparr>rbase = 0x100000, rlength = 0x700000\<rparr>]"
proof -
  have "memmap_parse_multiboot 0x1000 (bare_map\<lparr>mem := grub_mem, regions := []\<rparr>) =
      bare_map\<lparr>mem := grub_mem, regions := take 64 (ram_regions [(20, 0x100000, 0x700000, 1)])\<rparr>"
    using memmap_parse_multiboot_reads_map [of "0x1000" "bare_map\<lparr>mem := grub_mem, regions := []\<rparr>"
        "[(20, 0x100000, 0x700000, 1)]"]
    by (simp add: grub_mem_def mem_simps bit_simps)
  then show ?thesis by (simp add: ram_regions_def)
qed


lemma zero32: "read32 (\<lambda>_. 0) a = 0"
proof -
  have "read_le (\<lambda>_. 0) a n = 0" for n by (induction n arbitrary: a) auto
  then show ?thesis by (simp add: read32_def)
qed


text \<open>\<open>memmap_region_is_safe\<close>, for ranges and regions that do not wrap around the address
  space, answers yes exactly when one region of the map covers the whole range.\<close>

theorem memmap_region_is_safe_exact:
  assumes "unat addr + unat len < 2 ^ 64" "\<forall>r \<in> set (regions s). region_ok r"
  shows "memmap_region_is_safe addr len s \<longleftrightarrow>
    (\<exists>r \<in> set (regions s). unat (rbase r) \<le> unat addr \<and> unat addr + unat len \<le> region_end r)"
proof -
  have "unat (addr + len) = unat addr + unat len" using assms(1) by (intro unat_add_small) simp
  moreover have "unat (rbase r + rlength r) = region_end r" if "r \<in> set (regions s)" for r
    using assms(2) that by (intro unat_add_small) (auto simp: region_ok_def)
  ultimately show ?thesis by (auto simp: memmap_region_is_safe_def word_le_nat_alt)
qed

theorem memmap_region_is_safe_witness:
  "memmap_region_is_safe 0x8000 0x1000 bare_map \<and> \<not> memmap_region_is_safe 0x9E800 0x1000 bare_map"
  using memmap_region_is_safe_exact [of "0x8000" "0x1000" bare_map]
    memmap_region_is_safe_exact [of "0x9E800" "0x1000" bare_map]
  by (simp add: region_ok_def)

text \<open>The hypotheses matter: a range that wraps is called safe, and a region that does not end
  on a page boundary gives out a frame that reaches beyond it.\<close>

lemma memmap_region_is_safe_wraps: "memmap_region_is_safe 0xFFFFFFFFFFFFF000 0x2000 bare_map"
  by (simp add: memmap_region_is_safe_def)

lemma memmap_last_frame_overhangs:
  "\<exists>s'. memmap_alloc_frame (bare_map\<lparr>regions := [\<lparr>rbase = 0x200000, rlength = 0x800\<rparr>]\<rparr>) =
     Some (Inr (0x200000, s'))"
  by (simp add: memmap_alloc_frame_def alloc_loop.simps page_up_def)

end
