(* ===== verification/Paging.thy ===== *)
theory Paging
  imports Memmap
begin

text \<open>
  The page tables (\<open>src/paging64.c\<close>): the two-stage frame allocator, the kernel's identity map,
  MMIO mappings, the address spaces of threads and of the ring-3 process. Tables live in
  memory; an entry is read and written where the C code does it. \<open>frame_pool\<close> is the address
  the linker gave the bootstrap pool, \<open>cr3\<close> the register of each processor. A pointer to a
  table is the \<open>uint64_t\<close> it is cast to. \<open>walk\<close> is the processor's own translation, from the
  architecture manual, and only used in specifications.
\<close>

record paging = memmap +
  frame_pool :: nat
  next_frame :: nat
  kernel_pml4 :: u64
  kernel_pdpt :: u64
  cr3 :: "nat \<Rightarrow> u64"

abbreviation (input) POOL_FRAMES :: nat where "POOL_FRAMES \<equiv> 64"
abbreviation (input) PANIC_OUT_OF_FRAMES :: u64 where "PANIC_OUT_OF_FRAMES \<equiv> 1"
abbreviation (input) DEMO_VA :: nat where "DEMO_VA \<equiv> 0x40000000"
abbreviation (input) USER_CODE_VA :: u64 where "USER_CODE_VA \<equiv> 0x50000000"
abbreviation (input) USER_STACK_PAGE_VA :: u64 where "USER_STACK_PAGE_VA \<equiv> 0x50001000"
abbreviation (input) USER_STACK_TOP :: u64 where "USER_STACK_TOP \<equiv> 0x50002000"

section \<open>Table entries\<close>

definition entry :: "memory \<Rightarrow> u64 \<Rightarrow> nat \<Rightarrow> u64" where
  "entry m t i = read64 m (unat t + 8 * i)"

definition set_entry :: "u64 \<Rightarrow> nat \<Rightarrow> u64 \<Rightarrow> memory \<Rightarrow> memory" where
  "set_entry t i v m = write64 m (unat t + 8 * i) v"

definition zero_frame :: "u64 \<Rightarrow> memory \<Rightarrow> memory" where
  "zero_frame f m = foldl (\<lambda>m i. set_entry f i 0 m) m [0..<512]"

abbreviation put_entry :: "u64 \<Rightarrow> nat \<Rightarrow> u64 \<Rightarrow> 'a paging_scheme \<Rightarrow> 'a paging_scheme" where
  "put_entry t i v s \<equiv> mem_update (set_entry t i v) s"

text \<open>\<open>(va >> n) & 0x1FF\<close>.\<close>

definition va_index :: "nat \<Rightarrow> u64 \<Rightarrow> nat" where
  "va_index n va = unat (drop_bit n va AND 0x1FF)"

section \<open>The operations\<close>

definition alloc_frame :: "'a paging_scheme \<Rightarrow> ('a paging_scheme, u64) presult" where
  "alloc_frame s =
     bind_p (if memmap_is_active s then memmap_alloc_frame s
             else if POOL_FRAMES \<le> next_frame s
             then Some (Inl (neka_panic ''PAGING'' PANIC_OUT_OF_FRAMES s))
             else Some (Inr (of_nat (frame_pool s + 4096 * next_frame s),
                             s\<lparr>next_frame := next_frame s + 1\<rparr>)))
       (\<lambda>frame s. Some (Inr (frame, mem_update (zero_frame frame) s)))"

definition paging_init_kernel_map :: "nat \<Rightarrow> 'a paging_scheme \<Rightarrow> ('a paging_scheme, unit) presult" where
  "paging_init_kernel_map p s =
     bind_p (alloc_frame s) (\<lambda>f s. let s = s\<lparr>kernel_pml4 := f\<rparr> in
     bind_p (alloc_frame s) (\<lambda>f s. let s = s\<lparr>kernel_pdpt := f\<rparr> in
     bind_p (alloc_frame s) (\<lambda>pd s.
       let s = foldl (\<lambda>s i. put_entry pd i (push_bit 21 (of_nat i) OR 0x83) s) s [0..<512];
           s = put_entry (kernel_pdpt s) 0 (pd OR 0x03) s;
           s = put_entry (kernel_pml4 s) 0 (kernel_pdpt s OR 0x03) s
       in Some (Inr ((), s\<lparr>cr3 := (cr3 s)(p := kernel_pml4 s)\<rparr>)))))"

definition paging_get_kernel_cr3 :: "'a paging_scheme \<Rightarrow> u64" where
  "paging_get_kernel_cr3 s = kernel_pml4 s"

definition paging_map_mmio_2mb :: "u64 \<Rightarrow> 'a paging_scheme \<Rightarrow> ('a paging_scheme, unit) presult" where
  "paging_map_mmio_2mb pa s =
     (let pdpt_idx = va_index 30 pa; pd_idx = va_index 21 pa
      in bind_p
           (if \<not> bit (entry (mem s) (kernel_pdpt s) pdpt_idx) 0
            then bind_p (alloc_frame s) (\<lambda>new_pd s.
                   Some (Inr ((), put_entry (kernel_pdpt s) pdpt_idx (new_pd OR 0x03) s)))
            else Some (Inr ((), s)))
           (\<lambda>_ s. let pd = entry (mem s) (kernel_pdpt s) pdpt_idx AND NOT 0xFFF
                  in Some (Inr ((), put_entry pd pd_idx (pa OR 0x93) s))))"

definition get_or_create_next_level ::
    "u64 \<Rightarrow> nat \<Rightarrow> u64 \<Rightarrow> 'a paging_scheme \<Rightarrow> ('a paging_scheme, u64) presult" where
  "get_or_create_next_level table idx flags s =
     bind_p
       (if \<not> bit (entry (mem s) table idx) 0
        then bind_p (alloc_frame s) (\<lambda>new_table s.
               Some (Inr ((), put_entry table idx (new_table OR flags) s)))
        else Some (Inr ((), s)))
       (\<lambda>_ s. Some (Inr (entry (mem s) table idx AND NOT 0xFFF, s)))"

definition get_or_create_pdpt_entry_table ::
    "u64 \<Rightarrow> nat \<Rightarrow> 'a paging_scheme \<Rightarrow> ('a paging_scheme, u64) presult" where
  "get_or_create_pdpt_entry_table pml4_table pml4_idx s =
     bind_p
       (if \<not> bit (entry (mem s) pml4_table pml4_idx) 0
        then bind_p (alloc_frame s) (\<lambda>new_table s.
               Some (Inr ((), put_entry pml4_table pml4_idx (new_table OR 0x03) s)))
        else Some (Inr ((), s)))
       (\<lambda>_ s. Some (Inr (entry (mem s) pml4_table pml4_idx AND NOT 0xFFF, s)))"

definition map_user_page ::
    "u64 \<Rightarrow> u64 \<Rightarrow> u64 \<Rightarrow> 'a paging_scheme \<Rightarrow> ('a paging_scheme, unit) presult" where
  "map_user_page pml4_table va frame s =
     (let user_flags = 0x07
      in bind_p (get_or_create_pdpt_entry_table pml4_table (va_index 39 va) s) (\<lambda>pdpt_t s.
         bind_p (get_or_create_next_level pdpt_t (va_index 30 va) user_flags s) (\<lambda>pd_t s.
         bind_p (get_or_create_next_level pd_t (va_index 21 va) user_flags s) (\<lambda>pt_t s.
           Some (Inr ((), put_entry pt_t (va_index 12 va) (frame OR user_flags) s))))))"

definition user_program :: "u8 list" where
  "user_program = [0xB8, 0x01, 0x00, 0x00, 0x00, 0xBF, 0x58, 0x00, 0x00, 0x00, 0xCD, 0x80, 0xEB, 0xFC]"

definition inherit_kernel_pdpt :: "u64 \<Rightarrow> 'a paging_scheme \<Rightarrow> 'a paging_scheme" where
  "inherit_kernel_pdpt new_pdpt s =
     foldl (\<lambda>s i. if bit (entry (mem s) (kernel_pdpt s) i) 0
                  then put_entry new_pdpt i (entry (mem s) (kernel_pdpt s) i) s else s) s [0..<512]"

definition create_user_process :: "'a paging_scheme \<Rightarrow> ('a paging_scheme, u64) presult" where
  "create_user_process s =
     bind_p (alloc_frame s) (\<lambda>new_pml4 s.
     bind_p (alloc_frame s) (\<lambda>new_pdpt s.
       let s = inherit_kernel_pdpt new_pdpt s;
           s = put_entry new_pml4 0 (new_pdpt OR 0x07) s
       in
     bind_p (alloc_frame s) (\<lambda>code_frame s.
     bind_p (alloc_frame s) (\<lambda>stack_frame s.
       let s = foldl (\<lambda>s i. s\<lparr>mem := (mem s)(unat code_frame + i := user_program ! i)\<rparr>) s
                 [0..<length user_program]
       in
     bind_p (map_user_page new_pml4 USER_CODE_VA code_frame s) (\<lambda>_ s.
     bind_p (map_user_page new_pml4 USER_STACK_PAGE_VA stack_frame s) (\<lambda>_ s.
       Some (Inr (new_pml4, s))))))))"

definition create_address_space :: "'a paging_scheme \<Rightarrow> ('a paging_scheme, u64) presult" where
  "create_address_space s =
     bind_p (alloc_frame s) (\<lambda>new_pml4 s.
     bind_p (alloc_frame s) (\<lambda>new_pdpt s.
     bind_p (alloc_frame s) (\<lambda>priv_pd s.
     bind_p (alloc_frame s) (\<lambda>priv_pt s.
     bind_p (alloc_frame s) (\<lambda>priv_frame s.
       let s = inherit_kernel_pdpt new_pdpt s;
           s = put_entry priv_pt 0 (priv_frame OR 0x03) s;
           s = put_entry priv_pd 0 (priv_pt OR 0x03) s;
           s = put_entry new_pdpt 1 (priv_pd OR 0x03) s;
           s = put_entry new_pml4 0 (new_pdpt OR 0x03) s
       in Some (Inr (new_pml4, s)))))))"

section \<open>Address translation\<close>

text \<open>
  The four-level walk: the physical address and whether the page is writable and accessible
  from ring 3, or \<open>None\<close> for a page fault. A right holds only if every level grants it. Bits 51
  to 12 of an entry are the next table's address; bit 7 makes the entry a large page.
\<close>

definition next_table :: "u64 \<Rightarrow> u64" where
  "next_table e = e AND 0x000FFFFFFFFFF000"

type_synonym rights = "bool \<times> bool"

definition grant :: "rights \<Rightarrow> u64 \<Rightarrow> rights" where
  "grant acc e = (fst acc \<and> bit e 1, snd acc \<and> bit e 2)"

definition walk_pt :: "memory \<Rightarrow> u64 \<Rightarrow> u64 \<Rightarrow> rights \<Rightarrow> (nat \<times> rights) option" where
  "walk_pt m pt va acc =
     (let e = entry m pt (va_index 12 va)
      in if bit e 0 then Some (unat (next_table e) + unat va mod 4096, grant acc e) else None)"

definition walk_pd :: "memory \<Rightarrow> u64 \<Rightarrow> u64 \<Rightarrow> rights \<Rightarrow> (nat \<times> rights) option" where
  "walk_pd m pd va acc =
     (let e = entry m pd (va_index 21 va)
      in if \<not> bit e 0 then None
         else if bit e 7 then Some (unat (e AND 0x000FFFFFFFE00000) + unat va mod 2097152, grant acc e)
         else walk_pt m (next_table e) va (grant acc e))"

definition walk_pdpt :: "memory \<Rightarrow> u64 \<Rightarrow> u64 \<Rightarrow> rights \<Rightarrow> (nat \<times> rights) option" where
  "walk_pdpt m pdpt va acc =
     (let e = entry m pdpt (va_index 30 va)
      in if \<not> bit e 0 then None
         else if bit e 7 then Some (unat (e AND 0x000FFFFFC0000000) + unat va mod 1073741824, grant acc e)
         else walk_pd m (next_table e) va (grant acc e))"

definition walk :: "memory \<Rightarrow> u64 \<Rightarrow> u64 \<Rightarrow> (nat \<times> rights) option" where
  "walk m root va =
     (let e = entry m (next_table root) (va_index 39 va)
      in if \<not> bit e 0 then None else walk_pdpt m (next_table e) va (grant (True, True) e))"

section \<open>Words of page tables\<close>

definition table :: "u64 \<Rightarrow> bool" where
  "table t \<longleftrightarrow> 4096 dvd unat t \<and> unat t < 2 ^ 52"

lemma table_bits:
  assumes "table t" "bit t n"
  shows "12 \<le> n" "n < 52"
proof -
  have "unat (take_bit 12 t) = 0" "unat (take_bit 52 t) = unat t"
    unfolding unsigned_take_bit_eq
    using assms(1) by (simp_all add: table_def take_bit_eq_mod dvd_eq_mod_eq_0)
  then have "take_bit 12 t = 0" "take_bit 52 t = t" by (simp_all only: unat_eq_0 word_unat_eq_iff)
  then show "12 \<le> n" "n < 52"
    using assms(2) by (metis bit_0_eq bit_take_bit_iff bot_apply bot_bool_def not_le_imp_less)
      (metis \<open>take_bit 52 t = t\<close> assms(2) bit_take_bit_iff)
qed

text \<open>Address masks, split into the bits they keep.\<close>

lemma mask_facts:
  "(0x000FFFFFFFFFF000 :: u64) = mask 52 AND NOT (mask 12)"
  "(0x000FFFFFFFE00000 :: u64) = mask 52 AND NOT (mask 21)"
  "(0xFFF :: u64) = mask 12" "(0x1FF :: u64) = mask 9"
  by (simp_all add: mask_eq_exp_minus_1)

lemma and_keep:
  assumes "\<And>n. bit (x :: u64) n \<Longrightarrow> bit y n"
  shows "x AND y = x"
  by (rule bit_word_eqI) (use assms in \<open>auto simp: bit_simps\<close>)

lemma table_keep:
  assumes "table t"
  shows "t AND (mask 52 AND NOT (mask 12)) = t" "t AND NOT (mask 12) = t"
  by (rule and_keep; use table_bits [OF assms] in \<open>force simp: bit_simps\<close>)+

lemma next_table_or:
  assumes "table t" "f AND (mask 52 AND NOT (mask 12)) = 0"
  shows "next_table (t OR f) = t"
  using assms table_keep(1) [OF assms(1)]
  by (simp add: next_table_def mask_facts(1) bit.conj_disj_distrib2)

lemma ptr_or:
  assumes "table t" "f AND NOT (mask 12) = 0"
  shows "(t OR f) AND NOT 0xFFF = t"
  using assms table_keep(2) [OF assms(1)] by (simp only: mask_facts(3) bit.conj_disj_distrib2) simp

lemma next_table_flags [simp]:
  assumes "table t"
  shows "next_table (t OR 3) = t" "next_table (t OR 7) = t" "next_table t = t"
    "(t OR 3) AND - 4096 = t" "(t OR 7) AND - 4096 = t"
proof -
  show "next_table (t OR 3) = t" "next_table (t OR 7) = t" "next_table t = t"
    using next_table_or [OF assms, of 3] next_table_or [OF assms, of 7] next_table_or [OF assms, of 0]
    by (simp_all add: mask_eq_exp_minus_1)
  show "(t OR 3) AND - 4096 = t" "(t OR 7) AND - 4096 = t"
    using ptr_or [OF assms, of 3] ptr_or [OF assms, of 7] by (simp_all add: mask_eq_exp_minus_1)
qed

lemma table_flag_bits [simp]:
  assumes "table t" "n < 12"
  shows "bit (t OR f) n = bit f n"
  using table_bits [OF assms(1), of n] assms(2) by (auto simp: bit_or_iff)

lemma va_index_eq: "va_index n va = unat va div 2 ^ n mod 512"
proof -
  have "unat (drop_bit n va AND mask 9) = take_bit 9 (unat (drop_bit n va))"
    by (simp add: take_bit_eq_mask [symmetric] unsigned_take_bit_eq)
  also have "unat (drop_bit n va) = unat va div 2 ^ n"
    by (simp only: unat_drop_bit_eq) (simp only: drop_bit_eq_div)
  finally show ?thesis by (simp only: va_index_def mask_facts(4) take_bit_eq_mod) simp
qed

lemma va_index_less [simp]: "va_index n va < 512"
  by (simp add: va_index_eq)

section \<open>Reading tables after writes\<close>

lemma table_apart:
  assumes "table t" "table u" "t \<noteq> u"
  shows "unat t + 4096 \<le> unat u \<or> unat u + 4096 \<le> unat t"
proof -
  obtain a b where ab: "unat t = 4096 * a" "unat u = 4096 * b"
    using assms unfolding table_def by (meson dvdE)
  moreover have "a \<noteq> b" using ab assms(3) by (auto simp: word_unat_eq_iff)
  then have "a + 1 \<le> b \<or> b + 1 \<le> a" by linarith
  ultimately show ?thesis by linarith
qed

lemma entry_set_entry [simp]:
  assumes "table t" "table u" "i < 512" "j < 512"
  shows "entry (set_entry t i v m) u j = (if t = u \<and> i = j then v else entry m u j)"
proof (cases "t = u \<and> i = j")
  case False
  then have "unat t + 8 * i + 8 \<le> unat u + 8 * j \<or> unat u + 8 * j + 8 \<le> unat t + 8 * i"
    using table_apart [OF assms(1,2)] assms(3,4) by (cases "t = u") auto
  then show ?thesis using False by (auto simp: entry_def set_entry_def mem_simps)
qed (simp add: entry_def set_entry_def)

lemma set_entry_outside:
  assumes "i < 512" "x < unat t \<or> unat t + 4096 \<le> x"
  shows "set_entry t i v m x = m x"
  using assms by (auto simp: set_entry_def mem_simps)

lemma entry_fill:
  assumes "table t" "table u" "n \<le> 512" "j < 512"
  shows "entry (foldl (\<lambda>m i. set_entry t i (g i) m) m [0..<n]) u j =
    (if t = u \<and> j < n then g j else entry m u j)"
  using assms(3) by (induction n) (use assms in auto)

lemma fill_outside:
  assumes "n \<le> 512" "x < unat t \<or> unat t + 4096 \<le> x"
  shows "foldl (\<lambda>m i. set_entry t i (g i) m) m [0..<n] x = m x"
  using assms(1) by (induction n) (use assms(2) in \<open>auto simp: set_entry_outside\<close>)

lemma entry_zero_frame [simp]:
  assumes "table t" "table u" "j < 512"
  shows "entry (zero_frame t m) u j = (if t = u then 0 else entry m u j)"
  using entry_fill [OF assms(1,2) _ assms(3), of 512 "\<lambda>_. 0"] assms(3) by (simp add: zero_frame_def)

lemma zero_frame_outside: "x < unat t \<or> unat t + 4096 \<le> x \<Longrightarrow> zero_frame t m x = m x"
  using fill_outside [of 512 x t "\<lambda>_. 0" m] by (simp add: zero_frame_def)

lemma entry_byte [simp]:
  assumes "table t" "table u" "t \<noteq> u" "i < 4096" "j < 512"
  shows "entry (m(unat t + i := v)) u j = entry m u j"
  unfolding entry_def using table_apart [OF assms(1-3)] assms(4,5) by (intro read64_cong) auto

text \<open>Copying the kernel's entries.\<close>

definition inherit_mem :: "u64 \<Rightarrow> u64 \<Rightarrow> memory \<Rightarrow> memory" where
  "inherit_mem k t m = foldl (\<lambda>m i. if bit (entry m k i) 0 then set_entry t i (entry m k i) m else m)
     m [0..<512]"

lemma inherit_foldl:
  "foldl (\<lambda>s i. if bit (entry (mem s) (kernel_pdpt s) i) 0
      then put_entry t i (entry (mem s) (kernel_pdpt s) i) s else s) s is =
    s\<lparr>mem := foldl (\<lambda>m i. if bit (entry m (kernel_pdpt s) i) 0
      then set_entry t i (entry m (kernel_pdpt s) i) m else m) (mem s) is\<rparr>"
  by (induction "is" arbitrary: s) (simp_all cong: if_cong)

lemma inherit_kernel_pdpt_mem:
  "inherit_kernel_pdpt t s = s\<lparr>mem := inherit_mem (kernel_pdpt s) t (mem s)\<rparr>"
  by (simp add: inherit_kernel_pdpt_def inherit_mem_def inherit_foldl)

lemma entry_inherit_mem [simp]:
  assumes "table k" "table t" "table u" "k \<noteq> t" "j < 512"
  shows "entry (inherit_mem k t m) u j =
    (if t = u \<and> bit (entry m k j) 0 then entry m k j else entry m u j)"
proof -
  have "entry (foldl (\<lambda>m i. if bit (entry m k i) 0 then set_entry t i (entry m k i) m else m) m [0..<n]) v l =
      (if t = v \<and> l < n \<and> bit (entry m k l) 0 then entry m k l else entry m v l)"
    if "n \<le> 512" "table v" "l < 512" for n v l
    using that by (induction n arbitrary: v l) (use assms in auto)
  from this [of 512 u j] show ?thesis using assms by (simp add: inherit_mem_def)
qed

lemma inherit_mem_outside:
  assumes "x < unat t \<or> unat t + 4096 \<le> x"
  shows "inherit_mem k t m x = m x"
proof -
  have "foldl (\<lambda>m i. if bit (entry m k i) 0 then set_entry t i (entry m k i) m else m) m [0..<n] x = m x"
    if "n \<le> 512" for n
    using that by (induction n) (use assms in \<open>auto simp: set_entry_outside\<close>)
  then show ?thesis by (simp add: inherit_mem_def)
qed

section \<open>The frame allocator as a source of zeroed frames\<close>

locale zeroed_frame_source = frame_source alloc ok avail view oom
  for alloc :: "'s \<Rightarrow> ('s, u64) presult" and ok avail and view :: "'s \<Rightarrow> 'v" and oom +
  fixes content :: "'s \<Rightarrow> memory"
  assumes alloc_zeroes: "alloc s = Some (Inr (t, s')) \<Longrightarrow> content s' = zero_frame t (content s)"
begin

text \<open>The frames left, as the words a call returns.\<close>

definition frames :: "'s \<Rightarrow> u64 list" where
  "frames s = map of_nat (avail s)"

lemma alloc_stepE:
  assumes "ok s" "frames s = t # ts"
  obtains s' where "alloc s = Some (Inr (t, s'))" "ok s'" "frames s' = ts" "view s' = view s"
    "content s' = zero_frame t (content s)"
proof -
  obtain f fs where a: "avail s = f # fs" "t = of_nat f" "ts = map of_nat fs"
    using assms(2) by (auto simp: frames_def)
  obtain s' where "alloc s = Some (Inr (t, s'))" "ok s'" "avail s' = fs" "view s' = view s"
    using alloc_next [OF assms(1) a(1)] a(2) by blast
  then show ?thesis using that alloc_zeroes by (simp add: frames_def a(3))
qed

lemma alloc_oom:
  assumes "ok s" "frames s = []"
  shows "\<exists>e. alloc s = Some (Inl e) \<and> oom e"
  using alloc_empty [OF assms(1)] assms(2) by (simp add: frames_def)

end

definition frames_avail :: "'a paging_scheme \<Rightarrow> nat list" where
  "frames_avail s = (if map_active s then free_frames s
     else map (\<lambda>i. frame_pool s + 4096 * i) [next_frame s..<POOL_FRAMES])"

definition alloc_ok :: "'a paging_scheme \<Rightarrow> bool" where
  "alloc_ok s \<longleftrightarrow> (map_active s \<longrightarrow> memmap_ok s)"

text \<open>What is left of the state when the allocator's own variables and memory are hidden.\<close>

definition strip :: "'a paging_scheme \<Rightarrow> 'a paging_scheme" where
  "strip s = s\<lparr>mem := (\<lambda>_. 0), cur_region := 0, cur_offset := 0, next_frame := 0\<rparr>"

definition paging_oom :: "'a paging_scheme panic \<Rightarrow> bool" where
  "paging_oom e \<longleftrightarrow> (\<exists>t. e = Panic ''MEMMAP'' PANIC_MEMMAP_OOM t \<or> e = Panic ''PAGING'' PANIC_OUT_OF_FRAMES t)"

lemma frames_avail_mem [simp]:
  "frames_avail (mem_update f s) = frames_avail s" "alloc_ok (mem_update f s) = alloc_ok s"
  "strip (mem_update f s) = strip s"
  by (simp_all add: frames_avail_def alloc_ok_def free_frames_def memmap_ok_def strip_def)

lemma frames_avail_kernel [simp]:
  "frames_avail (kernel_pml4_update f s) = frames_avail s" "alloc_ok (kernel_pml4_update f s) = alloc_ok s"
  "frames_avail (kernel_pdpt_update f s) = frames_avail s" "alloc_ok (kernel_pdpt_update f s) = alloc_ok s"
  "frames_avail (cr3_update g s) = frames_avail s" "alloc_ok (cr3_update g s) = alloc_ok s"
  by (simp_all add: frames_avail_def alloc_ok_def free_frames_def memmap_ok_def)

lemma strip_without_cursor:
  assumes "without_cursor s' = without_cursor s"
  shows "strip s' = strip s" "mem s' = mem s" "map_active s' = map_active s"
proof -
  have "strip (without_cursor s') = strip (without_cursor s)" using assms by simp
  then show "strip s' = strip s" by (simp add: strip_def without_cursor_def)
  have "mem (without_cursor s') = mem (without_cursor s)"
    "map_active (without_cursor s') = map_active (without_cursor s)" using assms by simp_all
  then show "mem s' = mem s" "map_active s' = map_active s" by (simp_all add: without_cursor_def)
qed

interpretation pf: zeroed_frame_source alloc_frame alloc_ok frames_avail strip paging_oom mem
proof
  fix s :: "'a paging_scheme"
  assume ok: "alloc_ok s"
  show "\<exists>s'. alloc_frame s = Some (Inr (of_nat f, s')) \<and> alloc_ok s' \<and> frames_avail s' = fs \<and>
      strip s' = strip s" if fs: "frames_avail s = f # fs" for f fs
  proof (cases "map_active s")
    case True
    then obtain s' where s': "memmap_alloc_frame s = Some (Inr (of_nat f, s'))" "memmap_ok s'"
        "free_frames s' = fs" "without_cursor s' = without_cursor s"
      using phys.alloc_next [of s f fs] ok fs by (auto simp: alloc_ok_def frames_avail_def)
    then show ?thesis
      using True strip_without_cursor [OF s'(4)]
      by (auto simp: alloc_frame_def memmap_is_active_def alloc_ok_def frames_avail_def free_frames_def
          memmap_ok_def strip_def)
  next
    case False
    then have "next_frame s < 64" "f = frame_pool s + 4096 * next_frame s"
      "fs = map (\<lambda>i. frame_pool s + 4096 * i) [Suc (next_frame s)..<64]"
      using fs by (auto simp: frames_avail_def upt_conv_Cons split: if_splits) (cases "next_frame s < 64"; simp add: upt_conv_Cons)+
    then show ?thesis
      using False by (simp add: alloc_frame_def memmap_is_active_def alloc_ok_def frames_avail_def strip_def)
  qed
  show "\<exists>e. alloc_frame s = Some (Inl e) \<and> paging_oom e" if none: "frames_avail s = []"
  proof (cases "map_active s")
    case True
    then obtain e where "memmap_alloc_frame s = Some (Inl e)" "memmap_oom e"
      using phys.alloc_empty [of s] ok none by (auto simp: alloc_ok_def frames_avail_def)
    then show ?thesis
      using True by (auto simp: alloc_frame_def memmap_is_active_def paging_oom_def memmap_oom_def)
  next
    case False
    then show ?thesis
      using none by (simp add: frames_avail_def alloc_frame_def memmap_is_active_def paging_oom_def neka_panic_def)
  qed
next
  fix s s' :: "'a paging_scheme" and t
  assume run: "alloc_frame s = Some (Inr (t, s'))"
  show "mem s' = zero_frame t (mem s)"
  proof (cases "map_active s")
    case True
    then obtain s1 where s1: "memmap_alloc_frame s = Some (Inr (t, s1))" "s' = mem_update (zero_frame t) s1"
      using run by (auto simp: alloc_frame_def memmap_is_active_def bind_p_def split: option.splits sum.splits)
    then have "mem s1 = mem s" by (auto simp: memmap_alloc_frame_def Let_def split: option.splits)
    then show ?thesis by (simp add: s1)
  next
    case False
    then show ?thesis
      using run by (auto simp: alloc_frame_def memmap_is_active_def split: if_splits)
  qed
qed

lemma frames_mem [simp]:
  "pf.frames (mem_update f s) = pf.frames s" "pf.frames (kernel_pml4_update h s) = pf.frames s"
  "pf.frames (kernel_pdpt_update h s) = pf.frames s" "pf.frames (cr3_update g s) = pf.frames s"
  by (simp_all add: pf.frames_def)

lemma strip_fields:
  assumes "strip s' = strip s"
  shows "kernel_pml4 s' = kernel_pml4 s" "kernel_pdpt s' = kernel_pdpt s" "cr3 s' = cr3 s"
    "frame_pool s' = frame_pool s" "map_active s' = map_active s"
proof -
  have "kernel_pml4 (strip s') = kernel_pml4 (strip s)" "kernel_pdpt (strip s') = kernel_pdpt (strip s)"
    "cr3 (strip s') = cr3 (strip s)" "frame_pool (strip s') = frame_pool (strip s)"
    "map_active (strip s') = map_active (strip s)" using assms by simp_all
  then show "kernel_pml4 s' = kernel_pml4 s" "kernel_pdpt s' = kernel_pdpt s" "cr3 s' = cr3 s"
    "frame_pool s' = frame_pool s" "map_active s' = map_active s" by (simp_all add: strip_def)
qed

end
