(* ===== verification/Paging_Correct.thy ===== *)
theory Paging_Correct
  imports Paging
begin

text \<open>
  What the page-table code builds, in terms of the processor's translation \<open>walk\<close>: the kernel's
  identity map, MMIO mappings, the private page of a thread's address space and the user pages
  of the ring-3 process; and that building one address space leaves the others alone.
\<close>

section \<open>The kernel's map\<close>

definition kernel_map :: "memory \<Rightarrow> u64 \<Rightarrow> u64 \<Rightarrow> u64 \<Rightarrow> bool" where
  "kernel_map m k4 k3 kd \<longleftrightarrow>
     table k4 \<and> table k3 \<and> table kd \<and> distinct [k4, k3, kd] \<and>
     entry m k4 0 = k3 OR 3 \<and> entry m k3 0 = kd OR 3 \<and>
     (\<forall>i < 512. entry m kd i = push_bit 21 (of_nat i) OR 0x83)"

lemma big_page_bits:
  assumes "i < 512" "bit (push_bit 21 (of_nat i :: u64)) n"
  shows "21 \<le> n" "n < 52"
proof -
  have "take_bit 9 (of_nat i :: u64) = of_nat i"
    using assms(1) unfolding take_bit_of_nat by (simp add: take_bit_eq_mod)
  then have "n - 21 < 9" if "bit (of_nat i :: u64) (n - 21)"
    using that by (metis bit_take_bit_iff)
  then show "21 \<le> n" "n < 52" using assms(2) by (auto simp: bit_push_bit_iff)
qed

lemma big_page:
  assumes "i < 512"
  defines "e \<equiv> push_bit 21 (of_nat i) OR (0x83 :: u64)"
  shows "bit e 0" "bit e 7" "bit e 1" "\<not> bit e 2" "unat (e AND 0x000FFFFFFFE00000) = i * 2097152"
proof -
  have low: "bit e n = bit (0x83 :: u64) n" if "n < 21" for n
    using big_page_bits(1) [OF assms(1), of n] that by (auto simp: e_def bit_or_iff)
  then show "bit e 0" "bit e 7" "bit e 1" "\<not> bit e 2" by (simp_all add: bit_simps)
  have keep: "push_bit 21 (of_nat i) AND (mask 52 AND NOT (mask 21)) = (push_bit 21 (of_nat i) :: u64)"
    by (rule and_keep) (use big_page_bits [OF assms(1)] in \<open>force simp: bit_simps\<close>)
  have "(0x83 :: u64) AND (mask 52 AND NOT (mask 21)) = 0" by (simp add: mask_eq_exp_minus_1)
  then have "e AND 0x000FFFFFFFE00000 = push_bit 21 (of_nat i)"
    using keep by (simp add: e_def mask_facts(2) bit.conj_disj_distrib2)
  also have "\<dots> = of_nat (i * 2097152)" by (simp add: push_bit_eq_mult)
  finally show "unat (e AND 0x000FFFFFFFE00000) = i * 2097152"
    using assms(1) by (simp add: unat_of_nat_small del: of_nat_mult)
qed

lemma split_index: "unat va div 2097152 mod 512 * 2097152 + unat va mod 2097152 = unat va mod 1073741824"
  using mod_mult2_eq [of "unat va" 2097152 512] by simp

lemma walk_pd_identity:
  assumes "\<forall>i < 512. entry m kd i = push_bit 21 (of_nat i) OR 0x83"
  shows "walk_pd m kd va acc = Some (unat va mod 1073741824, fst acc, False)"
proof -
  let ?i = "va_index 21 va"
  have "entry m kd ?i = push_bit 21 (of_nat ?i) OR 0x83" using assms by simp
  then show ?thesis
    using big_page [of ?i] split_index [of va] by (simp add: walk_pd_def grant_def va_index_eq)
qed

text \<open>The parts of a virtual address below the top of the lower half.\<close>

lemma va_parts:
  "unat va < 549755813888 \<Longrightarrow> va_index 39 va = 0"
  "unat va < 1073741824 \<Longrightarrow> va_index 30 va = 0"
  "unat va < 549755813888 \<Longrightarrow> va_index 30 va = unat va div 1073741824"
  "\<lbrakk>549755813888 \<le> unat va; unat va < 281474976710656\<rbrakk> \<Longrightarrow> va_index 39 va \<noteq> 0"
  by (auto simp: va_index_eq)

lemma kernel_walk_low:
  assumes "kernel_map m k4 k3 kd" "unat va < 1073741824"
  shows "walk m k4 va = Some (unat va, True, False)"
  using assms va_parts(1,2) [of va]
  by (simp add: walk_def walk_pdpt_def kernel_map_def walk_pd_identity grant_def)

section \<open>Building the kernel map\<close>

lemma put_entries:
  "foldl (\<lambda>s i. put_entry t i (g i) s) s is = s\<lparr>mem := foldl (\<lambda>m i. set_entry t i (g i) m) (mem s) is\<rparr>"
  by (induction "is" arbitrary: s) auto

lemma init_kernel_map_ok:
  assumes "alloc_ok s" "pf.frames s = k4 # k3 # kd # ts" "table k4" "table k3" "table kd" "distinct [k4, k3, kd]"
  obtains s' where "paging_init_kernel_map p s = Some (Inr ((), s'))"
    "kernel_pml4 s' = k4" "kernel_pdpt s' = k3" "cr3 s' p = k4" "alloc_ok s'" "pf.frames s' = ts"
    "kernel_map (mem s') k4 k3 kd"
    "\<And>i. 0 < i \<Longrightarrow> i < 512 \<Longrightarrow> entry (mem s') k4 i = 0 \<and> entry (mem s') k3 i = 0"
    "strip s' = strip (s\<lparr>kernel_pml4 := k4, kernel_pdpt := k3, cr3 := (cr3 s)(p := k4)\<rparr>)"
    "\<And>x. (\<forall>t \<in> {k4, k3, kd}. x < unat t \<or> unat t + 4096 \<le> x) \<Longrightarrow> mem s' x = mem s x"
proof -
  obtain s1 where 1: "alloc_frame s = Some (Inr (k4, s1))" "alloc_ok s1" "pf.frames s1 = k3 # kd # ts"
      "strip s1 = strip s" "mem s1 = zero_frame k4 (mem s)"
    using pf.alloc_stepE [OF assms(1,2)] .
  obtain s2 where 2: "alloc_frame (s1\<lparr>kernel_pml4 := k4\<rparr>) = Some (Inr (k3, s2))" "alloc_ok s2"
      "pf.frames s2 = kd # ts" "strip s2 = strip (s1\<lparr>kernel_pml4 := k4\<rparr>)" "mem s2 = zero_frame k3 (mem s1)"
    by (rule pf.alloc_stepE [of "s1\<lparr>kernel_pml4 := k4\<rparr>"]) (use 1 in simp_all)
  obtain s3 where 3: "alloc_frame (s2\<lparr>kernel_pdpt := k3\<rparr>) = Some (Inr (kd, s3))" "alloc_ok s3"
      "pf.frames s3 = ts" "strip s3 = strip (s2\<lparr>kernel_pdpt := k3\<rparr>)" "mem s3 = zero_frame kd (mem s2)"
    by (rule pf.alloc_stepE [of "s2\<lparr>kernel_pdpt := k3\<rparr>"]) (use 2 in simp_all)
  have k: "kernel_pml4 s3 = k4" "kernel_pdpt s3 = k3"
    using strip_fields(1,2) [OF 2(4)] strip_fields(1,2) [OF 3(4)] by simp_all
  let ?g = "\<lambda>i. push_bit 21 (of_nat i) OR (0x83 :: u64)"
  define m where "m = set_entry k4 0 (k3 OR 3) (set_entry k3 0 (kd OR 3)
      (foldl (\<lambda>m i. set_entry kd i (?g i) m) (zero_frame kd (zero_frame k3 (zero_frame k4 (mem s)))) [0..<512]))"
  let ?s = "s3\<lparr>mem := m, cr3 := (cr3 s3)(p := k4)\<rparr>"
  have run: "paging_init_kernel_map p s = Some (Inr ((), ?s))"
    unfolding paging_init_kernel_map_def put_entries
    by (simp add: 1 2 3 k m_def Let_def)
  show ?thesis
  proof (rule that [OF run])
    show "kernel_map (mem ?s) k4 k3 kd"
      using assms(3-6) by (simp add: kernel_map_def m_def entry_fill)
    show "entry (mem ?s) k4 i = 0 \<and> entry (mem ?s) k3 i = 0" if "0 < i" "i < 512" for i
      using assms(3-6) that by (auto simp: m_def entry_fill)
    have "strip ?s = (strip s3)\<lparr>cr3 := (cr3 s)(p := k4)\<rparr>"
      using strip_fields(3) [OF 1(4)] strip_fields(3) [OF 2(4)] strip_fields(3) [OF 3(4)] by (intro paging.equality) (simp_all add: strip_def)
    also have "strip s3 = (strip s2)\<lparr>kernel_pdpt := k3\<rparr>" unfolding 3(4) by (simp add: strip_def)
    also have "strip s2 = (strip s1)\<lparr>kernel_pml4 := k4\<rparr>" unfolding 2(4) by (simp add: strip_def)
    finally have e: "strip ?s = (strip s)\<lparr>kernel_pml4 := k4, kernel_pdpt := k3, cr3 := (cr3 s)(p := k4)\<rparr>"
      unfolding 1(4) .
    show "strip ?s = strip (s\<lparr>kernel_pml4 := k4, kernel_pdpt := k3, cr3 := (cr3 s)(p := k4)\<rparr>)"
      unfolding e by (rule paging.equality) (simp_all add: strip_def)
    show "mem ?s x = mem s x" if "\<forall>t \<in> {k4, k3, kd}. x < unat t \<or> unat t + 4096 \<le> x" for x
    proof -
      have "\<forall>i \<in> set is. i < 512 \<Longrightarrow> foldl (\<lambda>m i. set_entry kd i (?g i) m) m0 is x = m0 x" for m0 "is"
        using that by (induction "is" arbitrary: m0) (simp_all add: set_entry_outside)
      then show ?thesis using that by (simp add: m_def set_entry_outside zero_frame_outside)
    qed
  qed (use 3 k in simp_all)
qed

section \<open>Changes confined to a set of frames\<close>

definition only_frames :: "u64 set \<Rightarrow> memory \<Rightarrow> memory \<Rightarrow> bool" where
  "only_frames T m m' \<longleftrightarrow> (\<forall>x. (\<forall>t \<in> T. x < unat t \<or> unat t + 4096 \<le> x) \<longrightarrow> m' x = m x)"

lemma only_frames_entry:
  assumes "only_frames T m m'" "\<forall>t \<in> T. table t" "table u" "u \<notin> T" "j < 512"
  shows "entry m' u j = entry m u j"
  unfolding entry_def
proof (rule read64_cong)
  fix x assume x: "unat u + 8 * j \<le> x" "x < unat u + 8 * j + 8"
  have "x < unat t \<or> unat t + 4096 \<le> x" if "t \<in> T" for t
    using table_apart [of t u] assms(2-5) that x by force
  then show "m' x = m x" using assms(1) by (simp add: only_frames_def)
qed

lemma kernel_map_kept:
  assumes "kernel_map m k4 k3 kd" "only_frames T m m'" "\<forall>t \<in> T. table t" "T \<inter> {k4, k3, kd} = {}"
  shows "kernel_map m' k4 k3 kd"
proof -
  have "entry m' u j = entry m u j" if "u \<in> {k4, k3, kd}" "j < 512" for u j
    using that assms by (intro only_frames_entry [OF assms(2,3)]) (auto simp: kernel_map_def)
  then show ?thesis using assms(1) by (simp add: kernel_map_def)
qed

section \<open>The address space of a thread\<close>

text \<open>
  The tables \<open>create_address_space\<close> leaves: root \<open>t4\<close>, the private chain \<open>t3\<close>, \<open>d\<close>, \<open>pt\<close> to the
  frame \<open>f\<close>, everything else inherited from the kernel's PDPT \<open>k3\<close>.
\<close>

definition space :: "memory \<Rightarrow> u64 \<Rightarrow> u64 \<Rightarrow> u64 \<Rightarrow> u64 \<Rightarrow> u64 \<Rightarrow> u64 \<Rightarrow> bool" where
  "space m k3 t4 t3 d pt f \<longleftrightarrow>
     table t4 \<and> table t3 \<and> table d \<and> table pt \<and> table f \<and>
     entry m t4 0 = t3 OR 3 \<and> entry m t3 1 = d OR 3 \<and> entry m d 0 = pt OR 3 \<and> entry m pt 0 = f OR 3 \<and>
     (\<forall>i < 512. 0 < i \<longrightarrow> entry m t4 i = 0 \<and> entry m d i = 0 \<and> entry m pt i = 0) \<and>
     (\<forall>i < 512. i \<noteq> 1 \<longrightarrow> entry m t3 i = (if bit (entry m k3 i) 0 then entry m k3 i else 0))"

lemma walk_pdpt_inherited:
  assumes "entry m t3 (va_index 30 va) =
    (if bit (entry m k3 (va_index 30 va)) 0 then entry m k3 (va_index 30 va) else 0)"
  shows "walk_pdpt m t3 va acc = walk_pdpt m k3 va acc"
  using assms by (simp add: walk_pdpt_def)

definition space_view :: "memory \<Rightarrow> u64 \<Rightarrow> u64 \<Rightarrow> u64 \<Rightarrow> (nat \<times> rights) option" where
  "space_view m k4 f va =
     (if unat va < 0x40000000 then Some (unat va, True, False)
      else if unat va < DEMO_VA + 4096 then Some (unat f + (unat va - DEMO_VA), True, False)
      else if unat va < 0x80000000 then None
      else if unat va < 0x8000000000 then walk m k4 va
      else None)"

lemma space_walk_private:
  assumes "space m k3 t4 t3 d pt f" "0x40000000 \<le> unat va" "unat va < 0x80000000"
  shows "walk m t4 va =
    (if unat va < DEMO_VA + 4096 then Some (unat f + (unat va - DEMO_VA), True, False) else None)"
proof -
  define x where "x = unat va - 0x40000000"
  have x: "unat va = x + 512 * 2097152" "x < 512 * 2097152" using assms(2,3) by (auto simp: x_def)
  have i: "va_index 39 va = 0" "va_index 30 va = 1" using assms(2,3) by (auto simp: va_index_eq)
  have "unat va div 2097152 = 512 + x div 2097152" unfolding x(1) by (rule div_mult_self1) simp
  moreover have "x div 2097152 < 512" using x(2) by (rule less_mult_imp_div_less)
  ultimately have j: "va_index 21 va = x div 2097152" by (simp add: va_index_eq)
  have y: "unat va = x + 262144 * 4096" using x(1) by simp
  have "unat va div 4096 = 262144 + x div 4096" unfolding y by (rule div_mult_self1) simp
  then have l: "va_index 12 va = x div 4096 mod 512"
    using mod_mult_self2 [of "x div 4096" 512 512] by (simp add: va_index_eq add.commute)
  have l': "unat va mod 4096 = x mod 4096" unfolding y by (rule mod_mult_self1)
  have "walk m t4 va = walk_pd m d va (True, False)"
    using assms(1) i by (simp add: space_def walk_def walk_pdpt_def grant_def)
  also have "\<dots> = (if x < 4096 then Some (unat f + x, True, False) else None)"
  proof (cases "x < 2097152")
    case True
    then have j0: "va_index 21 va = 0" and lt: "x div 4096 < 512"
      using less_mult_imp_div_less [of x 512 4096] by (simp_all add: j)
    have e: "walk_pd m d va (True, False) = walk_pt m pt va (True, False)"
      using assms(1) by (simp add: space_def walk_pd_def grant_def j0)
    show ?thesis
    proof (cases "x < 4096")
      case True
      then have "va_index 12 va = 0" "unat va mod 4096 = x" by (simp_all add: l l')
      then show ?thesis using assms(1) True unfolding e by (simp add: space_def walk_pt_def grant_def)
    next
      case False
      then have "0 < va_index 12 va" using lt by (simp add: l div_greater_zero_iff)
      then have "entry m pt (va_index 12 va) = 0" using assms(1) by (simp add: space_def)
      then show ?thesis using False unfolding e by (simp add: walk_pt_def)
    qed
  next
    case False
    then have "0 < va_index 21 va" by (simp add: j div_greater_zero_iff)
    then have "entry m d (va_index 21 va) = 0" using assms(1) by (simp add: space_def)
    then show ?thesis using False by (simp add: walk_pd_def)
  qed
  finally show ?thesis by (simp add: x(1))
qed

lemma space_walk:
  assumes k: "kernel_map m k4 k3 kd" and sp: "space m k3 t4 t3 d pt f" and va: "unat va < 0x1000000000000"
  shows "walk m t4 va = space_view m k4 f va"
proof -
  consider "unat va < 0x40000000" | "0x40000000 \<le> unat va" "unat va < 0x80000000"
    | "0x80000000 \<le> unat va" "unat va < 0x8000000000" | "0x8000000000 \<le> unat va" by linarith
  then show ?thesis
  proof cases
    case 1
    then have "va_index 39 va = 0" "va_index 30 va = 0" by (simp_all add: va_index_eq)
    then have "walk m t4 va = walk_pdpt m k3 va (True, False)"
      using sp k by (simp add: walk_def space_def grant_def kernel_map_def walk_pdpt_inherited)
    also have "\<dots> = walk m k4 va"
      using k \<open>va_index 39 va = 0\<close> by (simp add: walk_def kernel_map_def grant_def)
    finally show ?thesis using 1 kernel_walk_low [OF k] by (simp add: space_view_def)
  next
    case 2
    then show ?thesis using space_walk_private [OF sp] by (simp add: space_view_def)
  next
    case 3
    then have "va_index 39 va = 0" "va_index 30 va \<noteq> 1" by (auto simp: va_index_eq)
    then have "walk m t4 va = walk m k4 va"
      using sp k by (simp add: walk_def space_def grant_def kernel_map_def walk_pdpt_inherited)
    then show ?thesis using 3 by (simp add: space_view_def)
  next
    case 4
    then have "va_index 39 va \<noteq> 0" using va by (intro va_parts(4)) simp_all
    then have "walk m t4 va = None" using sp by (simp add: walk_def space_def)
    then show ?thesis using 4 by (simp add: space_view_def)
  qed
qed

lemma space_cong:
  assumes "space m k3 t4 t3 d pt f" "\<And>u x. u \<in> {k3, t4, t3, d, pt} \<Longrightarrow> unat u \<le> x \<Longrightarrow> x < unat u + 4096 \<Longrightarrow> m' x = m x"
  shows "space m' k3 t4 t3 d pt f"
proof -
  have "entry m' u j = entry m u j" if "u \<in> {k3, t4, t3, d, pt}" "j < 512" for u j
    unfolding entry_def using that by (intro read64_cong assms(2)) auto
  then show ?thesis using assms(1) by (simp add: space_def)
qed

lemma space_kept:
  assumes "space m k3 t4 t3 d pt f" "table k3" "only_frames T m m'" "\<forall>t \<in> T. table t"
    "T \<inter> {k3, t4, t3, d, pt} = {}"
  shows "space m' k3 t4 t3 d pt f"
proof -
  have "entry m' u j = entry m u j" if "u \<in> {k3, t4, t3, d, pt}" "j < 512" for u j
    using that assms by (intro only_frames_entry [OF assms(3,4)]) (auto simp: space_def)
  then show ?thesis using assms(1) by (simp add: space_def)
qed

lemma create_address_space_ok:
  assumes "alloc_ok s" "pf.frames s = t4 # t3 # d # pt # f # ts" "table (kernel_pdpt s)"
    "\<forall>t \<in> {t4, t3, d, pt, f}. table t \<and> t \<noteq> kernel_pdpt s" "distinct [t4, t3, d, pt, f]"
  obtains s' where "create_address_space s = Some (Inr (t4, s'))" "alloc_ok s'" "pf.frames s' = ts"
    "strip s' = strip s" "space (mem s') (kernel_pdpt s) t4 t3 d pt f"
    "only_frames {t4, t3, d, pt, f} (mem s) (mem s')"
proof -
  obtain s1 where 1: "alloc_frame s = Some (Inr (t4, s1))" "alloc_ok s1" "pf.frames s1 = t3 # d # pt # f # ts"
      "strip s1 = strip s" "mem s1 = zero_frame t4 (mem s)"
    using pf.alloc_stepE [OF assms(1,2)] .
  obtain s2 where 2: "alloc_frame s1 = Some (Inr (t3, s2))" "alloc_ok s2" "pf.frames s2 = d # pt # f # ts"
      "strip s2 = strip s1" "mem s2 = zero_frame t3 (mem s1)"
    using pf.alloc_stepE [OF 1(2,3)] .
  obtain s3 where 3: "alloc_frame s2 = Some (Inr (d, s3))" "alloc_ok s3" "pf.frames s3 = pt # f # ts"
      "strip s3 = strip s2" "mem s3 = zero_frame d (mem s2)"
    using pf.alloc_stepE [OF 2(2,3)] .
  obtain s4 where 4: "alloc_frame s3 = Some (Inr (pt, s4))" "alloc_ok s4" "pf.frames s4 = f # ts"
      "strip s4 = strip s3" "mem s4 = zero_frame pt (mem s3)"
    using pf.alloc_stepE [OF 3(2,3)] .
  obtain s5 where 5: "alloc_frame s4 = Some (Inr (f, s5))" "alloc_ok s5" "pf.frames s5 = ts"
      "strip s5 = strip s4" "mem s5 = zero_frame f (mem s4)"
    using pf.alloc_stepE [OF 4(2,3)] .
  have k: "kernel_pdpt s5 = kernel_pdpt s"
    using strip_fields(2) [OF 1(4)] strip_fields(2) [OF 2(4)] strip_fields(2) [OF 3(4)]
      strip_fields(2) [OF 4(4)] strip_fields(2) [OF 5(4)] by simp
  define m0 where "m0 = inherit_mem (kernel_pdpt s) t3
      (zero_frame f (zero_frame pt (zero_frame d (zero_frame t3 (zero_frame t4 (mem s))))))"
  define m where "m = set_entry t4 0 (t3 OR 3) (set_entry t3 1 (d OR 3) (set_entry d 0 (pt OR 3)
      (set_entry pt 0 (f OR 3) m0)))"
  let ?s = "s5\<lparr>mem := m\<rparr>"
  have run: "create_address_space s = Some (Inr (t4, ?s))"
    unfolding create_address_space_def inherit_kernel_pdpt_mem
    by (simp add: 1 2 3 4 5 k m_def m0_def Let_def)
  show ?thesis
  proof (rule that [OF run])
    show "space (mem ?s) (kernel_pdpt s) t4 t3 d pt f"
      using assms(3-5) by (auto simp: space_def m_def m0_def)
    show "only_frames {t4, t3, d, pt, f} (mem s) (mem ?s)"
      by (auto simp: only_frames_def m_def m0_def set_entry_outside inherit_mem_outside zero_frame_outside)
    show "strip ?s = strip s" using 1 2 3 4 5 by simp
  qed (use 5 in simp_all)
qed

section \<open>The ring-3 process\<close>

lemma copy_bytes:
  "foldl (\<lambda>m i. m(b + i := g i)) m [0..<n] x = (if b \<le> x \<and> x < b + n then g (x - b) else (m x :: u8))"
  by (induction n) auto

definition copy_program :: "u64 \<Rightarrow> memory \<Rightarrow> memory" where
  "copy_program c m = foldl (\<lambda>m i. m(unat c + i := user_program ! i)) m [0..<length user_program]"

lemma copy_program_state:
  "foldl (\<lambda>s i. s\<lparr>mem := (mem s)(unat c + i := user_program ! i)\<rparr>) s is =
    s\<lparr>mem := foldl (\<lambda>m i. m(unat c + i := user_program ! i)) (mem s) is\<rparr>" for s :: "'a paging_scheme"
  by (induction "is" arbitrary: s) auto

lemma length_user_program [simp]: "length user_program = 14"
  by (simp add: user_program_def)

lemma copy_program_at: "i < 14 \<Longrightarrow> copy_program c m (unat c + i) = user_program ! i"
  by (simp add: copy_program_def copy_bytes)

lemma copy_program_outside: "x < unat c \<or> unat c + 4096 \<le> x \<Longrightarrow> copy_program c m x = m x"
  by (auto simp: copy_program_def copy_bytes)

lemma entry_copy_program [simp]:
  assumes "table c" "table u" "c \<noteq> u" "j < 512"
  shows "entry (copy_program c m) u j = entry m u j"
  unfolding entry_def using table_apart [OF assms(1-3)] assms(4)
  by (intro read64_cong copy_program_outside) auto

lemma next_level_present:
  assumes "entry (mem s) t i = u OR 7" "table u"
  shows "get_or_create_next_level t i fl s = Some (Inr (u, s))"
    "get_or_create_pdpt_entry_table t i s = Some (Inr (u, s))"
  using assms by (simp_all add: get_or_create_next_level_def get_or_create_pdpt_entry_table_def)

lemma next_level_absentE:
  assumes "alloc_ok s" "pf.frames s = u # ts" "table t" "table u" "t \<noteq> u" "i < 512" "\<not> bit (entry (mem s) t i) 0"
  obtains s' where "get_or_create_next_level t i 7 s = Some (Inr (u, s'))" "alloc_ok s'" "pf.frames s' = ts"
    "strip s' = strip s" "mem s' = set_entry t i (u OR 7) (zero_frame u (mem s))"
proof -
  obtain s1 where 1: "alloc_frame s = Some (Inr (u, s1))" "alloc_ok s1" "pf.frames s1 = ts"
      "strip s1 = strip s" "mem s1 = zero_frame u (mem s)"
    using pf.alloc_stepE [OF assms(1,2)] .
  have "get_or_create_next_level t i 7 s = Some (Inr (u, put_entry t i (u OR 7) s1))"
    using assms 1 by (simp add: get_or_create_next_level_def)
  then show ?thesis by (rule that) (use 1 in simp_all)
qed

text \<open>The tables of the process: two user pages under one page table, the rest inherited.\<close>

definition user_space :: "memory \<Rightarrow> u64 \<Rightarrow> u64 \<Rightarrow> u64 \<Rightarrow> u64 \<Rightarrow> u64 \<Rightarrow> u64 \<Rightarrow> u64 \<Rightarrow> bool" where
  "user_space m k3 t4 t3 d pt c st \<longleftrightarrow>
     table t4 \<and> table t3 \<and> table d \<and> table pt \<and> table c \<and> table st \<and>
     entry m t4 0 = t3 OR 7 \<and> entry m t3 1 = d OR 7 \<and> entry m d 128 = pt OR 7 \<and>
     entry m pt 0 = c OR 7 \<and> entry m pt 1 = st OR 7 \<and>
     (\<forall>i < 512. 0 < i \<longrightarrow> entry m t4 i = 0) \<and> (\<forall>i < 512. i \<noteq> 128 \<longrightarrow> entry m d i = 0) \<and>
     (\<forall>i < 512. 1 < i \<longrightarrow> entry m pt i = 0) \<and>
     (\<forall>i < 512. i \<noteq> 1 \<longrightarrow> entry m t3 i = (if bit (entry m k3 i) 0 then entry m k3 i else 0))"

lemma user_indices:
  "va_index 39 0x50000000 = 0" "va_index 30 0x50000000 = 1" "va_index 21 0x50000000 = 128" "va_index 12 0x50000000 = 0"
  "va_index 39 0x50001000 = 0" "va_index 30 0x50001000 = 1" "va_index 21 0x50001000 = 128" "va_index 12 0x50001000 = 1"
  by (simp_all add: va_index_eq)

lemma create_user_process_ok:
  assumes "alloc_ok s" "pf.frames s = t4 # t3 # c # st # d # pt # ts" "table (kernel_pdpt s)"
    "\<forall>t \<in> {t4, t3, c, st, d, pt}. table t \<and> t \<noteq> kernel_pdpt s" "distinct [t4, t3, c, st, d, pt]"
    "\<not> bit (entry (mem s) (kernel_pdpt s) 1) 0"
  obtains s' where "create_user_process s = Some (Inr (t4, s'))" "alloc_ok s'" "pf.frames s' = ts"
    "strip s' = strip s" "user_space (mem s') (kernel_pdpt s) t4 t3 d pt c st"
    "only_frames {t4, t3, c, st, d, pt} (mem s) (mem s')"
    "\<And>i. i < 14 \<Longrightarrow> mem s' (unat c + i) = user_program ! i"
proof -
  obtain s1 where 1: "alloc_frame s = Some (Inr (t4, s1))" "alloc_ok s1" "pf.frames s1 = t3 # c # st # d # pt # ts"
      "strip s1 = strip s" "mem s1 = zero_frame t4 (mem s)"
    using pf.alloc_stepE [OF assms(1,2)] .
  obtain s2 where 2: "alloc_frame s1 = Some (Inr (t3, s2))" "alloc_ok s2" "pf.frames s2 = c # st # d # pt # ts"
      "strip s2 = strip s1" "mem s2 = zero_frame t3 (mem s1)"
    using pf.alloc_stepE [OF 1(2,3)] .
  have k: "kernel_pdpt s2 = kernel_pdpt s"
    using strip_fields(2) [OF 1(4)] strip_fields(2) [OF 2(4)] by simp
  define m2 where "m2 = set_entry t4 0 (t3 OR 7) (inherit_mem (kernel_pdpt s) t3 (zero_frame t3 (zero_frame t4 (mem s))))"
  obtain s3 where 3: "alloc_frame (s2\<lparr>mem := m2\<rparr>) = Some (Inr (c, s3))" "alloc_ok s3"
      "pf.frames s3 = st # d # pt # ts" "strip s3 = strip s2" "mem s3 = zero_frame c m2"
    by (rule pf.alloc_stepE [of "s2\<lparr>mem := m2\<rparr>"]) (use 2 in simp_all)
  obtain s4 where 4: "alloc_frame s3 = Some (Inr (st, s4))" "alloc_ok s4" "pf.frames s4 = d # pt # ts"
      "strip s4 = strip s3" "mem s4 = zero_frame st (mem s3)"
    using pf.alloc_stepE [OF 3(2,3)] .
  define m4 where "m4 = copy_program c (mem s4)"
  note tabs = assms(3-6)
  obtain s5 where 5: "get_or_create_next_level t3 1 7 (s4\<lparr>mem := m4\<rparr>) = Some (Inr (d, s5))" "alloc_ok s5"
      "pf.frames s5 = pt # ts" "strip s5 = strip s4" "mem s5 = set_entry t3 1 (d OR 7) (zero_frame d m4)"
    by (rule next_level_absentE [of "s4\<lparr>mem := m4\<rparr>" d "pt # ts" t3 1])
      (use tabs 4 3 in \<open>auto simp: m4_def m2_def\<close>)
  obtain s6 where 6: "get_or_create_next_level d 128 7 s5 = Some (Inr (pt, s6))" "alloc_ok s6"
      "pf.frames s6 = ts" "strip s6 = strip s5" "mem s6 = set_entry d 128 (pt OR 7) (zero_frame pt (mem s5))"
    by (rule next_level_absentE [OF 5(2,3), of d 128]) (use tabs 5 in auto)
  define m7 where "m7 = set_entry pt 0 (c OR 7) (mem s6)"
  define m8 where "m8 = set_entry pt 1 (st OR 7) m7"
  note ms = m8_def m7_def 6(5) 5(5) m4_def 4(5) 3(5) m2_def
  have e4: "entry m4 t4 0 = t3 OR 7" using tabs by (auto simp: ms)
  have first: "map_user_page t4 0x50000000 c (s4\<lparr>mem := m4\<rparr>) = Some (Inr ((), s6\<lparr>mem := m7\<rparr>))"
    using next_level_present(2) [of "s4\<lparr>mem := m4\<rparr>" t4 0 t3] e4 tabs 5(1) 6(1)
    by (simp add: map_user_page_def user_indices m7_def)
  have "entry m7 t4 0 = t3 OR 7" "entry m7 t3 1 = d OR 7" "entry m7 d 128 = pt OR 7"
    using tabs by (auto simp: ms)
  then have second: "map_user_page t4 0x50001000 st (s6\<lparr>mem := m7\<rparr>) = Some (Inr ((), s6\<lparr>mem := m8\<rparr>))"
    using next_level_present [of "s6\<lparr>mem := m7\<rparr>"] tabs by (simp add: map_user_page_def user_indices m8_def)
  have m4': "m4 = copy_program c (zero_frame st (zero_frame c m2))" by (simp add: m4_def 4(5) 3(5))
  have run: "create_user_process s = Some (Inr (t4, s6\<lparr>mem := m8\<rparr>))"
    unfolding create_user_process_def inherit_kernel_pdpt_mem copy_program_state copy_program_def [symmetric]
    using first second by (simp add: 1 2 3 4 k m2_def [symmetric] m4' [symmetric] Let_def comp_def)
  have only: "only_frames {t4, t3, c, st, d, pt} (mem s) m8"
    by (auto simp: only_frames_def ms set_entry_outside inherit_mem_outside zero_frame_outside
        copy_program_outside)
  have code: "m8 (unat c + i) = user_program ! i" if "i < 14" for i
  proof -
    have away: "unat c + i < unat t \<or> unat t + 4096 \<le> unat c + i" if "t \<in> {pt, d, t3}" for t
      using table_apart [of c t] tabs that \<open>i < 14\<close> by auto
    have "m8 (unat c + i) = m4 (unat c + i)"
      using away by (simp add: m8_def m7_def 6(5) 5(5) set_entry_outside zero_frame_outside)
    then show ?thesis using that by (simp add: m4_def copy_program_at)
  qed
  show ?thesis
  proof (rule that [OF run])
    show "user_space (mem (s6\<lparr>mem := m8\<rparr>)) (kernel_pdpt s) t4 t3 d pt c st"
      using tabs by (auto simp: user_space_def ms)
    show "strip (s6\<lparr>mem := m8\<rparr>) = strip s" using 1 2 3 4 5 6 by simp
  qed (use 6 only code in simp_all)
qed

lemma walk_pt_user: "walk_pt m pt va acc = Some (pa, w, u) \<Longrightarrow> u \<Longrightarrow> snd acc"
  by (auto simp: walk_pt_def grant_def Let_def split: if_splits)

lemma walk_pd_user: "walk_pd m pd va acc = Some (pa, w, u) \<Longrightarrow> u \<Longrightarrow> snd acc"
  by (auto simp: walk_pd_def grant_def Let_def split: if_splits dest: walk_pt_user)

lemma walk_pdpt_user:
  assumes "walk_pdpt m t va acc = Some (pa, w, u)" u
  shows "bit (entry m t (va_index 30 va)) 2"
  using assms by (auto simp: walk_pdpt_def grant_def Let_def split: if_splits dest: walk_pd_user)

text \<open>Only the two user pages are open to ring 3.\<close>

lemma user_space_private:
  assumes "user_space m k3 t4 t3 d pt c st" "0x40000000 \<le> unat va" "unat va < 0x80000000"
  shows "walk m t4 va =
    (if 0x50000000 \<le> unat va \<and> unat va < 0x50001000 then Some (unat c + (unat va - 0x50000000), True, True)
     else if 0x50001000 \<le> unat va \<and> unat va < 0x50002000 then Some (unat st + (unat va - 0x50001000), True, True)
     else None)"
proof -
  have i: "va_index 39 va = 0" "va_index 30 va = 1" using assms(2,3) by (auto simp: va_index_eq)
  have w: "walk m t4 va = walk_pd m d va (True, True)"
    using assms(1) i by (simp add: user_space_def walk_def walk_pdpt_def grant_def)
  define q where "q = unat va div 2097152"
  have q: "512 \<le> q" "q < 1024"
    using assms(2,3) div_le_mono [of "0x40000000" "unat va" 2097152]
      less_mult_imp_div_less [of "unat va" 1024 2097152] by (simp_all add: q_def)
  then have q': "va_index 21 va = q - 512" using le_mod_geq [of 512 q] by (simp add: va_index_eq q_def [symmetric])
  have page: "q = 640 \<longleftrightarrow> 0x50000000 \<le> unat va \<and> unat va < 0x50200000"
    unfolding q_def by (subst div_range) simp_all
  show ?thesis
  proof (cases "q = 640")
    case False
    then have "entry m d (va_index 21 va) = 0" using q q' assms(1) by (simp add: user_space_def)
    then show ?thesis using False page unfolding w by (auto simp: walk_pd_def)
  next
    case True
    then have r: "0x50000000 \<le> unat va" "unat va < 0x50200000" using page by simp_all
    define x where "x = unat va - 0x50000000"
    have x: "unat va = x + 327680 * 4096" "x < 512 * 4096" using r by (simp_all add: x_def)
    have d12: "unat va div 4096 = 327680 + x div 4096" unfolding x(1) by (rule div_mult_self1) simp
    have lt: "x div 4096 < 512" using x(2) by (rule less_mult_imp_div_less)
    have l: "va_index 12 va = x div 4096"
      using mod_mult_self2 [of "x div 4096" 512 640] lt by (simp add: va_index_eq d12 add.commute)
    have l': "unat va mod 4096 = x mod 4096" unfolding x(1) by (rule mod_mult_self1)
    have "walk_pd m d va (True, True) = walk_pt m pt va (True, True)"
      using assms(1) True by (simp add: user_space_def walk_pd_def grant_def q')
    also have "\<dots> = (if x < 4096 then Some (unat c + x, True, True)
        else if x < 8192 then Some (unat st + (x - 4096), True, True) else None)"
    proof -
      have "x div 4096 = 0 \<longleftrightarrow> x < 4096" "x div 4096 = 1 \<longleftrightarrow> 4096 \<le> x \<and> x < 8192"
        by (simp_all add: div_range)
      then consider "x div 4096 = 0" "x < 4096" | "x div 4096 = 1" "4096 \<le> x" "x < 8192"
        | "1 < x div 4096" "8192 \<le> x" by linarith
      then show ?thesis
      proof cases
        case 1
        then show ?thesis using assms(1) by (simp add: user_space_def walk_pt_def grant_def l l')
      next
        case 2
        have "x mod 4096 = x - 4096" using le_mod_geq [OF 2(2)] 2(3) by simp
        then show ?thesis using assms(1) 2 by (simp add: user_space_def walk_pt_def grant_def l l')
      next
        case 3
        then have "entry m pt (x div 4096) = 0" using assms(1) lt by (simp add: user_space_def)
        then show ?thesis using 3 by (simp add: walk_pt_def l)
      qed
    qed
    finally show ?thesis unfolding w by (simp add: x(1))
  qed
qed

lemma user_space_rights:
  assumes us: "user_space m k3 t4 t3 d pt c st" and sup: "\<forall>i < 512. \<not> bit (entry m k3 i) 2"
    and va: "unat va < 0x1000000000000" and w: "walk m t4 va = Some (pa, wr, True)"
  shows "0x50000000 \<le> unat va \<and> unat va < 0x50002000"
proof -
  have i4: "va_index 39 va = 0"
    using w us by (cases "va_index 39 va = 0") (auto simp: walk_def user_space_def)
  then have w3: "walk_pdpt m t3 va (True, True) = Some (pa, wr, True)"
    using w us by (simp add: walk_def user_space_def grant_def)
  have "va_index 30 va = 1"
  proof (rule ccontr)
    assume "va_index 30 va \<noteq> 1"
    then have "entry m t3 (va_index 30 va) =
        (if bit (entry m k3 (va_index 30 va)) 0 then entry m k3 (va_index 30 va) else 0)"
      using us by (simp add: user_space_def)
    then show False using walk_pdpt_user [OF w3] sup by (auto split: if_splits)
  qed
  moreover have "unat va < 0x8000000000" using va_parts(4) [of va] i4 va by fastforce
  ultimately have "unat va div 1073741824 = 1" using va_parts(3) [of va] by simp
  then have "0x40000000 \<le> unat va" "unat va < 0x80000000" by (simp_all add: div_range)
  then show ?thesis using user_space_private [OF us] w by (auto split: if_splits)
qed


section \<open>MMIO mappings\<close>

text \<open>
  The kernel's tree: \<open>P\<close> names the page directory behind each present PDPT entry; the directories
  hold only large pages.
\<close>

definition kernel_tree :: "memory \<Rightarrow> u64 \<Rightarrow> u64 \<Rightarrow> (nat \<rightharpoonup> u64) \<Rightarrow> bool" where
  "kernel_tree m k4 k3 P \<longleftrightarrow>
     table k4 \<and> table k3 \<and> k4 \<noteq> k3 \<and> entry m k4 0 = k3 OR 3 \<and>
     (\<forall>i d. P i = Some d \<longrightarrow> i < 512 \<and> table d \<and> d \<noteq> k4 \<and> d \<noteq> k3 \<and> entry m k3 i = d OR 3 \<and>
        (\<forall>j < 512. bit (entry m d j) 0 \<longrightarrow> bit (entry m d j) 7)) \<and>
     (\<forall>i < 512. P i = None \<longrightarrow> \<not> bit (entry m k3 i) 0) \<and>
     (\<forall>i j d. P i = Some d \<longrightarrow> P j = Some d \<longrightarrow> i = j)"

definition tree_view :: "memory \<Rightarrow> (nat \<rightharpoonup> u64) \<Rightarrow> u64 \<Rightarrow> (nat \<times> rights) option" where
  "tree_view m P va =
     (case P (va_index 30 va) of None \<Rightarrow> None
      | Some d \<Rightarrow> let e = entry m d (va_index 21 va)
                 in if bit e 0 then Some (unat (e AND 0x000FFFFFFFE00000) + unat va mod 2097152, bit e 1, False)
                    else None)"

lemma kernel_tree_walk:
  assumes "kernel_tree m k4 k3 P" "unat va < 0x8000000000"
  shows "walk m k4 va = tree_view m P va"
proof -
  have t: "table k4" "table k3" "entry m k4 0 = k3 OR 3" using assms(1) by (simp_all add: kernel_tree_def)
  have i: "va_index 39 va = 0" using assms(2) by (simp add: va_parts(1))
  have w: "walk m k4 va = walk_pdpt m k3 va (True, False)" using t i by (simp add: walk_def grant_def)
  show ?thesis
  proof (cases "P (va_index 30 va)")
    case None
    then have "\<not> bit (entry m k3 (va_index 30 va)) 0" using assms(1) by (simp add: kernel_tree_def)
    then show ?thesis using None by (simp add: w walk_pdpt_def tree_view_def)
  next
    case (Some d)
    then have d: "table d" "entry m k3 (va_index 30 va) = d OR 3"
      "\<And>j. j < 512 \<Longrightarrow> bit (entry m d j) 0 \<Longrightarrow> bit (entry m d j) 7"
      using assms(1) by (auto simp: kernel_tree_def)
    have "walk_pdpt m k3 va (True, False) = walk_pd m d va (True, False)"
      using d(1,2) by (simp add: walk_pdpt_def grant_def)
    then show ?thesis
      using Some d(3) [of "va_index 21 va"] by (auto simp: w walk_pd_def tree_view_def grant_def Let_def)
  qed
qed

lemma mmio_entry:
  fixes pa :: u64
  assumes "2097152 dvd unat pa" "unat pa < 2 ^ 52"
  shows "bit (pa OR 0x93) 0" "bit (pa OR 0x93) 1" "bit (pa OR 0x93) 7"
    "(pa OR 0x93) AND 0x000FFFFFFFE00000 = pa"
proof -
  have "unat (take_bit 21 pa) = 0" "unat (take_bit 52 pa) = unat pa"
    unfolding unsigned_take_bit_eq using assms by (simp_all add: take_bit_eq_mod dvd_eq_mod_eq_0)
  then have t: "take_bit 21 pa = 0" "take_bit 52 pa = pa" by (simp_all only: unat_eq_0 word_unat_eq_iff)
  have b: "21 \<le> n" "n < 52" if "bit pa n" for n
    using that t by (metis bit_0_eq bit_take_bit_iff bot_apply bot_bool_def not_le_imp_less)
      (metis that t(2) bit_take_bit_iff)
  have "pa AND (mask 52 AND NOT (mask 21)) = pa"
    by (rule and_keep) (use b in \<open>force simp: bit_simps\<close>)
  moreover have "(0x93 :: u64) AND (mask 52 AND NOT (mask 21)) = 0" by (simp add: mask_eq_exp_minus_1)
  ultimately show "(pa OR 0x93) AND 0x000FFFFFFFE00000 = pa"
    by (simp add: mask_facts(2) bit.conj_disj_distrib2)
  show "bit (pa OR 0x93) 0" "bit (pa OR 0x93) 1" "bit (pa OR 0x93) 7" by (simp_all add: bit_simps)
qed

text \<open>Finding or creating the directory: afterwards it is in the tree.\<close>

lemma mmio_directory:
  assumes tree: "kernel_tree (mem s) k4 (kernel_pdpt s) P" and i: "i < 512"
    and ok: "alloc_ok s" "pf.frames s = u # ts" "table u" "u \<notin> {k4, kernel_pdpt s}" "u \<notin> ran P"
  obtains s1 d P1 where
    "(if \<not> bit (entry (mem s) (kernel_pdpt s) i) 0
      then bind_p (alloc_frame s) (\<lambda>new_pd s. Some (Inr ((), put_entry (kernel_pdpt s) i (new_pd OR 0x03) s)))
      else Some (Inr ((), s))) = Some (Inr ((), s1))"
    "kernel_tree (mem s1) k4 (kernel_pdpt s) P1" "P1 i = Some d" "strip s1 = strip s" "alloc_ok s1"
    "\<And>va. tree_view (mem s1) P1 va = tree_view (mem s) P va"
    "P1 = P \<and> pf.frames s1 = u # ts \<or> P1 = P(i \<mapsto> u) \<and> pf.frames s1 = ts"
    "only_frames {kernel_pdpt s, u} (mem s) (mem s1)"
proof (cases "P i")
  case (Some d)
  then have "bit (entry (mem s) (kernel_pdpt s) i) 0" using tree by (auto simp: kernel_tree_def)
  then show ?thesis using that [of s P d] tree Some ok(1,2) by (simp add: only_frames_def)
next
  case None
  let ?k3 = "kernel_pdpt s"
  have absent: "\<not> bit (entry (mem s) ?k3 i) 0" using tree None i by (simp add: kernel_tree_def)
  obtain s1 where 1: "alloc_frame s = Some (Inr (u, s1))" "alloc_ok s1" "strip s1 = strip s"
      "mem s1 = zero_frame u (mem s)" "pf.frames s1 = ts"
    using pf.alloc_stepE [OF ok(1,2)] .
  let ?s = "put_entry ?k3 i (u OR 3) s1"
  have k: "kernel_pdpt s1 = ?k3" using strip_fields(2) [OF 1(3)] .
  have tabs: "table k4" "table ?k3" using tree by (simp_all add: kernel_tree_def)
  have nu: "P j \<noteq> Some u" for j using ok(5) by (auto simp: ran_def)
  have old: "entry (mem ?s) d j = entry (mem s) d j" if "P l = Some d" "j < 512" for d j l
    using that tree ok(3) nu [of l] tabs i by (auto simp: 1 kernel_tree_def)
  have "kernel_tree (mem ?s) k4 ?k3 (P(i \<mapsto> u))"
    unfolding kernel_tree_def
  proof (intro conjI allI impI)
    fix l d assume "(P(i \<mapsto> u)) l = Some d"
    then consider "l = i" "d = u" | "l \<noteq> i" "P l = Some d" by (auto split: if_splits)
    then show "l < 512" "table d" "d \<noteq> k4" "d \<noteq> ?k3" "entry (mem ?s) ?k3 l = d OR 3"
      "\<And>j. j < 512 \<Longrightarrow> bit (entry (mem ?s) d j) 0 \<Longrightarrow> bit (entry (mem ?s) d j) 7"
      using tree i ok(3,4) tabs old by (cases; auto simp: kernel_tree_def 1)+
  qed (use tree i ok(3,4) tabs nu in \<open>auto simp: kernel_tree_def 1 split: if_splits\<close>)
  moreover have "tree_view (mem ?s) (P(i \<mapsto> u)) va = tree_view (mem s) P va" for va
    using None old ok(3,4) tabs i by (auto simp: tree_view_def 1 split: option.splits)
  moreover have "only_frames {?k3, u} (mem s) (mem ?s)"
    using i by (auto simp: only_frames_def 1 set_entry_outside zero_frame_outside)
  ultimately show ?thesis
    using that [of ?s "P(i \<mapsto> u)" u] absent 1 k by simp
qed

lemma same_big_page:
  assumes "unat va < 0x8000000000" "unat pa < 0x8000000000"
  shows "va_index 30 va = va_index 30 pa \<and> va_index 21 va = va_index 21 pa \<longleftrightarrow>
    unat va div 2097152 = unat pa div 2097152"
proof -
  have "x div 1073741824 = x div 2097152 div 512" for x :: nat by (simp add: div_mult2_eq [symmetric])
  then have "va_index 30 va = unat va div 2097152 div 512" "va_index 30 pa = unat pa div 2097152 div 512"
    using va_parts(3) assms by simp_all
  then show ?thesis
    by (auto simp: va_index_eq) (metis div_mult_mod_eq)
qed

lemma map_mmio_ok:
  assumes tree: "kernel_tree (mem s) k4 (kernel_pdpt s) P" and pa: "2097152 dvd unat pa" "unat pa < 0x8000000000"
    and ok: "alloc_ok s" "pf.frames s = u # ts" "table u" "u \<notin> {k4, kernel_pdpt s}" "u \<notin> ran P"
  obtains s' P' where "paging_map_mmio_2mb pa s = Some (Inr ((), s'))" "strip s' = strip s" "alloc_ok s'"
    "kernel_tree (mem s') k4 (kernel_pdpt s) P'"
    "P' = P \<and> pf.frames s' = u # ts \<or> P' = P(va_index 30 pa \<mapsto> u) \<and> pf.frames s' = ts"
    "\<And>va. unat va < 0x8000000000 \<Longrightarrow> walk (mem s') k4 va =
      (if unat va div 2097152 = unat pa div 2097152 then Some (unat va, True, False) else walk (mem s) k4 va)"
    "only_frames (insert (kernel_pdpt s) (insert u (ran P))) (mem s) (mem s')"
proof -
  let ?i = "va_index 30 pa" and ?j = "va_index 21 pa" and ?k3 = "kernel_pdpt s"
  obtain s1 d P1 where 1:
    "(if \<not> bit (entry (mem s) ?k3 ?i) 0
      then bind_p (alloc_frame s) (\<lambda>new_pd s. Some (Inr ((), put_entry (kernel_pdpt s) ?i (new_pd OR 0x03) s)))
      else Some (Inr ((), s))) = Some (Inr ((), s1))"
    and t1: "kernel_tree (mem s1) k4 ?k3 P1" and d: "P1 ?i = Some d" and st: "strip s1 = strip s" "alloc_ok s1"
    and v1: "\<And>va. tree_view (mem s1) P1 va = tree_view (mem s) P va"
    and f1: "P1 = P \<and> pf.frames s1 = u # ts \<or> P1 = P(?i \<mapsto> u) \<and> pf.frames s1 = ts"
    and o1: "only_frames {?k3, u} (mem s) (mem s1)"
    by (rule mmio_directory [OF tree _ ok, of ?i]) simp_all
  have k: "kernel_pdpt s1 = ?k3" using strip_fields(2) [OF st(1)] .
  have tabs: "table k4" "table ?k3" "table d" "d \<noteq> k4" "d \<noteq> ?k3" "entry (mem s1) ?k3 ?i = d OR 3"
    using t1 d by (auto simp: kernel_tree_def)
  let ?s = "put_entry d ?j (pa OR 0x93) s1"
  have run: "paging_map_mmio_2mb pa s = Some (Inr ((), ?s))"
    unfolding paging_map_mmio_2mb_def Let_def 1 using tabs k by simp
  note e = mmio_entry [OF pa(1)]
  have pa52: "unat pa < 2 ^ 52" using pa(2) by simp
  have t2: "kernel_tree (mem ?s) k4 ?k3 P1"
    using t1 tabs e(3) [OF pa52] by (auto simp: kernel_tree_def)
  have "walk (mem ?s) k4 va = (if unat va div 2097152 = unat pa div 2097152 then Some (unat va, True, False)
      else walk (mem s) k4 va)" if va: "unat va < 0x8000000000" for va
  proof (cases "unat va div 2097152 = unat pa div 2097152")
    case True
    then have idx: "va_index 30 va = ?i" "va_index 21 va = ?j" using same_big_page [OF va pa(2)] by simp_all
    have "unat pa + unat va mod 2097152 = unat va"
      using True div_mult_mod_eq [of "unat va" 2097152] pa(1) by (simp add: dvd_div_mult_self)
    then show ?thesis
      using True idx d tabs e [OF pa52] kernel_tree_walk [OF t2 va] by (simp add: tree_view_def)
  next
    case False
    then have idx: "va_index 30 va = ?i \<Longrightarrow> va_index 21 va \<noteq> ?j" using same_big_page [OF va pa(2)] by blast
    have "entry (mem ?s) q (va_index 21 va) = entry (mem s1) q (va_index 21 va)" if "P1 (va_index 30 va) = Some q" for q
      using that idx t1 d tabs by (auto simp: kernel_tree_def)
    then have "tree_view (mem ?s) P1 va = tree_view (mem s1) P1 va"
      by (auto simp: tree_view_def split: option.splits)
    then show ?thesis
      using False v1 kernel_tree_walk [OF t2 va] kernel_tree_walk [OF tree va] by simp
  qed
  moreover have "d = u \<or> d \<in> ran P" using f1 d by (auto simp: ran_def)
  then have "only_frames (insert ?k3 (insert u (ran P))) (mem s) (mem ?s)"
    using o1 by (auto simp: only_frames_def set_entry_outside)
  ultimately show ?thesis using that [OF run _ _ t2] st f1 by auto
qed

section \<open>Fresh frames\<close>

text \<open>The frames the allocator has left are page tables in shape, different from each other
  and from the ones in use.\<close>

definition fresh :: "'a paging_scheme \<Rightarrow> u64 set \<Rightarrow> bool" where
  "fresh s U \<longleftrightarrow> alloc_ok s \<and> distinct (map of_nat (frames_avail s) :: u64 list) \<and>
     (\<forall>t \<in> of_nat ` set (frames_avail s). table t \<and> t \<notin> U)"

lemma freshI:
  assumes "alloc_ok s" "distinct (frames_avail s)"
    "\<And>f. f \<in> set (frames_avail s) \<Longrightarrow> 4096 dvd f \<and> f < 2 ^ 52 \<and> of_nat f \<notin> U"
  shows "fresh s U"
proof -
  have u: "unat (of_nat f :: u64) = f" if "f \<in> set (frames_avail s)" for f
    using assms(3) [OF that] by (intro unat_of_nat_small) simp
  then have "inj_on (of_nat :: nat \<Rightarrow> u64) (set (frames_avail s))"
    by (intro inj_on_inverseI [where g = unat]) simp
  then show ?thesis using assms u by (auto simp: fresh_def distinct_map table_def)
qed

lemma freshD:
  assumes "fresh s U"
  shows "alloc_ok s" "distinct (pf.frames s)" "\<And>t. t \<in> set (pf.frames s) \<Longrightarrow> table t \<and> t \<notin> U"
  using assms by (auto simp: fresh_def pf.frames_def)

text \<open>Before the memory map is active, frames come from the pool; afterwards, from outside the
  reserved range, where the pool and all tables built from it lie.\<close>

lemma pool_fresh:
  assumes "\<not> map_active s" "4096 dvd frame_pool s" "frame_pool s + POOL_FRAMES * 4096 \<le> 2 ^ 52"
    "\<And>t. t \<in> U \<Longrightarrow> unat t < frame_pool s + 4096 * next_frame s"
  shows "fresh s U"
proof (rule freshI)
  show "alloc_ok s" using assms(1) by (simp add: alloc_ok_def)
  show "distinct (frames_avail s)" using assms(1) by (simp add: frames_avail_def distinct_map inj_on_def)
  fix f assume "f \<in> set (frames_avail s)"
  then obtain i where i: "f = frame_pool s + 4096 * i" "next_frame s \<le> i" "i < 64"
    using assms(1) by (auto simp: frames_avail_def)
  then have "f < 2 ^ 52" "frame_pool s + 4096 * next_frame s \<le> f" using assms(3) by simp_all
  moreover from this have "of_nat f \<notin> U"
    using assms(4) [of "of_nat f"] unat_of_nat_small [of f] by auto
  ultimately show "4096 dvd f \<and> f < 2 ^ 52 \<and> of_nat f \<notin> U" using assms(2) i by simp
qed

lemma active_fresh:
  assumes "map_active s" "memmap_ok s" "apart (regions s)" "\<forall>r \<in> set (regions s). region_end r \<le> 2 ^ 52"
    "\<And>t. t \<in> U \<Longrightarrow> unat (reserve_start s) \<le> unat t \<and> unat t < unat (reserve_end s)"
  shows "fresh s U"
proof (rule freshI)
  have cur: "4096 dvd unat (cur_offset s)" using assms(2) by (simp add: memmap_ok_def cursor_ok_def)
  show "alloc_ok s" using assms(2) by (simp add: alloc_ok_def)
  show "distinct (frames_avail s)"
    using assms(1) frames_left_distinct [OF assms(3) cur] by (simp add: frames_avail_def free_frames_def)
  fix f assume f: "f \<in> set (frames_avail s)"
  then obtain r j where r: "r \<in> set (regions s)"
      "f \<in> set (frames_from (unat (reserve_start s)) (unat (reserve_end s)) r j)" "4096 dvd j"
    using assms(1) frames_left_elem [OF _ cur] by (metis frames_avail_def free_frames_def)
  note g = frame_in_region [OF r(2,3)]
  have "f < 2 ^ 52" using g(2) assms(4) r(1) by fastforce
  moreover have "of_nat f \<notin> U"
    using assms(5) [of "of_nat f"] g(4) \<open>f < 2 ^ 52\<close> by (auto simp: unat_of_nat_small usable_def)
  ultimately show "4096 dvd f \<and> f < 2 ^ 52 \<and> of_nat f \<notin> U" using g(3) by simp
qed

lemma list5E:
  assumes "5 \<le> length xs"
  obtains a b c d e ys where "xs = a # b # c # d # e # ys"
  using assms by (auto simp: numeral_eq_Suc Suc_le_length_iff)

lemma create_address_space_distinct:
  assumes "fresh s U" "5 \<le> length (frames_avail s)" "table (kernel_pdpt s)" "kernel_pdpt s \<in> U"
  obtains t4 t3 d pt f s' where "create_address_space s = Some (Inr (t4, s'))"
    "space (mem s') (kernel_pdpt s) t4 t3 d pt f" "only_frames {t4, t3, d, pt, f} (mem s) (mem s')"
    "\<forall>t \<in> {t4, t3, d, pt, f}. table t \<and> t \<notin> U" "strip s' = strip s"
    "fresh s' (U \<union> {t4, t3, d, pt, f})" "length (frames_avail s) = length (frames_avail s') + 5"
    "distinct [t4, t3, d, pt, f]" "pf.frames s = t4 # t3 # d # pt # f # pf.frames s'"
proof -
  note fr = freshD [OF assms(1)]
  have "5 \<le> length (pf.frames s)" using assms(2) by (simp add: pf.frames_def)
  then obtain t4 t3 d pt f ts where fs: "pf.frames s = t4 # t3 # d # pt # f # ts" by (rule list5E)
  have tabs: "\<forall>t \<in> {t4, t3, d, pt, f}. table t \<and> t \<notin> U" using fr(3) by (simp add: fs)
  have dist: "distinct [t4, t3, d, pt, f]" using fr(2) by (simp add: fs)
  obtain s' where s': "create_address_space s = Some (Inr (t4, s'))" "alloc_ok s'" "pf.frames s' = ts"
      "strip s' = strip s" "space (mem s') (kernel_pdpt s) t4 t3 d pt f"
      "only_frames {t4, t3, d, pt, f} (mem s) (mem s')"
    by (rule create_address_space_ok [OF fr(1) fs assms(3) _ dist]) (use tabs assms(4) in auto)
  have "fresh s' (U \<union> {t4, t3, d, pt, f})"
    using s'(2,3) fr(2,3) unfolding fresh_def pf.frames_def [symmetric]
    by (auto simp: fs pf.frames_def [symmetric] image_set)
  moreover have "length (frames_avail s) = length (frames_avail s') + 5"
    using arg_cong [OF fs, of length] arg_cong [OF s'(3), of length] by (simp add: pf.frames_def)
  ultimately show ?thesis by (rule that [OF s'(1,5,6) tabs s'(4) _ _ dist fs [folded s'(3)]])
qed

lemma create_address_space_fresh:
  assumes "fresh s U" "5 \<le> length (frames_avail s)" "table (kernel_pdpt s)" "kernel_pdpt s \<in> U"
  obtains t4 t3 d pt f s' where "create_address_space s = Some (Inr (t4, s'))"
    "space (mem s') (kernel_pdpt s) t4 t3 d pt f" "only_frames {t4, t3, d, pt, f} (mem s) (mem s')"
    "\<forall>t \<in> {t4, t3, d, pt, f}. table t \<and> t \<notin> U" "strip s' = strip s"
    "fresh s' (U \<union> {t4, t3, d, pt, f})" "length (frames_avail s) = length (frames_avail s') + 5"
  by (rule create_address_space_distinct [OF assms]) (rule that)

text \<open>The kernel's tables with at least \<open>n\<close> frames left: what mapping up to \<open>n\<close> devices needs.\<close>

definition mmio_ready :: "'a paging_scheme \<Rightarrow> nat \<Rightarrow> bool" where
  "mmio_ready s n \<longleftrightarrow> (\<exists>P. kernel_tree (mem s) (kernel_pml4 s) (kernel_pdpt s) P \<and>
     fresh s ({kernel_pml4 s, kernel_pdpt s} \<union> ran P)) \<and> n \<le> length (frames_avail s)"

text \<open>The same with the tables and the frames left confined to a set \<open>F\<close>.\<close>

definition mmio_within :: "'a paging_scheme \<Rightarrow> nat \<Rightarrow> u64 set \<Rightarrow> bool" where
  "mmio_within s n F \<longleftrightarrow> (\<exists>P. kernel_tree (mem s) (kernel_pml4 s) (kernel_pdpt s) P \<and>
     fresh s ({kernel_pml4 s, kernel_pdpt s} \<union> ran P) \<and>
     {kernel_pml4 s, kernel_pdpt s} \<union> ran P \<union> set (pf.frames s) \<subseteq> F) \<and> n \<le> length (frames_avail s)"

lemma tree_present: "kernel_tree m k4 k3 P \<Longrightarrow> i < 512 \<Longrightarrow> bit (entry m k3 i) 0 \<longleftrightarrow> P i \<noteq> None"
  by (cases "P i") (auto simp: kernel_tree_def)

lemma map_mmio_within:
  assumes "mmio_within s (Suc n) F" "2097152 dvd unat pa" "unat pa < 0x8000000000"
  obtains s' where "paging_map_mmio_2mb pa s = Some (Inr ((), s'))" "strip s' = strip s" "mmio_within s' n F"
    "only_frames F (mem s) (mem s')"
    "\<And>i. i < 512 \<Longrightarrow> i \<noteq> va_index 30 pa \<Longrightarrow> bit (entry (mem s') (kernel_pdpt s) i) 0 = bit (entry (mem s) (kernel_pdpt s) i) 0"
proof -
  obtain P where P: "kernel_tree (mem s) (kernel_pml4 s) (kernel_pdpt s) P"
      "fresh s ({kernel_pml4 s, kernel_pdpt s} \<union> ran P)" "Suc n \<le> length (pf.frames s)"
      "{kernel_pml4 s, kernel_pdpt s} \<union> ran P \<union> set (pf.frames s) \<subseteq> F"
    using assms(1) by (auto simp: mmio_within_def pf.frames_def)
  note fr = freshD [OF P(2)]
  obtain u ts where fs: "pf.frames s = u # ts" using P(3) by (cases "pf.frames s") auto
  have u: "table u" "u \<notin> {kernel_pml4 s, kernel_pdpt s}" "u \<notin> ran P" using fr(3) [of u] by (auto simp: fs)
  obtain s' P' where s': "paging_map_mmio_2mb pa s = Some (Inr ((), s'))" "strip s' = strip s" "alloc_ok s'"
      "kernel_tree (mem s') (kernel_pml4 s) (kernel_pdpt s) P'"
      "P' = P \<and> pf.frames s' = u # ts \<or> P' = P(va_index 30 pa \<mapsto> u) \<and> pf.frames s' = ts"
      "only_frames (insert (kernel_pdpt s) (insert u (ran P))) (mem s) (mem s')"
    by (rule map_mmio_ok [OF P(1) assms(2,3) fr(1) fs u]) blast
  have k: "kernel_pml4 s' = kernel_pml4 s" "kernel_pdpt s' = kernel_pdpt s" using strip_fields [OF s'(2)] by simp_all
  have sub: "t \<in> ran P' \<Longrightarrow> t \<in> ran P \<or> t = u" for t
    using s'(5) by (auto simp: ran_def split: if_splits)
  have t: "table t \<and> t \<notin> {kernel_pml4 s, kernel_pdpt s} \<union> ran P'" if "t \<in> set (pf.frames s')" for t
    using that s'(5) fr(2) fr(3) [of t] sub [of t] by (auto simp: fs ran_def split: if_splits)
  have "distinct (pf.frames s')" using s'(5) fr(2) by (auto simp: fs)
  then have "fresh s' ({kernel_pml4 s, kernel_pdpt s} \<union> ran P')"
    using s'(3) t unfolding fresh_def pf.frames_def [symmetric] image_set by blast
  moreover have "n \<le> length (pf.frames s')" using s'(5) P(3) by (auto simp: fs)
  then have "n \<le> length (frames_avail s')" by (simp add: pf.frames_def)
  moreover have "{kernel_pml4 s, kernel_pdpt s} \<union> ran P' \<union> set (pf.frames s') \<subseteq> F"
    using P(4) sub s'(5) by (auto simp: fs)
  ultimately have "mmio_within s' n F" using s'(4) unfolding mmio_within_def k by blast
  moreover have "only_frames F (mem s) (mem s')" using s'(6) P(4) by (auto simp: only_frames_def fs)
  moreover have "bit (entry (mem s') (kernel_pdpt s) i) 0 = bit (entry (mem s) (kernel_pdpt s) i) 0" if "i < 512" "i \<noteq> va_index 30 pa" for i
    using s'(5) that unfolding tree_present [OF s'(4) that(1)] tree_present [OF P(1) that(1)] by auto
  ultimately show ?thesis using that s'(1,2) by blast
qed

lemma kernel_tree_cong:
  assumes "kernel_tree m k4 k3 P" "\<And>t x. t \<in> {k4, k3} \<union> ran P \<Longrightarrow> unat t \<le> x \<Longrightarrow> x < unat t + 4096 \<Longrightarrow> m' x = m x"
  shows "kernel_tree m' k4 k3 P"
proof -
  have e: "entry m' t j = entry m t j" if "t \<in> {k4, k3} \<union> ran P" "j < 512" for t j
    unfolding entry_def by (rule read64_cong) (use assms(2) [OF that(1)] that(2) in auto)
  have "entry m' d j = entry m d j" if "P l = Some d" "j < 512" for l d j using e that by (auto simp: ran_def)
  then show ?thesis using assms(1) e [of k4] e [of k3] unfolding kernel_tree_def by simp
qed

text \<open>Changes outside \<open>F\<close> leave the tables alone.\<close>

lemma mmio_within_cong:
  assumes "mmio_within s n F" "kernel_pml4 t = kernel_pml4 s" "kernel_pdpt t = kernel_pdpt s"
    "frames_avail t = frames_avail s" "alloc_ok t = alloc_ok s"
    "\<And>f x. f \<in> F \<Longrightarrow> unat f \<le> x \<Longrightarrow> x < unat f + 4096 \<Longrightarrow> mem t x = mem s x"
  shows "mmio_within t n F"
proof -
  obtain P where P: "kernel_tree (mem s) (kernel_pml4 s) (kernel_pdpt s) P"
      "fresh s ({kernel_pml4 s, kernel_pdpt s} \<union> ran P)" "n \<le> length (frames_avail s)"
      "{kernel_pml4 s, kernel_pdpt s} \<union> ran P \<union> set (pf.frames s) \<subseteq> F"
    using assms(1) by (auto simp: mmio_within_def)
  have "kernel_tree (mem t) (kernel_pml4 s) (kernel_pdpt s) P"
    by (rule kernel_tree_cong [OF P(1)]) (use assms(6) P(4) in blast)
  then show ?thesis
    using P assms(2-5) unfolding mmio_within_def fresh_def pf.frames_def by auto
qed

lemma map_mmio_ready:
  assumes "mmio_ready s (Suc n)" "2097152 dvd unat pa" "unat pa < 0x8000000000"
  obtains s' where "paging_map_mmio_2mb pa s = Some (Inr ((), s'))" "strip s' = strip s" "mmio_ready s' n"
    "\<And>va. unat va < 0x8000000000 \<Longrightarrow> walk (mem s') (kernel_pml4 s) va =
      (if unat va div 2097152 = unat pa div 2097152 then Some (unat va, True, False)
       else walk (mem s) (kernel_pml4 s) va)"
proof -
  obtain P where P: "kernel_tree (mem s) (kernel_pml4 s) (kernel_pdpt s) P"
      "fresh s ({kernel_pml4 s, kernel_pdpt s} \<union> ran P)" "Suc n \<le> length (pf.frames s)"
    using assms(1) by (auto simp: mmio_ready_def pf.frames_def)
  note fr = freshD [OF P(2)]
  obtain u ts where fs: "pf.frames s = u # ts" using P(3) by (cases "pf.frames s") auto
  have u: "table u" "u \<notin> {kernel_pml4 s, kernel_pdpt s}" "u \<notin> ran P" using fr(3) [of u] by (auto simp: fs)
  obtain s' P' where s': "paging_map_mmio_2mb pa s = Some (Inr ((), s'))" "strip s' = strip s" "alloc_ok s'"
      "kernel_tree (mem s') (kernel_pml4 s) (kernel_pdpt s) P'"
      "P' = P \<and> pf.frames s' = u # ts \<or> (\<exists>i. P' = P(i \<mapsto> u)) \<and> pf.frames s' = ts"
      "\<And>va. unat va < 0x8000000000 \<Longrightarrow> walk (mem s') (kernel_pml4 s) va =
        (if unat va div 2097152 = unat pa div 2097152 then Some (unat va, True, False)
         else walk (mem s) (kernel_pml4 s) va)"
    by (rule map_mmio_ok [OF P(1) assms(2,3) fr(1) fs u]) blast
  have k: "kernel_pml4 s' = kernel_pml4 s" "kernel_pdpt s' = kernel_pdpt s" using strip_fields [OF s'(2)] by simp_all
  have sub: "t \<in> ran P' \<Longrightarrow> t \<in> ran P \<or> t = u" for t
    using s'(5) by (auto simp: ran_def split: if_splits)
  have t: "table t \<and> t \<notin> {kernel_pml4 s, kernel_pdpt s} \<union> ran P'" if "t \<in> set (pf.frames s')" for t
  proof -
    have "t \<in> set (pf.frames s)" using s'(5) that by (auto simp: fs)
    moreover have "t \<notin> ran P'" if "t \<notin> ran P"
      using s'(5) sub [of t] that \<open>t \<in> set (pf.frames s')\<close> fr(2) by (auto simp: fs)
    ultimately show ?thesis using fr(3) [of t] by blast
  qed
  have "distinct (pf.frames s')" using s'(5) fr(2) by (auto simp: fs)
  then have "fresh s' ({kernel_pml4 s, kernel_pdpt s} \<union> ran P')"
    using s'(3) t unfolding fresh_def pf.frames_def by simp
  moreover have "n \<le> length (pf.frames s')" using s'(5) P(3) by (auto simp: fs)
  then have "n \<le> length (frames_avail s')" by (simp add: pf.frames_def)
  ultimately have "mmio_ready s' n" using s'(4) by (auto simp: mmio_ready_def k)
  then show ?thesis using that s' by blast
qed

section \<open>Properties\<close>

lemma kernel_map_rest:
  assumes "kernel_map m k4 k3 kd" "\<And>i. 0 < i \<Longrightarrow> i < 512 \<Longrightarrow> entry m k4 i = 0 \<and> entry m k3 i = 0"
    "0x40000000 \<le> unat va" "unat va < 0x1000000000000"
  shows "walk m k4 va = None"
proof (cases "unat va < 0x8000000000")
  case True
  then have "va_index 39 va = 0" "0 < va_index 30 va" using assms(3) by (auto simp: va_parts div_greater_zero_iff)
  then show ?thesis using assms(1,2) by (simp add: walk_def walk_pdpt_def kernel_map_def)
next
  case False
  then have "0 < va_index 39 va" using va_parts(4) [of va] assms(4) by simp
  then show ?thesis using assms(1,2) by (simp add: walk_def kernel_map_def)
qed

lemma list3E:
  assumes "3 \<le> length xs"
  obtains a b c ys where "xs = a # b # c # ys"
  using assms by (auto simp: numeral_eq_Suc Suc_le_length_iff)

lemma list6E:
  assumes "6 \<le> length xs"
  obtains a b c d e f ys where "xs = a # b # c # d # e # f # ys"
  using assms by (auto simp: numeral_eq_Suc Suc_le_length_iff)

text \<open>The kernel map built from fresh frames, with what remains.\<close>

lemma init_kernel_map_fresh:
  assumes "fresh s {}" "3 \<le> length (frames_avail s)"
  obtains s' kd where "paging_init_kernel_map p s = Some (Inr ((), s'))"
    "kernel_map (mem s') (kernel_pml4 s') (kernel_pdpt s') kd" "cr3 s' p = kernel_pml4 s'"
    "\<And>i. 0 < i \<Longrightarrow> i < 512 \<Longrightarrow> entry (mem s') (kernel_pml4 s') i = 0 \<and> entry (mem s') (kernel_pdpt s') i = 0"
    "fresh s' {kernel_pml4 s', kernel_pdpt s', kd}" "length (frames_avail s) = length (frames_avail s') + 3"
proof -
  note fr = freshD [OF assms(1)]
  have "3 \<le> length (pf.frames s)" using assms(2) by (simp add: pf.frames_def)
  then obtain k4 k3 kd ts where fs: "pf.frames s = k4 # k3 # kd # ts" by (rule list3E)
  obtain s' where s': "paging_init_kernel_map p s = Some (Inr ((), s'))" "kernel_pml4 s' = k4"
      "kernel_pdpt s' = k3" "cr3 s' p = k4" "alloc_ok s'" "pf.frames s' = ts" "kernel_map (mem s') k4 k3 kd"
      "\<And>i. 0 < i \<Longrightarrow> i < 512 \<Longrightarrow> entry (mem s') k4 i = 0 \<and> entry (mem s') k3 i = 0"
    by (rule init_kernel_map_ok [OF fr(1) fs, of p]) (use fr(2,3) in \<open>auto simp: fs\<close>)
  have "fresh s' {k4, k3, kd}"
    using s'(5,6) fr(2,3) unfolding fresh_def by (auto simp: fs pf.frames_def [symmetric] image_set)
  moreover have "length (frames_avail s) = length (frames_avail s') + 3"
    using arg_cong [OF fs, of length] arg_cong [OF s'(6), of length] by (simp add: pf.frames_def)
  ultimately show ?thesis using that [of s' kd] s' by auto
qed

text \<open>C25. \<open>paging_init_kernel_map\<close> succeeds from the boot pool and leaves the calling processor on
  tables that map exactly the first gigabyte one to one, writable, closed to ring 3, and nothing
  else of the lower half of the address space.\<close>

theorem paging_init_kernel_map_identity:
  assumes "\<not> map_active s" "next_frame s = 0" "4096 dvd frame_pool s" "frame_pool s + POOL_FRAMES * 4096 \<le> 2 ^ 52"
  shows "\<exists>s'. paging_init_kernel_map p s = Some (Inr ((), s')) \<and> cr3 s' p = kernel_pml4 s' \<and>
    (\<forall>va. unat va < 2 ^ 48 \<longrightarrow> walk (mem s') (cr3 s' p) va =
      (if unat va < 2 ^ 30 then Some (unat va, True, False) else None))"
proof -
  have "fresh s {}" by (rule pool_fresh) (use assms in auto)
  moreover have "3 \<le> length (frames_avail s)" using assms(1,2) by (simp add: frames_avail_def)
  ultimately obtain s' kd where s': "paging_init_kernel_map p s = Some (Inr ((), s'))"
      "kernel_map (mem s') (kernel_pml4 s') (kernel_pdpt s') kd" "cr3 s' p = kernel_pml4 s'"
      "\<And>i. 0 < i \<Longrightarrow> i < 512 \<Longrightarrow> entry (mem s') (kernel_pml4 s') i = 0 \<and> entry (mem s') (kernel_pdpt s') i = 0"
    by (rule init_kernel_map_fresh [where p = p]) blast
  then show ?thesis using kernel_walk_low [OF s'(2)] kernel_map_rest [OF s'(2,4)] by auto
qed

definition boot_paging :: paging where
  "boot_paging = memmap.extend (bare_map\<lparr>map_active := False\<rparr>)
     \<lparr>frame_pool = 0x200000, next_frame = 0, kernel_pml4 = 0, kernel_pdpt = 0, cr3 = (\<lambda>_. 0)\<rparr>"

lemma boot_paging_fields [simp]:
  "\<not> map_active boot_paging" "next_frame boot_paging = 0" "frame_pool boot_paging = 0x200000"
  by (simp_all add: boot_paging_def memmap.defs)

lemma boot_fresh: "fresh boot_paging {}" "length (frames_avail boot_paging) = 64"
  by (rule pool_fresh; simp) (simp add: frames_avail_def)

theorem paging_init_kernel_map_witness:
  "\<exists>s'. paging_init_kernel_map 0 boot_paging = Some (Inr ((), s')) \<and>
    walk (mem s') (cr3 s' 0) 0xB8000 = Some (0xB8000, True, False) \<and> walk (mem s') (cr3 s' 0) 0x40000000 = None"
proof -
  obtain s' where "paging_init_kernel_map 0 boot_paging = Some (Inr ((), s'))"
      "\<forall>va. unat va < 2 ^ 48 \<longrightarrow> walk (mem s') (cr3 s' 0) va =
        (if unat va < 2 ^ 30 then Some (unat va, True, False) else None)"
    using paging_init_kernel_map_identity [of boot_paging 0] by auto
  then show ?thesis by (intro exI [of _ s']) simp
qed

text \<open>C5. Address spaces are isolated. Two threads' address spaces built one after the other both
  map the first gigabyte one to one and closed to ring 3, but the demonstration page at
  \<open>DEMO_VA\<close> is backed by a frame of its own in each: a byte written through one is at a
  physical address the other does not reach, and building the second leaves the first's
  translation as it was.\<close>

theorem address_spaces_isolated:
  assumes "kernel_map (mem s) (kernel_pml4 s) (kernel_pdpt s) kd"
    and "fresh s {kernel_pml4 s, kernel_pdpt s, kd}" "10 \<le> length (frames_avail s)"
  shows "\<exists>a s1 b s2 fa fb. create_address_space s = Some (Inr (a, s1)) \<and>
    create_address_space s1 = Some (Inr (b, s2)) \<and> a \<noteq> b \<and>
    (\<forall>va. unat va < 2 ^ 30 \<longrightarrow> walk (mem s2) a va = Some (unat va, True, False) \<and>
        walk (mem s2) b va = Some (unat va, True, False)) \<and>
    (\<forall>i < 4096. walk (mem s2) a (of_nat (DEMO_VA + i)) = Some (fa + i, True, False) \<and>
        walk (mem s2) b (of_nat (DEMO_VA + i)) = Some (fb + i, True, False)) \<and>
    {fa..<fa + 4096} \<inter> {fb..<fb + 4096} = {} \<and>
    (\<forall>va. unat va < 2 ^ 48 \<longrightarrow> unat va < 2 ^ 31 \<longrightarrow> walk (mem s2) a va = walk (mem s1) a va)"
proof -
  let ?k3 = "kernel_pdpt s" and ?U = "{kernel_pml4 s, kernel_pdpt s, kd}"
  have tk: "table ?k3" using assms(1) by (simp add: kernel_map_def)
  obtain a a3 ad ap fa s1 where A: "create_address_space s = Some (Inr (a, s1))"
      "space (mem s1) ?k3 a a3 ad ap fa" "only_frames {a, a3, ad, ap, fa} (mem s) (mem s1)"
      "\<forall>t \<in> {a, a3, ad, ap, fa}. table t \<and> t \<notin> ?U" "strip s1 = strip s"
      "fresh s1 (?U \<union> {a, a3, ad, ap, fa})" "length (frames_avail s) = length (frames_avail s1) + 5"
    by (rule create_address_space_fresh [OF assms(2)]) (use assms(3) tk in auto)
  have k1: "kernel_pdpt s1 = ?k3" using strip_fields(2) [OF A(5)] .
  have more: "5 \<le> length (frames_avail s1)" using A(7) assms(3) by simp
  have used: "?k3 \<in> ?U \<union> {a, a3, ad, ap, fa}" by simp
  obtain b b3 bd bp fb s2 where B: "create_address_space s1 = Some (Inr (b, s2))"
      "space (mem s2) ?k3 b b3 bd bp fb" "only_frames {b, b3, bd, bp, fb} (mem s1) (mem s2)"
      "\<forall>t \<in> {b, b3, bd, bp, fb}. table t \<and> t \<notin> ?U \<union> {a, a3, ad, ap, fa}"
      "strip s2 = strip s1" "fresh s2 (?U \<union> {a, a3, ad, ap, fa} \<union> {b, b3, bd, bp, fb})"
      "length (frames_avail s1) = length (frames_avail s2) + 5"
    using create_address_space_fresh [OF A(6) more, unfolded k1, OF tk used] .
  have m1: "kernel_map (mem s1) (kernel_pml4 s) ?k3 kd"
    by (rule kernel_map_kept [OF assms(1) A(3)]) (use A(4) in auto)
  have m2: "kernel_map (mem s2) (kernel_pml4 s) ?k3 kd"
    by (rule kernel_map_kept [OF m1 B(3)]) (use B(4) in auto)
  have a2: "space (mem s2) ?k3 a a3 ad ap fa"
    by (rule space_kept [OF A(2) tk B(3)]) (use B(4) in auto)
  note wa = space_walk [OF m2 a2] and wb = space_walk [OF m2 B(2)] and wa1 = space_walk [OF m1 A(2)]
  have demo: "unat (of_nat (DEMO_VA + i) :: u64) = DEMO_VA + i" if "i < 4096" for i
    using that by (intro unat_of_nat_small) simp
  have "walk (mem s2) a (of_nat (DEMO_VA + i)) = Some (unat fa + i, True, False) \<and>
      walk (mem s2) b (of_nat (DEMO_VA + i)) = Some (unat fb + i, True, False)" if "i < 4096" for i
    using that demo [OF that] wa [of "of_nat (DEMO_VA + i)"] wb [of "of_nat (DEMO_VA + i)"]
    by (simp add: space_view_def del: of_nat_add)
  moreover have "{unat fa..<unat fa + 4096} \<inter> {unat fb..<unat fb + 4096} = {}"
    using table_apart [of fa fb] A(4) B(4) by auto
  moreover have "walk (mem s2) a va = walk (mem s1) a va" if "unat va < 2 ^ 48" "unat va < 2 ^ 31" for va
    using that wa [of va] wa1 [of va] by (simp add: space_view_def)
  moreover have "a \<noteq> b" using B(4) by auto
  moreover have "walk (mem s2) a va = Some (unat va, True, False) \<and> walk (mem s2) b va = Some (unat va, True, False)"
    if "unat va < 2 ^ 30" for va using that wa [of va] wb [of va] by (simp add: space_view_def)
  ultimately show ?thesis using A(1) B(1) by blast
qed

theorem address_spaces_isolated_witness:
  "\<exists>(s :: paging) a s1 b s2 fa fb. create_address_space s = Some (Inr (a, s1)) \<and>
    create_address_space s1 = Some (Inr (b, s2)) \<and>
    walk (mem s2) a 0x40000000 = Some (fa, True, False) \<and>
    walk (mem s2) b 0x40000000 = Some (fb, True, False) \<and> fa \<noteq> fb"
proof -
  obtain s :: paging and kd where s: "kernel_map (mem s) (kernel_pml4 s) (kernel_pdpt s) kd"
      "fresh s {kernel_pml4 s, kernel_pdpt s, kd}" "length (frames_avail boot_paging) = length (frames_avail s) + 3"
    by (rule init_kernel_map_fresh [OF boot_fresh(1), of 0]) (use boot_fresh(2) in auto)
  have more: "10 \<le> length (frames_avail s)" using s(3) boot_fresh(2) by simp
  obtain a s1 b s2 fa fb where r: "create_address_space s = Some (Inr (a, s1))"
      "create_address_space s1 = Some (Inr (b, s2))" "{fa..<fa + 4096} \<inter> {fb..<fb + 4096} = {}"
      "\<forall>i < 4096. walk (mem s2) a (of_nat (DEMO_VA + i)) = Some (fa + i, True, False) \<and>
        walk (mem s2) b (of_nat (DEMO_VA + i)) = Some (fb + i, True, False)"
    using address_spaces_isolated [OF s(1,2) more] by blast
  from r(4) [rule_format, of 0] have "walk (mem s2) a 0x40000000 = Some (fa, True, False)"
    "walk (mem s2) b 0x40000000 = Some (fb, True, False)" by simp_all
  moreover have "fa \<noteq> fb" using r(3) by auto
  ultimately show ?thesis using r(1,2) by blast
qed

text \<open>C13. The ring-3 process sees exactly its code and stack page. \<open>create_user_process\<close>
  maps \<open>USER_CODE_VA\<close> to a frame that holds the bytes of \<open>user_program\<close> and
  \<open>USER_STACK_PAGE_VA\<close> to the stack frame, both open to ring 3; the kernel's first gigabyte stays
  mapped one to one for the kernel; and every address ring 3 may use lies in those two pages.\<close>

theorem create_user_process_isolated:
  assumes "kernel_map (mem s) (kernel_pml4 s) (kernel_pdpt s) kd"
    and "fresh s {kernel_pml4 s, kernel_pdpt s, kd}" "6 \<le> length (frames_avail s)"
    and "\<not> bit (entry (mem s) (kernel_pdpt s) 1) 0" "\<forall>i < 512. \<not> bit (entry (mem s) (kernel_pdpt s) i) 2"
  shows "\<exists>root s' code stack. create_user_process s = Some (Inr (root, s')) \<and>
    (\<forall>i < 4096. walk (mem s') root (USER_CODE_VA + of_nat i) = Some (code + i, True, True) \<and>
       walk (mem s') root (USER_STACK_PAGE_VA + of_nat i) = Some (stack + i, True, True)) \<and>
    (\<forall>i < length user_program. mem s' (code + i) = user_program ! i) \<and>
    {code..<code + 4096} \<inter> {stack..<stack + 4096} = {} \<and>
    (\<forall>va. unat va < 2 ^ 30 \<longrightarrow> walk (mem s') root va = Some (unat va, True, False)) \<and>
    (\<forall>va pa w. unat va < 2 ^ 48 \<longrightarrow> walk (mem s') root va = Some (pa, w, True) \<longrightarrow>
       unat USER_CODE_VA \<le> unat va \<and> unat va < unat USER_STACK_TOP)"
proof -
  let ?k3 = "kernel_pdpt s" and ?U = "{kernel_pml4 s, kernel_pdpt s, kd}"
  have tk: "table ?k3" using assms(1) by (simp add: kernel_map_def)
  note fr = freshD [OF assms(2)]
  have "6 \<le> length (pf.frames s)" using assms(3) by (simp add: pf.frames_def)
  then obtain t4 t3 c st d pt ts where fs: "pf.frames s = t4 # t3 # c # st # d # pt # ts" by (rule list6E)
  have tabs: "\<forall>t \<in> {t4, t3, c, st, d, pt}. table t \<and> t \<notin> ?U" using fr(3) by (simp add: fs)
  have dist: "distinct [t4, t3, c, st, d, pt]" using fr(2) by (simp add: fs)
  have notk: "\<forall>t \<in> {t4, t3, c, st, d, pt}. table t \<and> t \<noteq> ?k3" using tabs by simp
  obtain s' where s': "create_user_process s = Some (Inr (t4, s'))"
      "user_space (mem s') ?k3 t4 t3 d pt c st" "only_frames {t4, t3, c, st, d, pt} (mem s) (mem s')"
      "\<And>i. i < 14 \<Longrightarrow> mem s' (unat c + i) = user_program ! i"
    using create_user_process_ok [OF fr(1) fs tk notk dist assms(4)] by metis
  have km: "kernel_map (mem s') (kernel_pml4 s) ?k3 kd"
    by (rule kernel_map_kept [OF assms(1) s'(3)]) (use tabs in auto)
  have sup: "\<forall>i < 512. \<not> bit (entry (mem s') ?k3 i) 2"
    using only_frames_entry [OF s'(3) _ tk] tabs assms(5) by auto
  have low: "walk (mem s') t4 va = Some (unat va, True, False)" if "unat va < 2 ^ 30" for va
  proof -
    have "va_index 39 va = 0" "va_index 30 va = 0" using that by (simp_all add: va_parts)
    then show ?thesis using s'(2) km that
      by (simp add: user_space_def kernel_map_def walk_def walk_pdpt_def walk_pd_identity grant_def)
  qed
  have pages: "walk (mem s') t4 (USER_CODE_VA + of_nat i) = Some (unat c + i, True, True) \<and>
      walk (mem s') t4 (USER_STACK_PAGE_VA + of_nat i) = Some (unat st + i, True, True)" if "i < 4096" for i
  proof -
    have "unat (0x50000000 + of_nat i :: u64) = 0x50000000 + i" "unat (0x50001000 + of_nat i :: u64) = 0x50001000 + i"
      using that by (simp_all add: unat_add_small unat_of_nat_small)
    then show ?thesis using user_space_private [OF s'(2)] that by simp
  qed
  have "{unat c..<unat c + 4096} \<inter> {unat st..<unat st + 4096} = {}"
    using table_apart [of c st] tabs dist by auto
  moreover have "unat USER_CODE_VA \<le> unat va \<and> unat va < unat USER_STACK_TOP"
    if "unat va < 2 ^ 48" "walk (mem s') t4 va = Some (pa, w, True)" for va pa w
    using user_space_rights [OF s'(2) sup _ that(2)] that(1) by simp
  moreover have "\<forall>i < length user_program. mem s' (unat c + i) = user_program ! i" using s'(4) by simp
  ultimately show ?thesis using s'(1) pages low by blast
qed

lemma boot_kernel:
  obtains s :: paging and kd where "kernel_map (mem s) (kernel_pml4 s) (kernel_pdpt s) kd"
    "fresh s {kernel_pml4 s, kernel_pdpt s, kd}" "length (frames_avail s) = 61"
    "\<And>i. 0 < i \<Longrightarrow> i < 512 \<Longrightarrow> entry (mem s) (kernel_pdpt s) i = 0"
  by (rule init_kernel_map_fresh [OF boot_fresh(1), of 0]) (use boot_fresh(2) in auto)

theorem create_user_process_witness:
  "\<exists>(s :: paging) root s' code. create_user_process s = Some (Inr (root, s')) \<and>
     walk (mem s') root USER_CODE_VA = Some (code, True, True) \<and> mem s' (code + 10) = 0xCD \<and>
     walk (mem s') root 0x100000 = Some (0x100000, True, False)"
proof -
  obtain s :: paging and kd where s: "kernel_map (mem s) (kernel_pml4 s) (kernel_pdpt s) kd"
      "fresh s {kernel_pml4 s, kernel_pdpt s, kd}" "length (frames_avail s) = 61"
      "\<And>i. 0 < i \<Longrightarrow> i < 512 \<Longrightarrow> entry (mem s) (kernel_pdpt s) i = 0" by (rule boot_kernel) blast
  have sup: "\<not> bit (entry (mem s) (kernel_pdpt s) i) 2" if "i < 512" for i
    using s(1) s(4) [of i] that by (cases "i = 0") (simp_all add: kernel_map_def)
  have none: "\<not> bit (entry (mem s) (kernel_pdpt s) 1) 0" "6 \<le> length (frames_avail s)"
    using s(3) s(4) [of 1] by simp_all
  obtain root s' code where r: "create_user_process s = Some (Inr (root, s'))"
      "\<forall>i < 4096. walk (mem s') root (USER_CODE_VA + of_nat i) = Some (code + i, True, True)"
      "\<forall>i < length user_program. mem s' (code + i) = user_program ! i"
      "\<forall>va. unat va < 2 ^ 30 \<longrightarrow> walk (mem s') root va = Some (unat va, True, False)"
    using create_user_process_isolated [OF s(1,2) none(2,1)] sup by blast
  have "walk (mem s') root USER_CODE_VA = Some (code, True, True)" using r(2) [rule_format, of 0] by simp
  moreover have "mem s' (code + 10) = 0xCD" using r(3) [rule_format, of 10] by (simp add: user_program_def)
  moreover have "walk (mem s') root 0x100000 = Some (0x100000, True, False)"
    using r(4) [rule_format, of "0x100000"] by simp
  ultimately show ?thesis using r(1) by blast
qed

text \<open>C26. \<open>paging_map_mmio_2mb\<close> maps the device's 2 MB page one to one, writable and closed to
  ring 3, in the kernel's address space, creating the page directory when it is missing, and
  changes the translation of no other address.\<close>

theorem paging_map_mmio_2mb_maps:
  assumes "kernel_tree (mem s) (kernel_pml4 s) (kernel_pdpt s) P" "2097152 dvd unat pa" "unat pa < 2 ^ 39"
    and "fresh s ({kernel_pml4 s, kernel_pdpt s} \<union> ran P)" "frames_avail s \<noteq> []"
  shows "\<exists>s'. paging_map_mmio_2mb pa s = Some (Inr ((), s')) \<and>
    (\<forall>va. unat va < 2 ^ 39 \<longrightarrow> walk (mem s') (kernel_pml4 s) va =
      (if unat pa \<le> unat va \<and> unat va < unat pa + 2097152 then Some (unat va, True, False)
       else walk (mem s) (kernel_pml4 s) va))"
proof -
  note fr = freshD [OF assms(4)]
  obtain u ts where fs: "pf.frames s = u # ts" using assms(5) by (cases "pf.frames s") (auto simp: pf.frames_def)
  have u: "table u" "u \<notin> {kernel_pml4 s, kernel_pdpt s}" "u \<notin> ran P" using fr(3) [of u] by (auto simp: fs)
  obtain q where q: "unat pa = q * 2097152" using assms(2) by (metis dvdE mult.commute)
  have same: "unat va div 2097152 = unat pa div 2097152 \<longleftrightarrow> unat pa \<le> unat va \<and> unat va < unat pa + 2097152" for va :: u64
    by (auto simp: q div_range)
  have "unat pa < 0x8000000000" using assms(3) by simp
  then obtain s' where "paging_map_mmio_2mb pa s = Some (Inr ((), s'))"
      "\<And>va. unat va < 0x8000000000 \<Longrightarrow> walk (mem s') (kernel_pml4 s) va =
        (if unat va div 2097152 = unat pa div 2097152 then Some (unat va, True, False)
         else walk (mem s) (kernel_pml4 s) va)"
    using map_mmio_ok [OF assms(1,2) _ fr(1) fs u] by metis
  then show ?thesis using same by auto
qed

lemma kernel_map_tree:
  assumes "kernel_map m k4 k3 kd" "\<And>i. 0 < i \<Longrightarrow> i < 512 \<Longrightarrow> entry m k3 i = 0"
  shows "kernel_tree m k4 k3 [0 \<mapsto> kd]"
  using assms big_page(1,2) by (auto simp: kernel_map_def kernel_tree_def split: if_splits)

theorem paging_map_mmio_2mb_witness:
  "\<exists>(s :: paging) s'. paging_map_mmio_2mb 0xFEE00000 s = Some (Inr ((), s')) \<and>
     walk (mem s') (kernel_pml4 s) 0xFEE000B0 = Some (0xFEE000B0, True, False)"
proof -
  obtain s :: paging and kd where s: "kernel_map (mem s) (kernel_pml4 s) (kernel_pdpt s) kd"
      "fresh s {kernel_pml4 s, kernel_pdpt s, kd}" "length (frames_avail s) = 61"
      "\<And>i. 0 < i \<Longrightarrow> i < 512 \<Longrightarrow> entry (mem s) (kernel_pdpt s) i = 0" by (rule boot_kernel) blast
  have f: "fresh s ({kernel_pml4 s, kernel_pdpt s} \<union> ran [0 \<mapsto> kd])" using s(2) by (simp add: fresh_def)
  have n: "frames_avail s \<noteq> []" using s(3) by auto
  have "\<exists>s'. paging_map_mmio_2mb 0xFEE00000 s = Some (Inr ((), s')) \<and>
      walk (mem s') (kernel_pml4 s) 0xFEE000B0 = Some (0xFEE000B0, True, False)"
    using paging_map_mmio_2mb_maps [OF kernel_map_tree [OF s(1,4)] _ _ f n, of "0xFEE00000"]
    by (auto dest!: spec [of _ "0xFEE000B0"])
  then show ?thesis by blast
qed

text \<open>The two-stage frame allocator: \<open>alloc_frame\<close> always returns; it hands out the next frame of
  the boot pool or, once the memory map is active, of the map, with all its bytes zero and the
  rest of memory untouched, and panics when the stage in use has none left.\<close>

theorem alloc_frame_zeroed_or_panic:
  assumes "alloc_ok s"
  shows "(\<forall>f fs. frames_avail s = f # fs \<longrightarrow>
      (\<exists>s'. alloc_frame s = Some (Inr (of_nat f, s')) \<and> frames_avail s' = fs \<and> strip s' = strip s \<and>
        mem s' = zero_frame (of_nat f) (mem s))) \<and>
    (frames_avail s = [] \<longrightarrow> (\<exists>e. alloc_frame s = Some (Inl e) \<and> paging_oom e))"
  using pf.alloc_next [OF assms] pf.alloc_empty [OF assms] pf.alloc_zeroes by blast

theorem alloc_frame_witness:
  "\<exists>s'. alloc_frame boot_paging = Some (Inr (0x200000, s')) \<and> mem s' = zero_frame 0x200000 (mem boot_paging)"
proof -
  have "frames_avail boot_paging = 0x200000 # map (\<lambda>i. 0x200000 + 4096 * i) [1..<64]"
    by (simp add: frames_avail_def upt_conv_Cons)
  then show ?thesis
    using alloc_frame_zeroed_or_panic [of boot_paging] boot_fresh(1) by (auto simp: fresh_def)
qed

end
