(* ===== verification/Ready_Rings.thy ===== *)
theory Ready_Rings
  imports Prelude
begin

text \<open>
  What the two schedulers (\<open>src/sched64.c\<close> and \<open>src/sched.c\<close>) share: the search for the
  highest ready priority, circular lists of threads linked by \<open>next\<close>, and the contract of
  \<open>reschedule\<close> with the round-robin property that follows from it. A thread is named by its
  index in the thread array; a pointer is such an index or \<open>None\<close>.
\<close>

section \<open>The highest bit\<close>

text \<open>
  \<open>int pos = 31; while (!(bitmap & (1u << pos))) pos--;\<close>: the loop is only entered with a bit
  set, so it stops at 0 at the latest.
\<close>

fun highest_from :: "u32 \<Rightarrow> nat \<Rightarrow> nat" where
  "highest_from b 0 = 0"
| "highest_from b (Suc pos) = (if bit b (Suc pos) then Suc pos else highest_from b pos)"

lemma highest_from_le: "highest_from b n \<le> n"
  by (induction n) auto

lemma highest_from_above: "highest_from b n < i \<Longrightarrow> i \<le> n \<Longrightarrow> \<not> bit b i"
  by (induction n) (auto split: if_splits simp: le_Suc_eq)

lemma highest_from_bit: "bit b i \<Longrightarrow> i \<le> n \<Longrightarrow> bit b (highest_from b n)"
  by (induction n) (auto simp: le_Suc_eq)

lemma bit_of_nonzero:
  assumes "b \<noteq> (0 :: u32)"
  obtains i where "i \<le> 31" "bit b i"
proof -
  obtain i where i: "bit b i" using assms by (metis bit_eq_iff bit_0_eq bot_apply bot_bool_def)
  then have "i < 32" using bit_imp_le_length [of b i] by simp
  then have "i \<le> 31" by simp
  then show ?thesis using that i by blast
qed

lemma highest_from_spec:
  assumes "b \<noteq> 0"
  shows "bit b (highest_from b 31)" "\<And>i. highest_from b 31 < i \<Longrightarrow> \<not> bit b i"
proof -
  obtain j where "j \<le> 31" "bit b j" using bit_of_nonzero [OF assms] .
  then show "bit b (highest_from b 31)" by (rule highest_from_bit [rotated])
  show "\<not> bit b i" if "highest_from b 31 < i" for i
    using highest_from_above [OF that] bit_imp_le_length [of b i] by force
qed

lemma highest_from_eq:
  assumes "bit b q" "\<And>i. q < i \<Longrightarrow> \<not> bit b i"
  shows "highest_from b 31 = q"
proof -
  have "b \<noteq> 0" using assms(1) by auto
  note h = highest_from_spec [OF this]
  show ?thesis using h(1) h(2) [of q] assms(1) assms(2) [of "highest_from b 31"] by (meson linorder_neqE_nat)
qed

section \<open>Rings\<close>

definition ring :: "(nat \<Rightarrow> nat option) \<Rightarrow> nat list \<Rightarrow> bool" where
  "ring nxt xs \<longleftrightarrow> distinct xs \<and> (\<forall>i < length xs. nxt (xs ! i) = Some (xs ! (Suc i mod length xs)))"

lemma ring_cong: "ring nxt xs \<Longrightarrow> (\<And>x. x \<in> set xs \<Longrightarrow> nxt' x = nxt x) \<Longrightarrow> ring nxt' xs"
  by (simp add: ring_def)

lemma ring_head:
  assumes "ring nxt (x # xs)"
  shows "nxt x = Some (hd (xs @ [x]))"
  using assms by (cases xs) (auto simp: ring_def)

lemma ring_rotate1:
  assumes "ring nxt xs"
  shows "ring nxt (rotate1 xs)"
proof -
  let ?n = "length xs"
  have "nxt (rotate1 xs ! i) = Some (rotate1 xs ! (Suc i mod ?n))" if "i < ?n" for i
  proof -
    have "0 < ?n" using that by linarith
    then have "Suc i mod ?n < ?n" by simp
    then show ?thesis using that assms by (simp add: ring_def nth_rotate1)
  qed
  then show ?thesis using assms by (simp add: ring_def)
qed

text \<open>\<open>while (tail->next != head) tail = tail->next;\<close>\<close>

partial_function (option) ring_tail :: "(nat \<Rightarrow> nat option) \<Rightarrow> nat \<Rightarrow> nat \<Rightarrow> nat option" where
  "ring_tail nxt head tail =
     (case nxt tail of None \<Rightarrow> None
      | Some n \<Rightarrow> if n = head then Some tail else ring_tail nxt head n)"

lemma ring_tail_from:
  assumes "ring nxt xs" "i < length xs"
  shows "ring_tail nxt (hd xs) (xs ! i) = Some (last xs)"
  using assms(2)
proof (induction "length xs - Suc i" arbitrary: i)
  case 0
  then have i: "Suc i = length xs" by simp
  then have "xs \<noteq> []" by auto
  then have "nxt (xs ! i) = Some (hd xs)" using assms(1) i by (simp add: ring_def hd_conv_nth)
  moreover have "xs ! i = last xs" using i by (metis diff_Suc_1 last_conv_nth list.size(3) nat.distinct(1))
  ultimately show ?case by (simp add: ring_tail.simps)
next
  case (Suc k)
  then have i: "Suc i < length xs" by simp
  then have "nxt (xs ! i) = Some (xs ! Suc i)" using assms(1) by (simp add: ring_def)
  moreover have "0 < length xs" using i by linarith
  then have "xs ! Suc i \<noteq> xs ! 0" using i assms(1) by (simp add: ring_def nth_eq_iff_index_eq)
  then have "xs ! Suc i \<noteq> hd xs" using i by (cases xs) auto
  moreover have "ring_tail nxt (hd xs) (xs ! Suc i) = Some (last xs)"
    by (rule Suc.hyps(1)) (use i Suc.hyps(2) in simp_all)
  ultimately show ?case by (simp add: ring_tail.simps)
qed

lemma ring_tail_last: "ring nxt xs \<Longrightarrow> xs \<noteq> [] \<Longrightarrow> ring_tail nxt (hd xs) (hd xs) = Some (last xs)"
  using ring_tail_from [of nxt xs 0] by (simp add: hd_conv_nth)

lemma ring_append:
  assumes "ring nxt xs" "xs \<noteq> []" "t \<notin> set xs"
  shows "ring (nxt(last xs \<mapsto> t, t \<mapsto> hd xs)) (xs @ [t])"
proof -
  let ?ys = "xs @ [t]" and ?n = "length xs"
  have "(nxt(last xs \<mapsto> t, t \<mapsto> hd xs)) (?ys ! i) = Some (?ys ! (Suc i mod Suc ?n))" if "i < Suc ?n" for i
  proof -
    consider "i = ?n" | "Suc i = ?n" | "Suc i < ?n" using \<open>i < Suc ?n\<close> by linarith
    then show ?thesis
    proof cases
      case 1
      then show ?thesis using assms(2) by (simp add: nth_append hd_conv_nth)
    next
      case 2
      then have "xs ! i = last xs" by (metis diff_Suc_1 last_conv_nth assms(2))
      moreover have "last xs \<noteq> t" using assms(2,3) by auto
      ultimately show ?thesis using 2 by (simp add: nth_append)
    next
      case 3
      then have "xs ! i \<noteq> last xs" "xs ! i \<noteq> t"
        using assms by (auto simp: ring_def last_conv_nth nth_eq_iff_index_eq)
      then show ?thesis using 3 assms(1) by (simp add: ring_def nth_append)
    qed
  qed
  then show ?thesis using assms by (simp add: ring_def)
qed

lemma ring_single: "ring (nxt(t \<mapsto> t)) [t]"
  by (simp add: ring_def)

section \<open>The contract of reschedule\<close>

text \<open>
  \<open>top_queue R q\<close>: \<open>q\<close> is the highest priority with a ready thread. \<open>rep s R\<close>: the queues
  of state \<open>s\<close>, as lists from the head on, are \<open>R\<close>.
\<close>

definition top_queue :: "(nat \<Rightarrow> nat list) \<Rightarrow> nat \<Rightarrow> bool" where
  "top_queue R q \<longleftrightarrow> R q \<noteq> [] \<and> (\<forall>i > q. R i = [])"

text \<open>
  The invariant of the two schedulers' variables: the bitmap has the bits of the non-empty queues,
  each queue is a ring of existing threads of its priority, and there are at most 16 threads.
\<close>

definition queues_rep ::
    "u32 \<Rightarrow> (nat \<Rightarrow> nat option) \<Rightarrow> (nat \<Rightarrow> nat option) \<Rightarrow> (nat \<Rightarrow> nat) \<Rightarrow> nat \<Rightarrow> (nat \<Rightarrow> nat list) \<Rightarrow> bool" where
  "queues_rep bm rq nxt pr n R \<longleftrightarrow>
     (\<forall>q. bit bm q \<longleftrightarrow> R q \<noteq> []) \<and> (\<forall>q \<ge> 8. R q = []) \<and>
     (\<forall>q < 8. rq q = (case R q of [] \<Rightarrow> None | x # _ \<Rightarrow> Some x)) \<and>
     (\<forall>q. ring nxt (R q) \<and> (\<forall>x \<in> set (R q). x < n \<and> pr x = q)) \<and> n \<le> 16"

lemma queues_rep_none:
  "bm = 0 \<Longrightarrow> (\<And>q. q < 8 \<Longrightarrow> rq q = None) \<Longrightarrow> n \<le> 16 \<Longrightarrow> queues_rep bm rq nxt pr n (\<lambda>_. [])"
  by (simp add: queues_rep_def ring_def)

lemma queues_rep_empty: "queues_rep bm rq nxt pr n R \<Longrightarrow> (\<And>q. R q = []) \<Longrightarrow> bm = 0"
  by (intro bit_word_eqI) (simp add: queues_rep_def)

lemma queues_rep_top:
  assumes "queues_rep bm rq nxt pr n R" "top_queue R q" "R q = x # xs"
  shows "highest_from bm 31 = q" "bm \<noteq> 0" "rq q = Some x" "nxt x = Some (hd (xs @ [x]))" "q < 8"
    "distinct (x # xs)"
proof -
  show q: "q < 8" using assms by (metis list.distinct(1) not_le queues_rep_def)
  have "bit bm q" using assms(1,3) by (simp add: queues_rep_def)
  moreover have "\<not> bit bm i" if "q < i" for i
    using that assms(1,2) by (simp add: queues_rep_def top_queue_def)
  ultimately show "highest_from bm 31 = q" "bm \<noteq> 0" using highest_from_eq by auto
  show "rq q = Some x" using assms(1,3) q by (simp add: queues_rep_def)
  have "ring nxt (x # xs)" using assms(1,3) by (metis queues_rep_def)
  then show "nxt x = Some (hd (xs @ [x]))" "distinct (x # xs)" using ring_head by (metis, simp add: ring_def)
qed

lemma queues_rep_rotate:
  assumes rep: "queues_rep bm rq nxt pr n R" and x: "R q = x # y # ys"
  shows "queues_rep bm (rq(q \<mapsto> y)) nxt pr n (R(q := y # ys @ [x]))"
proof -
  have rings: "ring nxt (R i)" and elems: "\<And>z. z \<in> set (R i) \<Longrightarrow> z < n \<and> pr z = i" for i
    using rep by (auto simp: queues_rep_def)
  have rot: "ring nxt (y # ys @ [x])" using ring_rotate1 [OF rings [of q]] by (simp add: x)
  have "ring nxt ((R(q := y # ys @ [x])) i)" for i using rings rot by simp
  moreover have "z < n \<and> pr z = i" if "z \<in> set ((R(q := y # ys @ [x])) i)" for i z
    using that elems [of z i] x by (cases "i = q") auto
  moreover have "R q \<noteq> []" by (simp add: x)
  ultimately show ?thesis using rep unfolding queues_rep_def by auto
qed

text \<open>Appending a new thread \<open>t\<close> to its queue.\<close>

lemma queues_rep_append:
  assumes rep: "queues_rep bm rq nxt pr t R" and q: "q < 8" and t: "t < 16"
    and pr': "\<And>i. i \<noteq> t \<Longrightarrow> pr' i = pr i" "pr' t = q"
    and nxt': "nxt' = (if R q = [] then nxt(t \<mapsto> t) else nxt(last (R q) \<mapsto> t, t \<mapsto> hd (R q)))"
  shows "queues_rep (bm OR push_bit q 1) (rq(q \<mapsto> hd (R q @ [t]))) nxt' pr' (Suc t) (R(q := R q @ [t]))"
proof -
  let ?R = "R(q := R q @ [t])"
  have rings: "ring nxt (R i)" and elems: "\<And>z. z \<in> set (R i) \<Longrightarrow> z < t \<and> pr z = i" for i
    using rep by (auto simp: queues_rep_def)
  have tnew: "t \<notin> set (R i)" for i using elems [of t i] by blast
  have 1: "ring nxt' (?R i)" for i
  proof (cases "i = q")
    case True
    then show ?thesis
      using nxt' ring_single [of nxt t] ring_append [OF rings _ tnew, of q] by (cases "R q = []") simp_all
  next
    case False
    have "nxt' z = nxt z" if "z \<in> set (R i)" for z
    proof -
      have "z \<noteq> t" using that tnew [of i] by blast
      moreover have "R q \<noteq> [] \<Longrightarrow> z \<noteq> last (R q)"
        using elems [OF that] elems [of "last (R q)" q] False last_in_set [of "R q"] by blast
      ultimately show ?thesis using fun_cong [OF nxt', of z] by (cases "R q = []") simp_all
    qed
    then have "ring nxt' (R i)" by (rule ring_cong [OF rings])
    then show ?thesis using False by simp
  qed
  have 2: "z < Suc t \<and> pr' z = i" if "z \<in> set (?R i)" for i z
  proof (cases "z = t")
    case True
    then show ?thesis using that pr'(2) tnew [of i] by (auto split: if_splits)
  next
    case False
    then have "z \<in> set (R i)" using that by (auto split: if_splits)
    then show ?thesis using elems [of z i] pr'(1) [OF False] by simp
  qed
  have 3: "bit (bm OR push_bit q 1) i \<longleftrightarrow> ?R i \<noteq> []" for i
  proof -
    have "bit (push_bit q 1 :: u32) i \<longleftrightarrow> i = q" using q by (auto simp: bit_exp_iff)
    moreover have "bit bm i \<longleftrightarrow> R i \<noteq> []" using rep by (simp add: queues_rep_def)
    ultimately show ?thesis by (simp add: bit_or_iff)
  qed
  have 4: "?R i = []" if "8 \<le> i" for i using rep q that by (simp add: queues_rep_def)
  have 5: "(rq(q \<mapsto> hd (R q @ [t]))) i = (case ?R i of [] \<Rightarrow> None | x # _ \<Rightarrow> Some x)" if "i < 8" for i
  proof (cases "i = q")
    case True
    then show ?thesis by (cases "R q") simp_all
  next
    case False
    then show ?thesis using rep that by (simp add: queues_rep_def)
  qed
  show ?thesis unfolding queues_rep_def using 1 2 3 4 5 t by (intro conjI allI impI ballI) simp_all
qed

text \<open>The walk to the tail of the queue ends, at its last thread.\<close>

lemma queues_rep_tail:
  "queues_rep bm rq nxt pr n R \<Longrightarrow> R q \<noteq> [] \<Longrightarrow> ring_tail nxt (hd (R q)) (hd (R q)) = Some (last (R q))"
  by (intro ring_tail_last) (simp_all add: queues_rep_def)

lemma queues_rep_head:
  "queues_rep bm rq nxt pr n R \<Longrightarrow> q < 8 \<Longrightarrow> rq q = (case R q of [] \<Rightarrow> None | x # _ \<Rightarrow> Some x)"
  by (simp add: queues_rep_def)

lemma queues_rep_new: "queues_rep bm rq nxt pr n R \<Longrightarrow> n \<notin> set (R q)"
  by (auto simp: queues_rep_def)

locale ready_scheduler =
  fixes rep :: "'s \<Rightarrow> (nat \<Rightarrow> nat list) \<Rightarrow> bool"
    and cur :: "'s \<Rightarrow> nat option"
    and resched :: "'s \<Rightarrow> 's"
  assumes resched_idle: "rep s R \<Longrightarrow> (\<And>q. R q = []) \<Longrightarrow> rep (resched s) R \<and> cur (resched s) = cur s"
    and resched_pick: "rep s R \<Longrightarrow> top_queue R q \<Longrightarrow> R q = x # xs \<Longrightarrow> cur s \<noteq> Some x \<Longrightarrow>
      rep (resched s) R \<and> cur (resched s) = Some x"
    and resched_rotate: "rep s R \<Longrightarrow> top_queue R q \<Longrightarrow> R q = x # xs \<Longrightarrow> cur s = Some x \<Longrightarrow>
      rep (resched s) (R(q := xs @ [x])) \<and> cur (resched s) = Some (hd (xs @ [x]))"
begin

lemma round_robin:
  assumes "rep s R" "top_queue R q" "cur s = Some (hd (R q))"
  shows "rep ((resched ^^ k) s) (R(q := rotate k (R q))) \<and>
    cur ((resched ^^ k) s) = Some (R q ! (k mod length (R q)))"
proof (induction k)
  case 0
  then show ?case using assms by (simp add: top_queue_def hd_conv_nth)
next
  case (Suc k)
  let ?S = "R(q := rotate k (R q))" and ?n = "length (R q)"
  have ne: "R q \<noteq> []" using assms(2) by (simp add: top_queue_def)
  then obtain x xs where rot: "rotate k (R q) = x # xs" by (cases "rotate k (R q)") auto
  have top: "top_queue ?S q" using assms(2) by (simp add: top_queue_def)
  have hd: "x = R q ! (k mod ?n)" using hd_rotate_conv_nth [OF ne, of k] rot by simp
  have step: "rep (resched ((resched ^^ k) s)) (?S(q := xs @ [x])) \<and>
      cur (resched ((resched ^^ k) s)) = Some (hd (xs @ [x]))"
    by (rule resched_rotate [OF conjunct1 [OF Suc] top])
      (use rot hd conjunct2 [OF Suc] in simp_all)
  have r1: "xs @ [x] = rotate (Suc k) (R q)" using rot by (simp add: rotate1_hd_tl)
  have "hd (rotate (Suc k) (R q)) = R q ! (Suc k mod ?n)" by (rule hd_rotate_conv_nth [OF ne])
  then show ?case using step unfolding r1 by (simp only: funpow.simps comp_apply fun_upd_upd)
qed

text \<open>The thread that runs is always one of the highest ready priority.\<close>

lemma runs_highest:
  assumes "rep s R" "top_queue R q"
  shows "\<exists>x \<in> set (R q). cur (resched s) = Some x"
proof -
  obtain x xs where x: "R q = x # xs" using assms(2) by (cases "R q") (auto simp: top_queue_def)
  show ?thesis
  proof (cases "cur s = Some x")
    case True
    then show ?thesis using resched_rotate [OF assms x True] x by (cases xs) auto
  next
    case False
    then show ?thesis using resched_pick [OF assms x] x by simp
  qed
qed

end

end
