(* ===== verification/Sched64.thy ===== *)
theory Sched64
  imports Paging_Correct Ready_Rings
begin

text \<open>
  The preemptive scheduler (\<open>src/sched64.c\<close>, types in \<open>src/kernel64.h\<close>). The array
  \<open>threads64\<close> is a function from indices to records, a \<open>thread64_t *\<close> an index or \<open>None\<close>; the
  stack of thread \<open>i\<close> is in memory, at its place in the array, whose address the linker chose.
  \<open>rsp_reg\<close> is each processor's stack pointer.

  \<open>context_switch64\<close> appears here as the exchange of stack pointers it makes; what it pushes and
  pops is in theory \<open>Context_Switch\<close>. When it returns, another thread is running: one that was
  suspended at this same place, or a new one at \<open>thread_start64\<close>. Both go on to call
  \<open>NKern_UnlockAfterSwitch\<close>, so the model does too. \<open>p\<close> is the processor that runs the code.
\<close>

datatype thread64_state = T64_UNUSED | T64_READY | T64_RUNNING

record thread64 =
  rsp :: u64
  thread_cr3 :: u64
  priority :: nat
  state :: thread64_state
  time_slice :: u32
  thread_name :: string
  next_thread :: "nat option"

record sched64 = paging +
  threads64 :: "nat \<Rightarrow> thread64"
  threads64_addr :: nat
  thread64_count :: nat
  ready_bitmap :: u32
  ready_queue :: "nat \<Rightarrow> nat option"
  current :: "nat \<Rightarrow> nat option"
  loaded_cr3 :: "nat \<Rightarrow> u64"
  dummy_rsp :: "nat \<Rightarrow> u64"
  rsp_reg :: "nat \<Rightarrow> u64"

abbreviation (input) MAX_THREADS64 :: nat where "MAX_THREADS64 \<equiv> 16"
abbreviation (input) NUM_PRIORITIES64 :: nat where "NUM_PRIORITIES64 \<equiv> 8"
abbreviation (input) STACK_SIZE64 :: nat where "STACK_SIZE64 \<equiv> 8192"

text \<open>A \<open>thread64_t\<close> takes 8240 bytes, its stack starts at offset 32.\<close>

definition stack_top64 :: "'a sched64_scheme \<Rightarrow> nat \<Rightarrow> nat" where
  "stack_top64 s i = threads64_addr s + 8240 * i + 32 + STACK_SIZE64"

abbreviation set_thread :: "nat \<Rightarrow> (thread64 \<Rightarrow> thread64) \<Rightarrow> 'a sched64_scheme \<Rightarrow> 'a sched64_scheme" where
  "set_thread i f s \<equiv> s\<lparr>threads64 := (threads64 s)(i := f (threads64 s i))\<rparr>"

abbreviation nexts :: "'a sched64_scheme \<Rightarrow> nat \<Rightarrow> nat option" where
  "nexts s \<equiv> (\<lambda>i. next_thread (threads64 s i))"

section \<open>The operations\<close>

definition find_highest_bit64 :: "u32 \<Rightarrow> int" where
  "find_highest_bit64 bitmap = (if bitmap = 0 then - 1 else int (highest_from bitmap 31))"

definition sched64_init :: "'a sched64_scheme \<Rightarrow> 'a sched64_scheme" where
  "sched64_init s =
     (let s = s\<lparr>ready_bitmap := 0\<rparr>;
          s = foldl (\<lambda>s i. s\<lparr>ready_queue := (ready_queue s)(i := None)\<rparr>) s [0..<NUM_PRIORITIES64];
          s = foldl (\<lambda>s i. s\<lparr>current := (current s)(i := None)\<rparr>) s [0..<16]
      in s\<lparr>thread64_count := 0\<rparr>)"

text \<open>
  The initial stack: padding, \<open>entry\<close>, \<open>thread_start64\<close>, RFLAGS, six zero registers. The second
  component is the stack pointer stored in the thread.
\<close>

definition initial_stack :: "u64 \<Rightarrow> u64 \<Rightarrow> nat \<Rightarrow> memory \<Rightarrow> memory \<times> nat" where
  "initial_stack thread_start entry_point stop m =
     (let sp = stop - 8;
          sp = sp - 8; m = write64 m sp entry_point;
          sp = sp - 8; m = write64 m sp thread_start;
          sp = sp - 8; m = write64 m sp 0x202;
          sp = sp - 6 * 8;
          m = foldl (\<lambda>m i. write64 m (sp + 8 * i) 0) m [0..<6]
      in (m, sp))"

definition sched64_create_thread ::
    "u64 \<Rightarrow> u64 \<Rightarrow> nat \<Rightarrow> string \<Rightarrow> 'a sched64_scheme \<Rightarrow> ('a sched64_scheme, nat option) presult" where
  "sched64_create_thread thread_start entry_point prio name s =
     (if MAX_THREADS64 \<le> thread64_count s \<or> NUM_PRIORITIES64 \<le> prio then Some (Inr (None, s))
      else
        let t = thread64_count s;
            s = s\<lparr>thread64_count := thread64_count s + 1\<rparr>;
            s = set_thread t (\<lambda>th. th\<lparr>priority := prio, state := T64_READY, time_slice := 5,
                                      thread_name := name\<rparr>) s
        in bind_p (create_address_space s) (\<lambda>root s.
             let s = set_thread t (\<lambda>th. th\<lparr>thread_cr3 := root\<rparr>) s;
                 (m, sp) = initial_stack thread_start entry_point (stack_top64 s t) (mem s);
                 s = set_thread t (\<lambda>th. th\<lparr>rsp := of_nat sp\<rparr>) (s\<lparr>mem := m\<rparr>)
             in case ready_queue s prio of
                  None \<Rightarrow>
                    let s = set_thread t (\<lambda>th. th\<lparr>next_thread := Some t\<rparr>) s;
                        s = s\<lparr>ready_queue := (ready_queue s)(prio := Some t)\<rparr>
                    in Some (Inr (Some t, s\<lparr>ready_bitmap := ready_bitmap s OR push_bit prio 1\<rparr>))
                | Some head \<Rightarrow>
                    (case ring_tail (nexts s) head head of
                       None \<Rightarrow> None
                     | Some tail \<Rightarrow>
                         let s = set_thread tail (\<lambda>th. th\<lparr>next_thread := Some t\<rparr>) s;
                             s = set_thread t (\<lambda>th. th\<lparr>next_thread := Some head\<rparr>) s
                         in Some (Inr (Some t, s\<lparr>ready_bitmap := ready_bitmap s OR push_bit prio 1\<rparr>)))))"

text \<open>
  The stack pointers' side of \<open>context_switch64(prev_rsp_ptr, next->rsp)\<close>: the call and the
  seven pushes move the old stack pointer down by 64 before it is saved; the seven pops and the
  \<open>ret\<close> move the new one up by 64.
\<close>

definition context_switch64 :: "nat \<Rightarrow> nat option \<Rightarrow> u64 \<Rightarrow> 'a sched64_scheme \<Rightarrow> 'a sched64_scheme" where
  "context_switch64 p prev new_rsp s =
     (let saved = rsp_reg s p - 64;
          s = (case prev of
                 Some t \<Rightarrow> set_thread t (\<lambda>th. th\<lparr>rsp := saved\<rparr>) s
               | None \<Rightarrow> s\<lparr>dummy_rsp := (dummy_rsp s)(get_cpu_index p := saved)\<rparr>)
      in s\<lparr>rsp_reg := (rsp_reg s)(p := new_rsp + 64)\<rparr>)"

text \<open>
  A set bit of \<open>ready_bitmap\<close> without a queue, where the C code would follow a null pointer, does
  not occur under \<open>sched_rep\<close> below; the model gives up there.
\<close>

definition sched64_reschedule :: "nat \<Rightarrow> 'a sched64_scheme \<Rightarrow> 'a sched64_scheme" where
  "sched64_reschedule p s =
     (let c = get_cpu_index p;
          s = NKern_LockForSwitch p s;
          prio = find_highest_bit64 (ready_bitmap s)
      in if prio < 0 then NKern_UnlockAfterSwitch p s
         else case ready_queue s (nat prio) of
                None \<Rightarrow> NKern_UnlockAfterSwitch p s
              | Some head \<Rightarrow>
                  let prev = current s c;
                      (next, s) =
                        (if Some head = prev \<and> next_thread (threads64 s head) \<noteq> Some head
                         then (next_thread (threads64 s head),
                               s\<lparr>ready_queue := (ready_queue s)(nat prio := next_thread (threads64 s head))\<rparr>)
                         else (Some head, s))
                  in if next = prev then NKern_UnlockAfterSwitch p s
                     else
                       let t = the next;
                           s = s\<lparr>current := (current s)(c := next)\<rparr>;
                           s = set_thread t (\<lambda>th. th\<lparr>state := T64_RUNNING\<rparr>) s;
                           s = (case prev of None \<Rightarrow> s | Some q \<Rightarrow> set_thread q (\<lambda>th. th\<lparr>state := T64_READY\<rparr>) s);
                           need_cr3_switch = (thread_cr3 (threads64 s t) \<noteq> loaded_cr3 s c);
                           s = (if need_cr3_switch
                                then s\<lparr>loaded_cr3 := (loaded_cr3 s)(c := thread_cr3 (threads64 s t))\<rparr> else s);
                           s = (if need_cr3_switch
                                then s\<lparr>cr3 := (cr3 s)(p := thread_cr3 (threads64 s t))\<rparr> else s);
                           s = context_switch64 p prev (rsp (threads64 s t)) s
                       in NKern_UnlockAfterSwitch p s)"

definition sched64_timer_tick :: "nat \<Rightarrow> 'a sched64_scheme \<Rightarrow> 'a sched64_scheme" where
  "sched64_timer_tick p s =
     (case current s (get_cpu_index p) of
        None \<Rightarrow> s
      | Some t \<Rightarrow>
          if time_slice (threads64 s t) > 0
          then let s = set_thread t (\<lambda>th. th\<lparr>time_slice := time_slice th - 1\<rparr>) s
               in if time_slice (threads64 s t) = 0
                  then let s = set_thread t (\<lambda>th. th\<lparr>time_slice := 5\<rparr>) s
                       in if NKern_IsLocked p s then NKern_RequestReschedule p s
                          else sched64_reschedule p s
                  else s
          else s)"

section \<open>The lock functions leave the scheduler's variables alone\<close>

lemma NKern_LockForSwitch_frame:
  "\<exists>cnt l f. NKern_LockForSwitch p s = s\<lparr>preempt_disable_count := cnt, big_kernel_lock := l, iflag := f\<rparr>"
proof -
  have "NKern_LockForSwitch p s = s\<lparr>preempt_disable_count := preempt_disable_count (NKern_LockForSwitch p s),
      big_kernel_lock := big_kernel_lock (NKern_LockForSwitch p s), iflag := iflag (NKern_LockForSwitch p s)\<rparr>"
    by (simp add: nkern_defs)
  then show ?thesis by blast
qed

lemma NKern_UnlockAfterSwitch_frame:
  "\<exists>cnt l f. NKern_UnlockAfterSwitch p s = s\<lparr>preempt_disable_count := cnt, big_kernel_lock := l, iflag := f\<rparr>"
proof -
  have "NKern_UnlockAfterSwitch p s =
      s\<lparr>preempt_disable_count := preempt_disable_count (NKern_UnlockAfterSwitch p s),
        big_kernel_lock := big_kernel_lock (NKern_UnlockAfterSwitch p s), iflag := iflag (NKern_UnlockAfterSwitch p s)\<rparr>"
    by (simp add: nkern_defs)
  then show ?thesis by blast
qed

lemma switch_lock_fields [simp, frame_simps]:
  "threads64 (NKern_LockForSwitch p s) = threads64 s" "ready_bitmap (NKern_LockForSwitch p s) = ready_bitmap s"
  "ready_queue (NKern_LockForSwitch p s) = ready_queue s" "current (NKern_LockForSwitch p s) = current s"
  "thread64_count (NKern_LockForSwitch p s) = thread64_count s" "loaded_cr3 (NKern_LockForSwitch p s) = loaded_cr3 s"
  "mem (NKern_LockForSwitch p s) = mem s" "heap_arena (NKern_LockForSwitch p s) = heap_arena s"
  "heap_list (NKern_LockForSwitch p s) = heap_list s" "cr3 (NKern_LockForSwitch p s) = cr3 s"
  "rsp_reg (NKern_LockForSwitch p s) = rsp_reg s"
  using NKern_LockForSwitch_frame [of p s] by auto

lemma switch_unlock_fields [simp, frame_simps]:
  "threads64 (NKern_UnlockAfterSwitch p s) = threads64 s" "ready_bitmap (NKern_UnlockAfterSwitch p s) = ready_bitmap s"
  "ready_queue (NKern_UnlockAfterSwitch p s) = ready_queue s" "current (NKern_UnlockAfterSwitch p s) = current s"
  "thread64_count (NKern_UnlockAfterSwitch p s) = thread64_count s" "loaded_cr3 (NKern_UnlockAfterSwitch p s) = loaded_cr3 s"
  "mem (NKern_UnlockAfterSwitch p s) = mem s" "heap_arena (NKern_UnlockAfterSwitch p s) = heap_arena s"
  "heap_list (NKern_UnlockAfterSwitch p s) = heap_list s" "cr3 (NKern_UnlockAfterSwitch p s) = cr3 s"
  "rsp_reg (NKern_UnlockAfterSwitch p s) = rsp_reg s"
  using NKern_UnlockAfterSwitch_frame [of p s] by auto

lemma context_switch64_fields [simp, frame_simps]:
  "ready_bitmap (context_switch64 p prev r s) = ready_bitmap s" "ready_queue (context_switch64 p prev r s) = ready_queue s"
  "current (context_switch64 p prev r s) = current s" "thread64_count (context_switch64 p prev r s) = thread64_count s"
  "loaded_cr3 (context_switch64 p prev r s) = loaded_cr3 s" "cr3 (context_switch64 p prev r s) = cr3 s"
  "mem (context_switch64 p prev r s) = mem s" "heap_arena (context_switch64 p prev r s) = heap_arena s"
  "heap_list (context_switch64 p prev r s) = heap_list s"
  "rsp_reg (context_switch64 p prev r s) = (rsp_reg s)(p := r + 64)"
  "threads64 (context_switch64 p prev r s) =
    (case prev of None \<Rightarrow> threads64 s | Some t \<Rightarrow> (threads64 s)(t := (threads64 s t)\<lparr>rsp := rsp_reg s p - 64\<rparr>))"
  by (simp_all add: context_switch64_def Let_def split: option.splits)

text \<open>The heap's contract on the scheduler.\<close>

lemma reschedule_heap [simp, frame_simps]:
  "mem (sched64_reschedule p s) = mem s" "heap_arena (sched64_reschedule p s) = heap_arena s"
  "heap_list (sched64_reschedule p s) = heap_list s"
  by (simp_all add: sched64_reschedule_def Let_def split: option.splits if_splits)

interpretation kheap: heap_scheduler sched64_reschedule
  by unfold_locales simp_all

section \<open>The queues\<close>

definition sched_rep :: "'a sched64_scheme \<Rightarrow> (nat \<Rightarrow> nat list) \<Rightarrow> bool" where
  "sched_rep s R \<longleftrightarrow>
     queues_rep (ready_bitmap s) (ready_queue s) (nexts s) (\<lambda>x. priority (threads64 s x)) (thread64_count s) R"

lemma sched_rep_cong:
  assumes "sched_rep s R" "ready_bitmap t = ready_bitmap s" "ready_queue t = ready_queue s"
    "\<And>x. next_thread (threads64 t x) = next_thread (threads64 s x)"
    "\<And>x. priority (threads64 t x) = priority (threads64 s x)"
    "thread64_count t = thread64_count s"
  shows "sched_rep t R"
  using assms unfolding sched_rep_def by simp

lemma sched_rep_top:
  assumes "sched_rep s R" "top_queue R q" "R q = x # xs"
  shows "find_highest_bit64 (ready_bitmap s) = int q" "ready_queue s q = Some x"
    "next_thread (threads64 s x) = Some (hd (xs @ [x]))" "q < NUM_PRIORITIES64" "distinct (x # xs)"
  using queues_rep_top [OF assms(1) [unfolded sched_rep_def] assms(2,3)] by (simp_all add: find_highest_bit64_def)

text \<open>What a switch to thread \<open>t\<close> does to the scheduler's variables.\<close>

lemma reschedule_pick:
  assumes "sched_rep s R" "top_queue R q" "R q = x # xs" "current s (get_cpu_index p) \<noteq> Some x"
  defines "u \<equiv> sched64_reschedule p s" and "c \<equiv> get_cpu_index p"
  shows "ready_bitmap u = ready_bitmap s" "ready_queue u = ready_queue s"
    "\<And>i. next_thread (threads64 u i) = next_thread (threads64 s i)" "\<And>i. priority (threads64 u i) = priority (threads64 s i)" "thread64_count u = thread64_count s"
    "current u = (current s)(c \<mapsto> x)" "state (threads64 u x) = T64_RUNNING"
    "rsp_reg u p = rsp (threads64 s x) + 64" 
    "loaded_cr3 u c = thread_cr3 (threads64 s x)"
    "cr3 u p = (if thread_cr3 (threads64 s x) = loaded_cr3 s c then cr3 s p else thread_cr3 (threads64 s x))"
    "\<And>v. current s c = Some v \<Longrightarrow> state (threads64 u v) = T64_READY \<and> rsp (threads64 u v) = rsp_reg s p - 64"
  using sched_rep_top [OF assms(1-3)] assms(4)
  unfolding u_def c_def sched64_reschedule_def
  by (simp_all add: Let_def split: option.splits)

lemma reschedule_alone:
  assumes "sched_rep s R" "top_queue R q" "R q = [x]" "current s (get_cpu_index p) = Some x"
  shows "sched64_reschedule p s = NKern_UnlockAfterSwitch p (NKern_LockForSwitch p s)"
  using sched_rep_top [OF assms(1-3)] assms(4) unfolding sched64_reschedule_def by (simp add: Let_def)

lemma reschedule_empty:
  assumes "ready_bitmap s = 0"
  shows "sched64_reschedule p s = NKern_UnlockAfterSwitch p (NKern_LockForSwitch p s)"
  using assms by (simp add: sched64_reschedule_def Let_def find_highest_bit64_def)

lemma reschedule_rotate:
  assumes "sched_rep s R" "top_queue R q" "R q = x # y # ys" "current s (get_cpu_index p) = Some x"
  defines "u \<equiv> sched64_reschedule p s" and "c \<equiv> get_cpu_index p"
  shows "ready_bitmap u = ready_bitmap s" "ready_queue u = (ready_queue s)(q \<mapsto> y)"
    "\<And>i. next_thread (threads64 u i) = next_thread (threads64 s i)"
    "\<And>i. priority (threads64 u i) = priority (threads64 s i)" "thread64_count u = thread64_count s"
    "current u = (current s)(c \<mapsto> y)" "state (threads64 u y) = T64_RUNNING"
    "state (threads64 u x) = T64_READY" "rsp_reg u p = rsp (threads64 s y) + 64"
    "rsp (threads64 u x) = rsp_reg s p - 64" "loaded_cr3 u c = thread_cr3 (threads64 s y)"
    "cr3 u p = (if thread_cr3 (threads64 s y) = loaded_cr3 s c then cr3 s p else thread_cr3 (threads64 s y))"
proof -
  have xy: "x \<noteq> y" using sched_rep_top(5) [OF assms(1-3)] by simp
  show "ready_bitmap u = ready_bitmap s" "ready_queue u = (ready_queue s)(q \<mapsto> y)"
    "\<And>i. next_thread (threads64 u i) = next_thread (threads64 s i)"
    "\<And>i. priority (threads64 u i) = priority (threads64 s i)" "thread64_count u = thread64_count s"
    "current u = (current s)(c \<mapsto> y)" "state (threads64 u y) = T64_RUNNING"
    "state (threads64 u x) = T64_READY" "rsp_reg u p = rsp (threads64 s y) + 64"
    "rsp (threads64 u x) = rsp_reg s p - 64" "loaded_cr3 u c = thread_cr3 (threads64 s y)"
    "cr3 u p = (if thread_cr3 (threads64 s y) = loaded_cr3 s c then cr3 s p else thread_cr3 (threads64 s y))"
    using sched_rep_top [OF assms(1-3)] assms(4) xy
    unfolding u_def c_def sched64_reschedule_def by (simp_all add: Let_def)
qed

lemma sched_rep_rotate:
  assumes rep: "sched_rep s R" and x: "R q = x # y # ys" and t: "ready_bitmap t = ready_bitmap s"
    "ready_queue t = (ready_queue s)(q \<mapsto> y)"
    "\<And>i. next_thread (threads64 t i) = next_thread (threads64 s i)"
    "\<And>i. priority (threads64 t i) = priority (threads64 s i)" "thread64_count t = thread64_count s"
  shows "sched_rep t (R(q := y # ys @ [x]))"
  using queues_rep_rotate [OF rep [unfolded sched_rep_def] x] by (simp add: sched_rep_def t)

interpretation rr64: ready_scheduler sched_rep "\<lambda>s. current s (get_cpu_index p)" "sched64_reschedule p" for p
proof
  fix s :: "'a sched64_scheme" and R q x xs
  assume rep: "sched_rep s R"
  show "sched_rep (sched64_reschedule p s) R \<and> current (sched64_reschedule p s) (get_cpu_index p) = current s (get_cpu_index p)"
    if "\<And>q. R q = []"
  proof -
    have "ready_bitmap s = 0" using rep that unfolding sched_rep_def by (rule queues_rep_empty)
    then show ?thesis using rep by (auto simp: reschedule_empty intro: sched_rep_cong)
  qed
  assume top: "top_queue R q" and x: "R q = x # xs"
  show "sched_rep (sched64_reschedule p s) R \<and> current (sched64_reschedule p s) (get_cpu_index p) = Some x"
    if "current s (get_cpu_index p) \<noteq> Some x"
    using reschedule_pick [OF rep top x that] by (auto intro: sched_rep_cong [OF rep])
  show "sched_rep (sched64_reschedule p s) (R(q := xs @ [x])) \<and>
      current (sched64_reschedule p s) (get_cpu_index p) = Some (hd (xs @ [x]))"
    if cur: "current s (get_cpu_index p) = Some x"
  proof (cases xs)
    case Nil
    then have "R(q := xs @ [x]) = R" using x by auto
    then show ?thesis using reschedule_alone [OF rep top _ cur] x Nil cur rep by (auto intro: sched_rep_cong)
  next
    case (Cons y ys)
    note r = reschedule_rotate [OF rep top x [unfolded Cons] cur]
    show ?thesis using sched_rep_rotate [OF rep x [unfolded Cons] r(1-5)] r(6) by (simp add: Cons)
  qed
qed

section \<open>Creating threads\<close>

lemma initial_stack_words:
  assumes "80 \<le> stop" "initial_stack thread_start e stop m = (m', sp)"
  shows "sp = stop - 80" "\<And>i. i < 6 \<Longrightarrow> read64 m' (sp + 8 * i) = 0" "read64 m' (sp + 48) = 0x202"
    "read64 m' (sp + 56) = thread_start" "read64 m' (sp + 64) = e"
    "\<And>x. x < stop - 80 \<or> stop \<le> x \<Longrightarrow> m' x = m x"
proof -
  define b where "b = stop - 80"
  have b: "stop = b + 80" using assms(1) by (simp add: b_def)
  have run: "initial_stack thread_start e stop m =
      (foldl (\<lambda>m i. write64 m (b + 8 * i) 0) (write64 (write64 (write64 m (b + 64) e) (b + 56) thread_start)
        (b + 48) 0x202) [0..<6], b)"
    by (simp add: initial_stack_def Let_def b add.commute)
  have fold: "[0..<6] = [0, 1, 2, 3, 4, 5]" by (simp add: upt_rec)
  note m' = assms(2) [unfolded run fold, simplified]
  show "sp = stop - 80" using m' b by simp
  show "read64 m' (sp + 8 * i) = 0" if "i < 6" for i
  proof -
    have "i = 0 \<or> i = 1 \<or> i = 2 \<or> i = 3 \<or> i = 4 \<or> i = 5" using that by auto
    then show ?thesis using m' by (elim disjE) (auto simp: mem_simps)
  qed
  show "read64 m' (sp + 48) = 0x202" "read64 m' (sp + 56) = thread_start" "read64 m' (sp + 64) = e"
    using m' by (auto simp: mem_simps)
  show "m' x = m x" if "x < stop - 80 \<or> stop \<le> x" for x
    using m' that b by (auto simp: mem_simps)
qed

lemma fresh_sched [simp]:
  "fresh (threads64_update f s) U = fresh s U" "fresh (thread64_count_update g s) U = fresh s U"
  "frames_avail (threads64_update f s) = frames_avail s"
  "frames_avail (thread64_count_update g s) = frames_avail s"
  "fresh (ready_queue_update h s) U = fresh s U" "fresh (ready_bitmap_update k s) U = fresh s U"
  "frames_avail (ready_queue_update h s) = frames_avail s" "frames_avail (ready_bitmap_update k s) = frames_avail s"
  "fresh (mem_update l s) U = fresh s U"
  by (simp_all add: fresh_def frames_avail_def alloc_ok_def memmap_ok_def free_frames_def)

lemma strip_sched:
  assumes "strip s' = strip s"
  shows "threads64 s' = threads64 s" "threads64_addr s' = threads64_addr s"
    "thread64_count s' = thread64_count s" "ready_bitmap s' = ready_bitmap s" "ready_queue s' = ready_queue s"
    "current s' = current s"
proof -
  have "threads64 (strip s') = threads64 (strip s)" "threads64_addr (strip s') = threads64_addr (strip s)"
    "thread64_count (strip s') = thread64_count (strip s)" "ready_bitmap (strip s') = ready_bitmap (strip s)"
    "ready_queue (strip s') = ready_queue (strip s)" "current (strip s') = current (strip s)"
    using assms by simp_all
  then show "threads64 s' = threads64 s" "threads64_addr s' = threads64_addr s"
    "thread64_count s' = thread64_count s" "ready_bitmap s' = ready_bitmap s" "ready_queue s' = ready_queue s"
    "current s' = current s" by (simp_all add: strip_def)
qed

text \<open>Appending a new thread to its queue.\<close>

lemma sched_rep_append:
  assumes rep: "sched_rep s R" and q: "q < NUM_PRIORITIES64" and t: "t = thread64_count s" "t < MAX_THREADS64"
    and u: "thread64_count u = Suc t" "ready_bitmap u = ready_bitmap s OR push_bit q 1"
    "ready_queue u = (ready_queue s)(q \<mapsto> hd (R q @ [t]))"
    "\<And>i. i \<noteq> t \<Longrightarrow> priority (threads64 u i) = priority (threads64 s i)" "priority (threads64 u t) = q"
    "nexts u = (if R q = [] then (nexts s)(t \<mapsto> t) else (nexts s)(last (R q) \<mapsto> t, t \<mapsto> hd (R q)))"
  shows "sched_rep u (R(q := R q @ [t]))"
  unfolding sched_rep_def u(1-3)
  by (rule queues_rep_append [OF rep [unfolded sched_rep_def, folded t(1)] q t(2) u(4,5,6)])

text \<open>A thread's prepared stack lies outside the pages in \<open>T\<close>.\<close>

definition stack_apart :: "'a sched64_scheme \<Rightarrow> nat \<Rightarrow> u64 set \<Rightarrow> bool" where
  "stack_apart s t T \<longleftrightarrow> (\<forall>f \<in> T. stack_top64 s t \<le> unat f \<or> unat f + 4096 \<le> stack_top64 s t - 80)"

lemma create_thread_ok:
  assumes rep: "sched_rep s R" and t: "t = thread64_count s" "t < MAX_THREADS64" and q: "q < NUM_PRIORITIES64"
    and fr: "fresh s U" "5 \<le> length (frames_avail s)" "table (kernel_pdpt s)" "kernel_pdpt s \<in> U"
  obtains root s' where "sched64_create_thread thread_start e q name s = Some (Inr (Some t, s'))"
    "sched_rep s' (R(q := R q @ [t]))" "thread64_count s' = Suc t" "current s' = current s"
    "state (threads64 s' t) = T64_READY" "time_slice (threads64 s' t) = 5"
    "rsp (threads64 s' t) = of_nat (stack_top64 s t - 80)"
    "\<And>i. i \<noteq> t \<Longrightarrow> (threads64 s' i)\<lparr>next_thread := None\<rparr> = (threads64 s i)\<lparr>next_thread := None\<rparr>"
    "read64 (mem s') (stack_top64 s t - 32) = 0x202" "read64 (mem s') (stack_top64 s t - 24) = thread_start"
    "read64 (mem s') (stack_top64 s t - 16) = e"
    "fresh s' U" "length (frames_avail s) = length (frames_avail s') + 5" "kernel_pdpt s' = kernel_pdpt s"
    "thread_cr3 (threads64 s' t) = root" "root \<notin> U" "fresh s' (insert root U)" "thread_name (threads64 s' t) = name"
    "strip s' = strip (s\<lparr>threads64 := threads64 s', thread64_count := Suc t, ready_queue := ready_queue s',
       ready_bitmap := ready_bitmap s'\<rparr>)" "set (pf.frames s') \<subseteq> set (pf.frames s)"
    "\<And>x. x < stack_top64 s t - 80 \<or> stack_top64 s t \<le> x \<Longrightarrow>
       (\<forall>f \<in> set (pf.frames s). x < unat f \<or> unat f + 4096 \<le> x) \<Longrightarrow> mem s' x = mem s x"
    "\<exists>t3 d pt f. pf.frames s = root # t3 # d # pt # f # pf.frames s' \<and>
       (stack_apart s t (insert (kernel_pdpt s) (set (pf.frames s))) \<longrightarrow> space (mem s') (kernel_pdpt s) root t3 d pt f)"
proof -
  let ?top = "stack_top64 s t"
  define s1 where "s1 = set_thread t (\<lambda>th. th\<lparr>priority := q, state := T64_READY, time_slice := 5,
      thread_name := name\<rparr>) (s\<lparr>thread64_count := Suc t\<rparr>)"
  have s1: "fresh s1 U" "5 \<le> length (frames_avail s1)" "table (kernel_pdpt s1)" "kernel_pdpt s1 \<in> U"
    using fr by (simp_all add: s1_def)
  obtain root t3 d pt f s2 where 2: "create_address_space s1 = Some (Inr (root, s2))" "strip s2 = strip s1"
      "fresh s2 (U \<union> {root, t3, d, pt, f})" "length (frames_avail s1) = length (frames_avail s2) + 5" "root \<notin> U"
      "only_frames {root, t3, d, pt, f} (mem s1) (mem s2)" "pf.frames s1 = root # t3 # d # pt # f # pf.frames s2"
      "space (mem s2) (kernel_pdpt s1) root t3 d pt f"
    by (rule create_address_space_distinct [OF s1]) auto
  have left: "fresh s2 U" "length (frames_avail s) = length (frames_avail s2) + 5"
    using 2(3,4) by (auto simp: fresh_def s1_def)
  have k2: "kernel_pdpt s2 = kernel_pdpt s" using strip_fields(2) [OF 2(2)] by (simp add: s1_def)
  note f2 = strip_sched [OF 2(2)]
  have top2: "stack_top64 s2 t = ?top" using f2(2) by (simp add: stack_top64_def s1_def)
  have top: "80 \<le> ?top" by (simp add: stack_top64_def)
  obtain m sp where st: "initial_stack thread_start e ?top (mem s2) = (m, sp)" by fastforce
  note words = initial_stack_words [OF top st]
  have sp: "stack_top64 s t - 32 = sp + 48" "stack_top64 s t - 24 = sp + 56" "stack_top64 s t - 16 = sp + 64"
    using words(1) top by simp_all
  define th where "th = (threads64 s t)\<lparr>priority := q, state := T64_READY, time_slice := 5, thread_name := name,
      thread_cr3 := root, rsp := of_nat sp\<rparr>"
  define u where "u = s2\<lparr>threads64 := (threads64 s)(t := th), mem := m\<rparr>"
  have u: "ready_queue u = ready_queue s" "ready_bitmap u = ready_bitmap s" "thread64_count u = Suc t"
    "threads64 u = (threads64 s)(t := th)" "current u = current s" "mem u = m"
    using f2 by (simp_all add: u_def s1_def)
  have th: "threads64 s2 = (threads64 s)(t := (threads64 s t)\<lparr>priority := q, state := T64_READY, time_slice := 5,
      thread_name := name\<rparr>)" using f2(1) by (simp add: s1_def)
  have run: "sched64_create_thread thread_start e q name s =
      (case ready_queue u q of
         None \<Rightarrow> Some (Inr (Some t, (set_thread t (\<lambda>th. th\<lparr>next_thread := Some t\<rparr>) u)
             \<lparr>ready_queue := (ready_queue u)(q \<mapsto> t), ready_bitmap := ready_bitmap u OR push_bit q 1\<rparr>))
       | Some head \<Rightarrow>
           (case ring_tail (nexts u) head head of None \<Rightarrow> None
            | Some tail \<Rightarrow> Some (Inr (Some t,
                (set_thread t (\<lambda>th. th\<lparr>next_thread := Some head\<rparr>)
                  (set_thread tail (\<lambda>th. th\<lparr>next_thread := Some t\<rparr>) u))\<lparr>ready_bitmap := ready_bitmap u OR push_bit q 1\<rparr>))))"
    unfolding sched64_create_thread_def using t q 2(1) [unfolded s1_def] top2 st
    by (simp add: Let_def u_def th_def th stack_top64_def split: option.splits)
  have nu: "nexts u = nexts s" by (auto simp: u(4) th_def)
  define w where "w = (if R q = []
      then (set_thread t (\<lambda>th. th\<lparr>next_thread := Some t\<rparr>) u)
         \<lparr>ready_queue := (ready_queue u)(q \<mapsto> t), ready_bitmap := ready_bitmap u OR push_bit q 1\<rparr>
      else (set_thread t (\<lambda>th. th\<lparr>next_thread := Some (hd (R q))\<rparr>)
              (set_thread (last (R q)) (\<lambda>th. th\<lparr>next_thread := Some t\<rparr>) u))
             \<lparr>ready_bitmap := ready_bitmap u OR push_bit q 1\<rparr>)"
  have rq: "ready_queue s q = (case R q of [] \<Rightarrow> None | x # _ \<Rightarrow> Some x)" 
    using rep q unfolding sched_rep_def by (rule queues_rep_head)
  have tnew: "t \<notin> set (R q)" using queues_rep_new [OF rep [unfolded sched_rep_def]] t(1) by simp
  have tail: "ring_tail (nexts u) (hd (R q)) (hd (R q)) = Some (last (R q))" if "R q \<noteq> []"
    unfolding nu using rep that unfolding sched_rep_def by (rule queues_rep_tail)
  have go: "sched64_create_thread thread_start e q name s = Some (Inr (Some t, w))"
    using run rq tail by (cases "R q") (simp_all add: u w_def)
  have lt: "R q \<noteq> [] \<Longrightarrow> last (R q) \<noteq> t" using tnew by auto
  show ?thesis
  proof (rule that [OF go])
    show "sched_rep w (R(q := R q @ [t]))"
    proof (rule sched_rep_append [OF rep q t])
      show "ready_queue w = (ready_queue s)(q \<mapsto> hd (R q @ [t]))"
        using rq by (cases "R q") (auto simp: w_def u)
      show "nexts w = (if R q = [] then (nexts s)(t \<mapsto> t) else (nexts s)(last (R q) \<mapsto> t, t \<mapsto> hd (R q)))"
        using lt by (auto simp: w_def u th_def fun_eq_iff)
      show "priority (threads64 w t) = q" using lt by (auto simp: w_def u th_def)
      show "priority (threads64 w i) = priority (threads64 s i)" if "i \<noteq> t" for i
        using that by (auto simp: w_def u)
    qed (simp_all add: w_def u)
    show "(threads64 w i)\<lparr>next_thread := None\<rparr> = (threads64 s i)\<lparr>next_thread := None\<rparr>" if "i \<noteq> t" for i
      using that by (auto simp: w_def u)
    show "rsp (threads64 w t) = of_nat (stack_top64 s t - 80)"
      using lt words(1) by (auto simp: w_def u th_def)
    show "read64 (mem w) (stack_top64 s t - 32) = 0x202" "read64 (mem w) (stack_top64 s t - 24) = thread_start"
      "read64 (mem w) (stack_top64 s t - 16) = e"
      unfolding sp using words(3-5) by (simp_all add: w_def u)
    show "fresh w U" "length (frames_avail s) = length (frames_avail w) + 5" "kernel_pdpt w = kernel_pdpt s"
      using left k2 by (simp_all add: w_def u_def)
    show "fresh w (insert root U)" using 2(3) by (auto simp: w_def u_def) (auto simp: fresh_def)
    have fw: "pf.frames w = pf.frames s2" "pf.frames s1 = pf.frames s" by (simp_all add: w_def u_def s1_def pf.frames_def)
    show "set (pf.frames w) \<subseteq> set (pf.frames s)" using 2(7) unfolding fw by auto
    show "mem w x = mem s x" if "x < stack_top64 s t - 80 \<or> stack_top64 s t \<le> x"
        "\<forall>f \<in> set (pf.frames s). x < unat f \<or> unat f + 4096 \<le> x" for x
    proof -
      have "mem w x = m x" by (simp add: w_def u)
      also have "\<dots> = mem s2 x" by (rule words(6) [OF that(1)])
      also have "\<dots> = mem s1 x" using 2(6,7) that(2) by (auto simp: only_frames_def fw)
      finally show ?thesis by (simp add: s1_def)
    qed
    have "space (mem w) (kernel_pdpt s) root t3 d pt f" if apart: "stack_apart s t (insert (kernel_pdpt s) (set (pf.frames s)))"
    proof (rule space_cong)
      show "space (mem s2) (kernel_pdpt s) root t3 d pt f" using 2(8) by (simp add: s1_def)
      fix v x assume v: "v \<in> {kernel_pdpt s, root, t3, d, pt}" "unat v \<le> x" "x < unat v + 4096"
      then have "v \<in> insert (kernel_pdpt s) (set (pf.frames s))" using 2(7) unfolding fw by auto
      then have "x < ?top - 80 \<or> ?top \<le> x" using apart v(2,3) by (fastforce simp: stack_apart_def)
      then show "mem w x = mem s2 x" using words(6) by (simp add: w_def u)
    qed
    then show "\<exists>t3 d pt f. pf.frames s = root # t3 # d # pt # f # pf.frames w \<and>
       (stack_apart s t (insert (kernel_pdpt s) (set (pf.frames s))) \<longrightarrow> space (mem w) (kernel_pdpt s) root t3 d pt f)"
      using 2(7) unfolding fw by blast
    have "strip w = (strip s2)\<lparr>threads64 := threads64 w, ready_queue := ready_queue w, ready_bitmap := ready_bitmap w\<rparr>"
      by (rule sched64.equality) (simp_all add: w_def u_def strip_def)
    then show "strip w = strip (s\<lparr>threads64 := threads64 w, thread64_count := Suc t, ready_queue := ready_queue w,
       ready_bitmap := ready_bitmap w\<rparr>)"
      unfolding 2(2) by (simp add: s1_def strip_def)
  qed (use lt 2(5) in \<open>auto simp: w_def u th_def\<close>)
qed

section \<open>Ticks\<close>

lemma NKern_switch_count [simp]:
  "preempt_disable_count (NKern_LockForSwitch p s) =
    (preempt_disable_count s)(get_cpu_index p := preempt_disable_count s (get_cpu_index p) + 1)"
  "preempt_disable_count (NKern_UnlockAfterSwitch p s) =
    (preempt_disable_count s)(get_cpu_index p := preempt_disable_count s (get_cpu_index p) - 1)"
  by (auto simp: nkern_defs)

lemma context_switch64_count [simp]:
  "preempt_disable_count (context_switch64 p prev r s) = preempt_disable_count s"
  by (simp add: context_switch64_def Let_def split: option.splits)

lemma reschedule_count: "preempt_disable_count (sched64_reschedule p s) = preempt_disable_count s"
  by (simp add: sched64_reschedule_def Let_def split: option.splits if_splits)

lemma reschedule_time_slice:
  "time_slice (threads64 (sched64_reschedule p s) i) = time_slice (threads64 s i)"
  by (simp add: sched64_reschedule_def Let_def split: option.splits if_splits)

lemma tick_early:
  assumes "current s (get_cpu_index p) = Some t" "time_slice (threads64 s t) = of_nat (Suc n)" "0 < n" "n < 5"
  shows "sched64_timer_tick p s = set_thread t (\<lambda>th. th\<lparr>time_slice := of_nat n\<rparr>) s"
proof -
  have "of_nat (Suc n) > (0 :: u32)" "of_nat n \<noteq> (0 :: u32)"
    using assms(3,4) by (simp_all add: word_gt_0 of_nat_eq_0_iff unat_eq_0 [symmetric] unat_of_nat word_unat_eq_iff
        del: of_nat_Suc)
  then show ?thesis using assms(1,2) by (simp add: sched64_timer_tick_def Let_def)
qed

lemma tick_last:
  assumes "current s (get_cpu_index p) = Some t" "time_slice (threads64 s t) = 1"
  shows "sched64_timer_tick p s =
    (let s = set_thread t (\<lambda>th. th\<lparr>time_slice := 5\<rparr>) s
     in if NKern_IsLocked p s then NKern_RequestReschedule p s else sched64_reschedule p s)"
  using assms by (simp add: sched64_timer_tick_def Let_def)

lemma ticks_before:
  assumes "current s (get_cpu_index p) = Some t" "time_slice (threads64 s t) = of_nat n" "k < n" "n \<le> 5"
  shows "(sched64_timer_tick p ^^ k) s = set_thread t (\<lambda>th. th\<lparr>time_slice := of_nat (n - k)\<rparr>) s"
  using assms(3)
proof (induction k)
  case 0
  have "(threads64 s t)\<lparr>time_slice := of_nat n\<rparr> = threads64 s t" using assms(2) by simp
  then show ?case by simp
next
  case (Suc k)
  note IH = Suc.IH [OF Suc_lessD [OF Suc.prems]]
  let ?u = "set_thread t (\<lambda>th. th\<lparr>time_slice := of_nat (n - k)\<rparr>) s"
  have n: "n - k = Suc (n - Suc k)" using Suc.prems by simp
  have "sched64_timer_tick p ?u = set_thread t (\<lambda>th. th\<lparr>time_slice := of_nat (n - Suc k)\<rparr>) ?u"
    by (rule tick_early) (use assms(1,4) Suc.prems n in simp_all)
  also have "\<dots> = set_thread t (\<lambda>th. th\<lparr>time_slice := of_nat (n - Suc k)\<rparr>) s" by simp
  finally show ?case by (simp only: funpow.simps comp_apply IH)
qed

lemma ticks_slice:
  assumes "current s (get_cpu_index p) = Some t" "time_slice (threads64 s t) = of_nat n" "0 < n" "n \<le> 5"
  shows "(sched64_timer_tick p ^^ n) s =
    (let s = set_thread t (\<lambda>th. th\<lparr>time_slice := 5\<rparr>) s
     in if NKern_IsLocked p s then NKern_RequestReschedule p s else sched64_reschedule p s)"
proof -
  have n: "n = Suc (n - 1)" using assms(3) by simp
  have "(sched64_timer_tick p ^^ n) s = sched64_timer_tick p ((sched64_timer_tick p ^^ (n - 1)) s)"
    by (subst n) simp
  also have "(sched64_timer_tick p ^^ (n - 1)) s = set_thread t (\<lambda>th. th\<lparr>time_slice := of_nat 1\<rparr>) s"
    using ticks_before [OF assms(1,2), of "n - 1"] assms(3,4) by simp
  finally have "(sched64_timer_tick p ^^ n) s =
      sched64_timer_tick p (set_thread t (\<lambda>th. th\<lparr>time_slice := of_nat 1\<rparr>) s)" .
  also have "\<dots> = (let s = set_thread t (\<lambda>th. th\<lparr>time_slice := 5\<rparr>) s
     in if NKern_IsLocked p s then NKern_RequestReschedule p s else sched64_reschedule p s)"
    by (subst tick_last [where t = t]) (use assms(1) in \<open>simp_all add: Let_def\<close>)
  finally show ?thesis .
qed

end
