(* ===== verification/Sched64_Correct.thy ===== *)
theory Sched64_Correct
  imports Sched64
begin

text \<open>
  Properties of the preemptive scheduler: thread creation, the choice of the next thread, the
  timer-driven round robin, the state \<open>sched64_reschedule\<close> leaves behind, and what happens when
  two processors share its queues.
\<close>

section \<open>A scheduler with threads\<close>

definition empty_thread :: thread64 where
  "empty_thread = \<lparr>rsp = 0, thread_cr3 = 0, priority = 0, state = T64_UNUSED, time_slice = 0,
     thread_name = '''', next_thread = None\<rparr>"

text \<open>A machine after \<open>paging_init_kernel_map\<close>, with no thread yet.\<close>

definition boot_sched :: sched64 where
  "boot_sched = paging.extend (boot_paging\<lparr>next_frame := 3, kernel_pml4 := 0x200000, kernel_pdpt := 0x201000\<rparr>)
     \<lparr>threads64 = (\<lambda>_. empty_thread), threads64_addr = 0x300000, thread64_count = 0, ready_bitmap = 0,
      ready_queue = (\<lambda>_. None), current = (\<lambda>_. None), loaded_cr3 = (\<lambda>_. 0), dummy_rsp = (\<lambda>_. 0),
      rsp_reg = (\<lambda>_. 0x90000)\<rparr>"

lemma boot_sched_fields [simp]:
  "\<not> map_active boot_sched" "next_frame boot_sched = 3" "frame_pool boot_sched = 0x200000"
  "kernel_pdpt boot_sched = 0x201000" "current boot_sched = (\<lambda>_. None)" "thread64_count boot_sched = 0"
  "ready_bitmap boot_sched = 0" "ready_queue boot_sched = (\<lambda>_. None)" "threads64_addr boot_sched = 0x300000"
  "preempt_disable_count boot_sched = (\<lambda>_. 0)" "\<not> big_kernel_lock boot_sched"
  by (simp_all add: boot_sched_def boot_paging_def memmap.defs paging.defs bare_defs)

lemma boot_sched_fresh: "fresh boot_sched {0x201000}" "length (frames_avail boot_sched) = 61"
  by (rule pool_fresh; simp) (simp add: frames_avail_def)

lemma boot_sched_table: "table 0x201000"
  by (simp add: table_def)

lemma sched_rep_none: "sched_rep s (\<lambda>_. [])"
  if "ready_bitmap s = 0" "\<And>q. q < NUM_PRIORITIES64 \<Longrightarrow> ready_queue s q = None" "thread64_count s \<le> MAX_THREADS64"
  unfolding sched_rep_def using that by (rule queues_rep_none)

lemma clear_queues:
  "foldl (\<lambda>s i. s\<lparr>ready_queue := (ready_queue s)(i := None)\<rparr>) s is =
    s\<lparr>ready_queue := (\<lambda>i. if i \<in> set is then None else ready_queue s i)\<rparr>"
  by (induction "is" arbitrary: s) (auto simp: fun_eq_iff)

lemma clear_current:
  "foldl (\<lambda>s i. s\<lparr>current := (current s)(i := None)\<rparr>) s is =
    s\<lparr>current := (\<lambda>i. if i \<in> set is then None else current s i)\<rparr>"
  by (induction "is" arbitrary: s) (auto simp: fun_eq_iff)

lemma sched64_init_rep: "sched_rep (sched64_init s) (\<lambda>_. [])"
  unfolding sched64_init_def clear_queues clear_current Let_def by (rule sched_rep_none) simp_all

text \<open>Two threads of priority 5.\<close>

lemma two_threads:
  obtains s :: sched64 where "sched_rep s ((\<lambda>_. [])(5 := [0, 1]))" "current s = (\<lambda>_. None)"
    "\<And>i. i < 2 \<Longrightarrow> time_slice (threads64 s i) = 5"
proof -
  obtain s1 :: sched64 where 1: "sched_rep s1 ((\<lambda>_. [])(5 := [0]))" "thread64_count s1 = 1" "current s1 = (\<lambda>_. None)"
      "time_slice (threads64 s1 0) = 5" "fresh s1 {0x201000}" "length (frames_avail s1) = 56" "kernel_pdpt s1 = 0x201000"
    by (rule create_thread_ok [OF sched_rep_none, of boot_sched 0 5 "{0x201000}" "0x1000" "0x2000" "''A''"])
      (use boot_sched_fresh boot_sched_table in simp_all)
  obtain s2 :: sched64 where 2: "sched_rep s2 (((\<lambda>_. [])(5 := [0]))(5 := [0] @ [1]))" "current s2 = current s1"
      "time_slice (threads64 s2 1) = 5" "(threads64 s2 0)\<lparr>next_thread := None\<rparr> = (threads64 s1 0)\<lparr>next_thread := None\<rparr>"
    by (rule create_thread_ok [OF 1(1), of 1 5 "{0x201000}" "0x1000" "0x3000" "''B''"])
      (use 1 boot_sched_table in simp_all)
  have "time_slice ((threads64 s2 0)\<lparr>next_thread := None\<rparr>) = 5" unfolding 2(4) using 1(4) by simp
  then have "time_slice (threads64 s2 i) = 5" if "i < 2" for i using that 2(3) by (auto simp: less_2_cases_iff)
  then show ?thesis using that [of s2] 2(1,2) 1(3) by simp
qed

section \<open>Ticks and reschedules\<close>

text \<open>Outside critical sections every fifth tick is a reschedule, and the others change nothing that
  lasts.\<close>

lemma ticks_are_reschedules:
  assumes "sched_rep s R" "top_queue R q" "current s (get_cpu_index p) = Some (hd (R q))"
    and "\<forall>x \<in> set (R q). time_slice (threads64 s x) = 5" "\<not> NKern_IsLocked p s"
  shows "(sched64_timer_tick p ^^ (5 * k)) s = (sched64_reschedule p ^^ k) s"
proof -
  have ne: "R q \<noteq> []" using assms(2) by (simp add: top_queue_def)
  note rr = rr64.round_robin [OF assms(1-3)]
  have slices: "time_slice (threads64 ((sched64_reschedule p ^^ j) s) i) = time_slice (threads64 s i)" for i j
    by (induction j) (simp_all add: reschedule_time_slice)
  have counts: "preempt_disable_count ((sched64_reschedule p ^^ j) s) = preempt_disable_count s" for j
    by (induction j) (simp_all add: reschedule_count)
  show ?thesis
  proof (induction k)
    case (Suc k)
    let ?u = "(sched64_reschedule p ^^ k) s" and ?t = "R q ! (k mod length (R q))"
    have "?t \<in> set (R q)" using ne by simp
    then have five: "time_slice (threads64 ?u ?t) = 5" using assms(4) slices by simp
    have "(threads64 ?u ?t)\<lparr>time_slice := 5\<rparr> = threads64 ?u ?t" using five by simp
    then have same: "set_thread ?t (\<lambda>th. th\<lparr>time_slice := 5\<rparr>) ?u = ?u" by simp
    have "\<not> NKern_IsLocked p ?u" using assms(5) counts by (simp add: NKern_IsLocked_def)
    then have "(sched64_timer_tick p ^^ 5) ?u = sched64_reschedule p ?u"
      using ticks_slice [of ?u p ?t 5] rr five by (simp add: same Let_def)
    moreover have "(sched64_timer_tick p ^^ (5 * Suc k)) s = (sched64_timer_tick p ^^ 5) ((sched64_timer_tick p ^^ (5 * k)) s)"
      by (simp only: mult_Suc_right funpow_add comp_apply)
    ultimately show ?case using Suc by simp
  qed simp
qed

section \<open>Properties\<close>

text \<open>C14. \<open>sched64_init\<close> and \<open>sched64_create_thread\<close> build the ready queues: after the
  initialisation all queues are empty, and creating a thread returns the null pointer and changes
  nothing when the table is full or the priority is out of range; otherwise the new thread is
  appended to the end of the circular queue of its priority (the other queues are as they were,
  the bitmap has exactly the bits of the non-empty queues), ready, with a full time slice and a
  stack prepared so that the first switch returns into \<open>thread_start64\<close> with \<open>entry\<close> next on
  the stack.\<close>

theorem sched64_create_thread_appends:
  assumes "sched_rep s R" "fresh s U" "5 \<le> length (frames_avail s)" "table (kernel_pdpt s)" "kernel_pdpt s \<in> U"
  defines "t \<equiv> thread64_count s"
  shows "sched_rep (sched64_init s') (\<lambda>_. []) \<and>
    (t < MAX_THREADS64 \<and> q < NUM_PRIORITIES64 \<longrightarrow>
      (\<exists>u. sched64_create_thread thread_start e q name s = Some (Inr (Some t, u)) \<and>
        sched_rep u (R(q := R q @ [t])) \<and> thread64_count u = Suc t \<and> current u = current s \<and>
        state (threads64 u t) = T64_READY \<and> time_slice (threads64 u t) = 5 \<and>
        rsp (threads64 u t) = of_nat (stack_top64 s t - 80) \<and>
        read64 (mem u) (stack_top64 s t - 24) = thread_start \<and> read64 (mem u) (stack_top64 s t - 16) = e)) \<and>
    (MAX_THREADS64 \<le> t \<or> NUM_PRIORITIES64 \<le> q \<longrightarrow>
      sched64_create_thread thread_start e q name s = Some (Inr (None, s)))"
proof (intro conjI impI)
  show "sched_rep (sched64_init s') (\<lambda>_. [])" by (rule sched64_init_rep)
  show "\<exists>u. sched64_create_thread thread_start e q name s = Some (Inr (Some t, u)) \<and>
        sched_rep u (R(q := R q @ [t])) \<and> thread64_count u = Suc t \<and> current u = current s \<and>
        state (threads64 u t) = T64_READY \<and> time_slice (threads64 u t) = 5 \<and>
        rsp (threads64 u t) = of_nat (stack_top64 s t - 80) \<and>
        read64 (mem u) (stack_top64 s t - 24) = thread_start \<and> read64 (mem u) (stack_top64 s t - 16) = e"
    if "t < MAX_THREADS64 \<and> q < NUM_PRIORITIES64"
    by (rule create_thread_ok [OF assms(1) refl, folded t_def, of q U thread_start e name]) (use that assms in auto)
  show "sched64_create_thread thread_start e q name s = Some (Inr (None, s))"
    if "MAX_THREADS64 \<le> t \<or> NUM_PRIORITIES64 \<le> q"
    using that by (simp add: sched64_create_thread_def t_def)
qed

theorem sched64_create_thread_witness:
  "\<exists>u. sched64_create_thread 0x1000 0x2000 5 ''A'' boot_sched = Some (Inr (Some 0, u)) \<and>
     sched_rep u ((\<lambda>_. [])(5 := [0])) \<and> rsp (threads64 u 0) = 0x301FD0"
  using sched64_create_thread_appends [of boot_sched "\<lambda>_. []" "{0x201000}" boot_sched 5 "0x1000" "0x2000" "''A''"]
    boot_sched_fresh boot_sched_table sched_rep_none [of boot_sched]
  by (auto simp: stack_top64_def)

text \<open>C15. \<open>sched64_reschedule\<close> runs the thread at the head of the highest non-empty queue, or
  the one after it when the head is what this processor already runs; it rotates that queue and
  touches no other. The processor's stack pointer is then the one the chosen thread saved, the
  outgoing thread's is stored, their states are RUNNING and READY, and (the cached CR3 value
  being the register's) CR3 holds the chosen thread's address space.\<close>

theorem sched64_reschedule_switches:
  assumes "sched_rep s R" "top_queue R q" "R q = x # xs"
    and "loaded_cr3 s (get_cpu_index p) = thread_cr3 (threads64 s v) \<Longrightarrow> cr3 s p = thread_cr3 (threads64 s v)"
  defines "c \<equiv> get_cpu_index p" and "u \<equiv> sched64_reschedule p s"
  assumes "v = (if current s (get_cpu_index p) = Some x then hd (xs @ [x]) else x)"
  shows "current u c = Some v \<and>
    sched_rep u (R(q := if current s c = Some x then xs @ [x] else x # xs)) \<and>
    (current s c \<noteq> Some v \<longrightarrow> rsp_reg u p = rsp (threads64 s v) + 64 \<and> state (threads64 u v) = T64_RUNNING \<and>
       cr3 u p = thread_cr3 (threads64 s v) \<and>
       (\<forall>o'. current s c = Some o' \<longrightarrow> state (threads64 u o') = T64_READY \<and> rsp (threads64 u o') = rsp_reg s p - 64))"
proof (cases "current s c = Some x")
  case False
  note f = False [unfolded c_def]
  have "R(q := x # xs) = R" using assms(3) by auto
  then show ?thesis
    using reschedule_pick [OF assms(1-3) f] rr64.resched_pick [OF assms(1-3) f] f assms(4,7)
    by (simp add: c_def u_def)
next
  case True
  note t = True [unfolded c_def]
  note rot = rr64.resched_rotate [OF assms(1-3) t]
  show ?thesis
  proof (cases xs)
    case Nil
    then show ?thesis using rot True assms(7) t by (simp add: c_def u_def)
  next
    case (Cons y ys)
    then show ?thesis
      using reschedule_rotate [OF assms(1,2) _ t, of y ys] rot assms(3,4,7) t by (simp add: c_def u_def)
  qed
qed

theorem sched64_reschedule_switches_witness:
  "\<exists>s :: sched64. current s 0 = None \<and> current (sched64_reschedule 0 s) 0 = Some 0 \<and>
     state (threads64 (sched64_reschedule 0 s) 0) = T64_RUNNING"
proof -
  obtain s0 :: sched64 where s0: "sched_rep s0 ((\<lambda>_. [])(5 := [0, 1]))" "current s0 = (\<lambda>_. None)" by (rule two_threads)
  define s where "s = s0\<lparr>cr3 := (\<lambda>_. thread_cr3 (threads64 s0 0))\<rparr>"
  have rep: "sched_rep s ((\<lambda>_. [])(5 := [0, 1]))" by (rule sched_rep_cong [OF s0(1)]) (simp_all add: s_def)
  have i: "get_cpu_index 0 = 0" by (simp add: get_cpu_index_def)
  have "current (sched64_reschedule 0 s) 0 = Some 0 \<and> state (threads64 (sched64_reschedule 0 s) 0) = T64_RUNNING"
    using sched64_reschedule_switches [OF rep, of 5 0 "[1]" 0 0] s0(2)
    by (simp add: i top_queue_def s_def)
  then show ?thesis using s0(2) by (intro exI [of _ s]) (simp add: s_def)
qed

text \<open>C3. Preemptive round robin. On one processor, with no thread inside a kernel critical section,
  the timer alone shares the processor fairly among the \<open>n\<close> threads of the highest ready
  priority: after every five ticks the next thread of the queue runs, so after \<open>5 * k\<close> ticks it
  is thread \<open>k mod n\<close>, whatever \<open>k\<close>.\<close>

theorem preemptive_round_robin:
  assumes "sched_rep s R" "top_queue R q" "current s (get_cpu_index p) = Some (hd (R q))"
    and "\<forall>x \<in> set (R q). time_slice (threads64 s x) = 5" "\<not> NKern_IsLocked p s"
  shows "current ((sched64_timer_tick p ^^ (5 * k)) s) (get_cpu_index p) = Some (R q ! (k mod length (R q)))"
  using ticks_are_reschedules [OF assms] rr64.round_robin [OF assms(1-3)] by simp

theorem preemptive_round_robin_witness:
  "\<exists>s :: sched64. current s 0 = Some 0 \<and> current ((sched64_timer_tick 0 ^^ 5) s) 0 = Some 1 \<and>
     current ((sched64_timer_tick 0 ^^ 10) s) 0 = Some 0"
proof -
  obtain s0 :: sched64 where s0: "sched_rep s0 ((\<lambda>_. [])(5 := [0, 1]))" "current s0 = (\<lambda>_. None)"
      "\<And>i. i < 2 \<Longrightarrow> time_slice (threads64 s0 i) = 5" by (rule two_threads) blast
  define s where "s = s0\<lparr>current := (\<lambda>_. Some 0), preempt_disable_count := (\<lambda>_. 0)\<rparr>"
  have rep: "sched_rep s ((\<lambda>_. [])(5 := [0, 1]))" by (rule sched_rep_cong [OF s0(1)]) (simp_all add: s_def)
  have i: "get_cpu_index 0 = 0" by (simp add: get_cpu_index_def)
  have "current ((sched64_timer_tick 0 ^^ (5 * k)) s) 0 = Some ([0, 1] ! (k mod 2))" for k
    using preemptive_round_robin [OF rep, of 5 0 k] s0(3)
    by (simp add: i top_queue_def s_def NKern_IsLocked_def numeral_2_eq_2)
  from this [of 1] this [of 2] show ?thesis by (intro exI [of _ s]) (simp add: s_def)
qed

text \<open>\<open>sched64_reschedule\<close> gives the kernel lock back, on every path, with interrupts enabled.\<close>

lemma reschedule_unlocks:
  assumes "preempt_disable_count s (get_cpu_index p) = 0"
  defines "u \<equiv> sched64_reschedule p s"
  shows "preempt_disable_count u = preempt_disable_count s \<and> \<not> big_kernel_lock u \<and>
    iflag u = (iflag s)(p := True)"
proof -
  have cs: "iflag (context_switch64 p prev r t) = iflag t" for prev r t
    by (simp add: context_switch64_def Let_def split: option.splits)
  have un: "\<not> big_kernel_lock (NKern_UnlockAfterSwitch p t) \<and> iflag (NKern_UnlockAfterSwitch p t) = (iflag t)(p := True)"
    if "preempt_disable_count t (get_cpu_index p) = 1" for t
    using that by (simp add: nkern_defs)
  have lock: "iflag (NKern_LockForSwitch p s) = (iflag s)(p := False)" by (simp add: nkern_defs)
  have "\<not> big_kernel_lock u \<and> iflag u = (iflag s)(p := True)"
    unfolding u_def sched64_reschedule_def Let_def using assms(1)
    by (simp add: un cs lock split: option.splits)
  then show ?thesis by (simp add: u_def reschedule_count)
qed

text \<open>A limit of the design. \<open>sched64_reschedule\<close> never looks at a thread's state and leaves
  the running thread at the head of its queue, so a second processor that has no current thread
  yet picks the thread the first one is already running: both then run on the same saved stack
  pointer.\<close>

theorem two_processors_run_one_thread:
  assumes "sched_rep s R" "top_queue R q" "R q = x # xs"
    and "current s (get_cpu_index p) = None" "current s (get_cpu_index p') = None"
    and "get_cpu_index p \<noteq> get_cpu_index p'"
  defines "u \<equiv> sched64_reschedule p' (sched64_reschedule p s)"
  shows "current u (get_cpu_index p) = Some x \<and> current u (get_cpu_index p') = Some x \<and>
    state (threads64 (sched64_reschedule p s) x) = T64_RUNNING \<and>
    rsp_reg u p = rsp (threads64 s x) + 64 \<and> rsp_reg u p' = rsp (threads64 s x) + 64"
proof -
  let ?s = "sched64_reschedule p s"
  have n1: "current s (get_cpu_index p) \<noteq> Some x" using assms(4) by simp
  note p1 = reschedule_pick [OF assms(1-3) n1]
  have rep: "sched_rep ?s R" using rr64.resched_pick [OF assms(1-3) n1] by simp
  have n2: "current ?s (get_cpu_index p') = None" using p1(6) assms(5,6) by simp
  then have n2': "current ?s (get_cpu_index p') \<noteq> Some x" by simp
  note p2 = reschedule_pick [OF rep assms(2,3) n2']
  have pp: "p \<noteq> p'" using assms(6) by auto
  have r1: "rsp (threads64 ?s x) = rsp (threads64 s x)"
    using sched_rep_top [OF assms(1-3)] assms(4) by (simp add: sched64_reschedule_def Let_def)
  have "rsp_reg u p = rsp_reg ?s p"
    using sched_rep_top [OF rep assms(2,3)] n2 pp by (simp add: u_def sched64_reschedule_def [of p'] Let_def)
  then show ?thesis
    using p1(6-8) p2(6,8) r1 assms(6) by (simp add: u_def)
qed

theorem two_processors_run_one_thread_witness:
  "\<exists>s :: sched64. sched_rep s ((\<lambda>_. [])(5 := [0, 1])) \<and>
     (let u = sched64_reschedule 1 (sched64_reschedule 0 s) in current u 0 = Some 0 \<and> current u 1 = Some 0)"
proof -
  obtain s :: sched64 where s: "sched_rep s ((\<lambda>_. [])(5 := [0, 1]))" "current s = (\<lambda>_. None)" by (rule two_threads)
  then show ?thesis
    using two_processors_run_one_thread [OF s(1), of 5 0 "[1]" 0 1]
    by (intro exI [of _ s]) (simp add: top_queue_def get_cpu_index_def)
qed

end
