(* ===== verification/Heap_Props.thy ===== *)
theory Heap_Props
  imports Sched64_Correct
begin

text \<open>
  Properties of the heap in the running kernel: the lemmas of theory \<open>Heap_Correct\<close> for the unlock
  that may call \<open>sched64_reschedule\<close>. \<open>heap_client\<close> is any run of allocations, frees of owned
  pointers and writes to owned memory after \<open>heap_init\<close>, on any processors, with the map of
  the pointers currently owned and the sizes asked for.
\<close>

abbreviation kernel_heap :: "'a sched64_scheme \<Rightarrow> (nat \<rightharpoonup> nat) \<Rightarrow> bool" where
  "kernel_heap \<equiv> heap_client sched64_reschedule"

section \<open>A heap with one allocation\<close>

lemma boot_arena [simp]: "heap_arena boot_sched = 0x110000"
  by (simp add: boot_sched_def boot_paging_def memmap.defs paging.defs bare_defs)

lemma boot_heap: "kernel_heap (heap_init boot_sched) Map.empty"
  by (rule client_init) simp_all

lemma boot_alloc:
  obtains s :: sched64 where "kmalloc (sched64_reschedule 0) 0 100 (heap_init boot_sched) = Some (Inr (0x110024, s))"
    "kernel_heap s [0x110024 \<mapsto> 100]"
proof -
  have ok: "heap_ok (heap_init boot_sched) [(HEAP_SIZE - 32, True)]" by (rule heap_init_ok) simp_all
  have a: "heap_arena (heap_init boot_sched) = 0x110000" by (simp add: heap_init_def Let_def)
  have "unat (align16 100) = 112" by (simp add: align16_unat)
  then have fit: "first_fit (unat (align16 100) + 4) (heap_arena (heap_init boot_sched)) [(HEAP_SIZE - 32, True)] =
      Some 0x110000" by (simp add: a)
  obtain s where s: "kmalloc (sched64_reschedule 0) 0 100 (heap_init boot_sched) = Some (Inr (0x110000 + 36, s))"
    by (rule kheap.kmalloc_fits [OF ok _ _ fit, of 0]) simp_all
  then have "kernel_heap s (Map.empty(0x110000 + 36 \<mapsto> unat (100 :: u64)))"
    by (intro client_alloc [OF boot_heap _ _ s]) simp_all
  then show ?thesis using that s by simp
qed

section \<open>Properties\<close>





text \<open>C21. \<open>kfree\<close> of an owned pointer never panics and gives back a heap in order, leaving the
  contents of all other allocations as they were; freeing the same pointer again is caught
  and panics.\<close>

theorem kfree_frees_once:
  assumes "kernel_heap s A" "A q = Some k"
  shows "\<exists>s'. kfree (sched64_reschedule p) p q s = Inr ((), s') \<and> kernel_heap s' (A(q := None)) \<and>
    (\<forall>r l x. A r = Some l \<longrightarrow> r \<noteq> q \<longrightarrow> x \<in> {r..<r + l} \<longrightarrow> mem s' x = mem s x) \<and>
    (\<forall>p'. \<exists>t. kfree (sched64_reschedule p') p' q s' = Inl (Panic ''HEAP'' PANIC_HEAP_CORRUPT t))"
  by (rule kheap.client_free_ok [OF assms, of p]) blast

theorem kfree_frees_once_witness:
  "\<exists>(s :: sched64) s'. kfree (sched64_reschedule 0) 0 0x110024 s = Inr ((), s') \<and>
     (\<exists>t. kfree (sched64_reschedule 3) 3 0x110024 s' = Inl (Panic ''HEAP'' PANIC_HEAP_CORRUPT t))"
proof -
  obtain s :: sched64 where s: "kernel_heap s [0x110024 \<mapsto> 100]" by (rule boot_alloc)
  then show ?thesis using kfree_frees_once [OF s, of "0x110024" 100 0] by fastforce
qed

text \<open>C12. No leak and no lasting fragmentation: once everything allocated has been freed, in any
  order, the heap is one free block again and \<open>heap_free_bytes\<close> reports what it did after
  \<open>heap_init\<close>.\<close>

theorem heap_recovers_when_all_freed:
  assumes "kernel_heap s Map.empty"
  shows "heap_free_bytes s = Some (of_nat (HEAP_SIZE - BLOCK_HDR)) \<and>
    count_blocks_from (mem s) (heap_list s) 0 = Some 1"
  by (rule kheap.client_all_freed [OF assms])

theorem heap_recovers_when_all_freed_witness:
  "\<exists>(s :: sched64) s'. kfree (sched64_reschedule 0) 0 0x110024 s = Inr ((), s') \<and>
     heap_free_bytes s' = Some 0xFFFE0"
proof -
  obtain s :: sched64 where s: "kernel_heap s [0x110024 \<mapsto> 100]" by (rule boot_alloc)
  have "[0x110024 \<mapsto> 100] 0x110024 = Some (100 :: nat)" by simp
  then obtain s' where f: "kfree (sched64_reschedule 0) 0 0x110024 s = Inr ((), s')"
      "kernel_heap s' ([0x110024 \<mapsto> 100](0x110024 := None))"
    by (rule kheap.client_free_ok [OF s, of _ _ 0])
  then show ?thesis using heap_recovers_when_all_freed [of s'] by auto
qed

text \<open>Freeing what was just allocated restores the free space exactly, block structure included:
  \<open>heap_free_bytes\<close> and the number of blocks are as before the \<open>kmalloc\<close>, from any state the
  heap can be in.\<close>

theorem kmalloc_kfree_roundtrip:
  assumes "kernel_heap s A" "sz \<noteq> 0" "unat sz \<le> 2 ^ 64 - 32"
    "kmalloc (sched64_reschedule p) p sz s = Some (Inr (q, s'))"
  shows "\<exists>s''. kfree (sched64_reschedule p') p' q s' = Inr ((), s'') \<and>
    heap_free_bytes s'' = heap_free_bytes s \<and>
    count_blocks_from (mem s'') (heap_list s'') 0 = count_blocks_from (mem s) (heap_list s) 0"
  by (rule kheap.client_alloc_free [OF assms, of p']) blast

theorem kmalloc_kfree_roundtrip_witness:
  "\<exists>s' s''. kmalloc (sched64_reschedule 0) 0 100 (heap_init boot_sched) = Some (Inr (0x110024, s')) \<and>
     kfree (sched64_reschedule 0) 0 0x110024 s' = Inr ((), s'') \<and>
     heap_free_bytes s'' = heap_free_bytes (heap_init boot_sched)"
proof -
  obtain s :: sched64 where s: "kmalloc (sched64_reschedule 0) 0 100 (heap_init boot_sched) = Some (Inr (0x110024, s))"
    by (rule boot_alloc)
  show ?thesis using kmalloc_kfree_roundtrip [OF boot_heap _ _ s, of 0] s by auto
qed

text \<open>The bound on the size is needed: near the top of the 64-bit range the rounding in
  \<open>align16\<close> wraps around, and \<open>kmalloc\<close> of almost \<open>2 ^ 64\<close> bytes succeeds with a block of
  four bytes, all of them taken by the magic number.\<close>

theorem kmalloc_huge_size_wraps:
  "\<exists>s. kmalloc (sched64_reschedule 0) 0 0xFFFFFFFFFFFFFFFF (heap_init boot_sched) = Some (Inr (0x110024, s)) \<and>
     blk_size (mem s) 0x110000 = 4"
proof -
  let ?s = "heap_init boot_sched"
  have ok: "heap_ok ?s [(HEAP_SIZE - 32, True)]" by (rule heap_init_ok) simp_all
  note h = heap_okD [OF ok]
  have a: "heap_arena ?s = 0x110000" by (simp add: heap_init_def Let_def)
  have w: "align16 0xFFFFFFFFFFFFFFFF = 0" by (simp add: align16_def)
  have find: "find_free_block (mem ?s) 0x110000 4 = Some 0x110000"
    using find_free_seg [OF h(1,2), of 4] a by simp
  have hd: "hdr (mem ?s) 0x110000 (HEAP_SIZE - 32) True 0 0" using h(1) a by simp
  define m where "m = write32 (set_free 0x110000 0 (split_block 0x110000 4 (mem ?s))) 0x110020 BLOCK_MAGIC"
  have "blk_size (split_block 0x110000 4 (mem ?s)) 0x110000 = 4"
    by (rule split_block_effect(1) [OF hd, of 4 4]) simp_all
  then have size: "blk_size m 0x110000 = 4" by (simp add: m_def blk_size_def set_free_def mem_simps)
  have "kmalloc (sched64_reschedule 0) 0 0xFFFFFFFFFFFFFFFF ?s =
      Some (Inr (0x110024, NKern_Unlock (sched64_reschedule 0) 0 ((NKern_Lock 0 ?s)\<lparr>mem := m\<rparr>)))"
    using h(4) a find by (simp add: kmalloc_def w Let_def m_def)
  then show ?thesis using size by simp
qed

end
