(* ===== verification/Context_Switch.thy ===== *)
theory Context_Switch
  imports Sched64_Correct
begin

text \<open>
  The assembly of \<open>src/context_switch64.s\<close>, instruction by instruction, on the registers it uses
  and memory: \<open>context_switch64\<close> with its pushes and pops, and \<open>thread_start64\<close>. Theory
  \<open>Sched64\<close> uses only the movement of the stack pointers; here the saved context itself is
  followed, and the stack that \<open>sched64_create_thread\<close> prepares is executed.
\<close>

record cpu_regs =
  r_rip :: u64
  r_rsp :: u64
  r_rflags :: u64
  r_rax :: u64
  r_rbx :: u64
  r_rbp :: u64
  r_r12 :: u64
  r_r13 :: u64
  r_r14 :: u64
  r_r15 :: u64

type_synonym machine = "cpu_regs \<times> memory"

section \<open>Instructions\<close>

definition push :: "u64 \<Rightarrow> 'a cpu_regs_scheme \<times> memory \<Rightarrow> 'a cpu_regs_scheme \<times> memory" where
  "push v = (\<lambda>(r, m). let sp = r_rsp r - 8 in (r\<lparr>r_rsp := sp\<rparr>, write64 m (unat sp) v))"

definition pop :: "'a cpu_regs_scheme \<times> memory \<Rightarrow> u64 \<times> 'a cpu_regs_scheme \<times> memory" where
  "pop = (\<lambda>(r, m). (read64 m (unat (r_rsp r)), r\<lparr>r_rsp := r_rsp r + 8\<rparr>, m))"

definition pop_to ::
    "((u64 \<Rightarrow> u64) \<Rightarrow> 'a cpu_regs_scheme \<Rightarrow> 'a cpu_regs_scheme) \<Rightarrow> 'a cpu_regs_scheme \<times> memory \<Rightarrow> 'a cpu_regs_scheme \<times> memory" where
  "pop_to upd c = (let (v, r, m) = pop c in (upd (\<lambda>_. v) r, m))"

section \<open>The routines\<close>

text \<open>\<open>rdi\<close> is \<open>old_rsp_ptr\<close>, \<open>rsi\<close> is \<open>new_rsp\<close>; the caller's \<open>call\<close> has pushed the return address.\<close>

definition switch_pushes :: "machine \<Rightarrow> machine" where
  "switch_pushes c =
     (let c = push (r_rflags (fst c)) c;
          c = push (r_rbp (fst c)) c;
          c = push (r_rbx (fst c)) c;
          c = push (r_r12 (fst c)) c;
          c = push (r_r13 (fst c)) c;
          c = push (r_r14 (fst c)) c
      in push (r_r15 (fst c)) c)"

definition switch_pops :: "machine \<Rightarrow> machine" where
  "switch_pops c =
     (let c = pop_to r_r15_update c;
          c = pop_to r_r14_update c;
          c = pop_to r_r13_update c;
          c = pop_to r_r12_update c;
          c = pop_to r_rbx_update c;
          c = pop_to r_rbp_update c;
          c = pop_to r_rflags_update c
      in pop_to r_rip_update c)"

definition context_switch64_code :: "nat \<Rightarrow> u64 \<Rightarrow> machine \<Rightarrow> machine" where
  "context_switch64_code rdi rsi c =
     (let c = switch_pushes c;
          c = (fst c, write64 (snd c) rdi (r_rsp (fst c)));
          c = ((fst c)\<lparr>r_rsp := rsi\<rparr>, snd c)
      in switch_pops c)"

text \<open>
  \<open>unlock\<close> is the body of \<open>NKern_UnlockAfterSwitch\<close>, as the \<open>call\<close> sees it: it returns with the
  stack pointer where it was. The continuation is a jump to the popped \<open>entry\<close>.
\<close>

definition thread_start64_code :: "(machine \<Rightarrow> machine) \<Rightarrow> machine \<Rightarrow> machine" where
  "thread_start64_code unlock c =
     (let c = unlock c;
          c = pop_to r_rax_update c
      in ((fst c)\<lparr>r_rip := r_rax (fst c)\<rparr>, snd c))"

section \<open>Effect of the two halves\<close>

definition saved_context :: "memory \<Rightarrow> nat \<Rightarrow> cpu_regs \<Rightarrow> bool" where
  "saved_context m a r \<longleftrightarrow>
     read64 m a = r_r15 r \<and> read64 m (a + 8) = r_r14 r \<and> read64 m (a + 16) = r_r13 r \<and>
     read64 m (a + 24) = r_r12 r \<and> read64 m (a + 32) = r_rbx r \<and> read64 m (a + 40) = r_rbp r \<and>
     read64 m (a + 48) = r_rflags r"

lemma sub_unat: "of_nat k \<le> sp \<Longrightarrow> k < 18446744073709551616 \<Longrightarrow> unat (sp - of_nat k) = unat (sp :: u64) - k"
  by (simp add: unat_sub unat_of_nat_small)

lemma switch_saves:
  assumes sp: "56 \<le> unat (r_rsp r)" and slot: "rdi + 8 \<le> unat (r_rsp r) - 56 \<or> unat (r_rsp r) \<le> rdi"
  defines "a \<equiv> unat (r_rsp r) - 56"
  obtains m' where "context_switch64_code rdi rsi (r, m) = switch_pops (r\<lparr>r_rsp := rsi\<rparr>, m')"
    "saved_context m' a r" "read64 m' rdi = r_rsp r - 56"
    "\<And>x. (x < a \<or> a + 56 \<le> x) \<Longrightarrow> (x < rdi \<or> rdi + 8 \<le> x) \<Longrightarrow> m' x = m x"
proof -
  have u: "unat (r_rsp r - 8) = a + 48" "unat (r_rsp r - 16) = a + 40" "unat (r_rsp r - 24) = a + 32"
    "unat (r_rsp r - 32) = a + 24" "unat (r_rsp r - 40) = a + 16" "unat (r_rsp r - 48) = a + 8"
    "unat (r_rsp r - 56) = a"
    using sp sub_unat [of 8 "r_rsp r"] sub_unat [of 16 "r_rsp r"] sub_unat [of 24 "r_rsp r"]
      sub_unat [of 32 "r_rsp r"] sub_unat [of 40 "r_rsp r"] sub_unat [of 48 "r_rsp r"] sub_unat [of 56 "r_rsp r"]
    by (simp_all add: a_def word_le_nat_alt)
  define m' where "m' = write64 (write64 (write64 (write64 (write64 (write64 (write64 (write64 m
      (a + 48) (r_rflags r)) (a + 40) (r_rbp r)) (a + 32) (r_rbx r)) (a + 24) (r_r12 r)) (a + 16) (r_r13 r))
      (a + 8) (r_r14 r)) a (r_r15 r)) rdi (r_rsp r - 56)"
  show ?thesis
  proof (rule that [of m'])
    show "context_switch64_code rdi rsi (r, m) = switch_pops (r\<lparr>r_rsp := rsi\<rparr>, m')"
      using u by (simp add: context_switch64_code_def switch_pushes_def push_def Let_def m'_def diff_diff_eq)
    have "rdi + 8 \<le> a \<or> a + 56 \<le> rdi" using slot sp by (auto simp: a_def)
    then show "saved_context m' a r" by (auto simp: saved_context_def m'_def mem_simps)
    show "read64 m' rdi = r_rsp r - 56" by (simp add: m'_def)
    show "m' x = m x" if "x < a \<or> a + 56 \<le> x" "x < rdi \<or> rdi + 8 \<le> x" for x
      using that by (auto simp: m'_def mem_simps)
  qed
qed

lemma switch_restores:
  assumes "unat rsi + 64 < 18446744073709551616"
  defines "a \<equiv> unat rsi"
  shows "switch_pops (r\<lparr>r_rsp := rsi\<rparr>, m) =
    (r\<lparr>r_rsp := rsi + 64, r_r15 := read64 m a, r_r14 := read64 m (a + 8), r_r13 := read64 m (a + 16),
       r_r12 := read64 m (a + 24), r_rbx := read64 m (a + 32), r_rbp := read64 m (a + 40),
       r_rflags := read64 m (a + 48), r_rip := read64 m (a + 56)\<rparr>, m)"
proof -
  have "unat (rsi + of_nat k) = a + k" if "k \<le> 64" for k
    using that assms unat_add_small [of rsi "of_nat k"] by (simp add: unat_of_nat_small)
  from this [of 8] this [of 16] this [of 24] this [of 32] this [of 40] this [of 48] this [of 56]
  show ?thesis by (simp add: switch_pops_def pop_to_def pop_def Let_def add.assoc a_def [symmetric])
qed

lemma switch_pops_mem: "snd (switch_pops c) = snd c"
  by (cases c) (simp add: switch_pops_def pop_to_def pop_def Let_def)

section \<open>Properties\<close>

text \<open>C9. A context survives the switch. A thread calls \<open>context_switch64\<close>; other threads run, and
  leave its 64 bytes of saved stack alone; then some processor switches to the stack pointer that
  was saved for it. It continues after its call with its callee-saved registers, its flags and
  its stack pointer as they were, on that processor.\<close>

theorem context_switch64_roundtrip:
  assumes "56 \<le> unat (r_rsp r)" "unat (r_rsp r) + 8 < 2 ^ 64"
    and "rdi + 8 \<le> unat (r_rsp r) - 56 \<or> unat (r_rsp r) + 8 \<le> rdi"
    and "context_switch64_code rdi rsi (r, m) = (r1, m1)"
    and "\<forall>x. unat (r_rsp r) - 56 \<le> x \<and> x < unat (r_rsp r) + 8 \<longrightarrow> m2 x = m1 x"
    and "56 \<le> unat (r_rsp r2)" "unat (r_rsp r2) \<le> unat (r_rsp r) - 56 \<or> unat (r_rsp r) + 64 \<le> unat (r_rsp r2)"
    and "rdi' + 8 \<le> unat (r_rsp r) - 56 \<or> unat (r_rsp r) + 8 \<le> rdi'"
    and "rdi' + 8 \<le> unat (r_rsp r2) - 56 \<or> unat (r_rsp r2) \<le> rdi'"
    and "context_switch64_code rdi' (read64 m1 rdi) (r2, m2) = (r3, m3)"
  shows "r_rip r3 = read64 m (unat (r_rsp r)) \<and> r_rsp r3 = r_rsp r + 8 \<and> r_rflags r3 = r_rflags r \<and>
    r_rbx r3 = r_rbx r \<and> r_rbp r3 = r_rbp r \<and> r_r12 r3 = r_r12 r \<and> r_r13 r3 = r_r13 r \<and>
    r_r14 r3 = r_r14 r \<and> r_r15 r3 = r_r15 r"
proof -
  let ?a = "unat (r_rsp r) - 56"
  have s1: "rdi + 8 \<le> ?a \<or> unat (r_rsp r) \<le> rdi" using assms(3) by auto
  obtain n where n: "context_switch64_code rdi rsi (r, m) = switch_pops (r\<lparr>r_rsp := rsi\<rparr>, n)" "saved_context n ?a r"
      "read64 n rdi = r_rsp r - 56"
      "\<And>x. (x < ?a \<or> ?a + 56 \<le> x) \<Longrightarrow> (x < rdi \<or> rdi + 8 \<le> x) \<Longrightarrow> n x = m x"
    using switch_saves [OF assms(1) s1, of rsi m] by blast
  have "m1 = n" using switch_pops_mem [of "(r\<lparr>r_rsp := rsi\<rparr>, n)"] n(1) assms(4) by (metis snd_conv)
  note n1 = n(2) [folded this] n(3) [folded this] n(4) [folded this]
  obtain n3 where n3: "context_switch64_code rdi' (read64 m1 rdi) (r2, m2) = switch_pops (r2\<lparr>r_rsp := read64 m1 rdi\<rparr>, n3)"
      "\<And>x. (x < unat (r_rsp r2) - 56 \<or> unat (r_rsp r2) - 56 + 56 \<le> x) \<Longrightarrow> (x < rdi' \<or> rdi' + 8 \<le> x) \<Longrightarrow> n3 x = m2 x"
    using switch_saves [OF assms(6,9), of "read64 m1 rdi" m2] by metis
  have kept: "n3 x = m1 x" if "?a \<le> x" "x < ?a + 64" for x
    using n3(2) [of x] assms(1,5,6,7,8) that by auto
  have sp: "unat (r_rsp r - 56) = ?a" using sub_unat [of 56 "r_rsp r"] assms(1) by (simp add: word_le_nat_alt)
  have eq: "read64 n3 (?a + k) = read64 m1 (?a + k)" if "k \<le> 56" for k
    using that by (intro read64_cong kept) auto
  have ret: "read64 m1 (?a + 56) = read64 m (?a + 56)"
    using assms(1,3) by (intro read64_cong n1(3)) auto
  have "unat (r_rsp r - 56) + 64 < 18446744073709551616" using sp assms(1,2) by simp
  note pops = switch_restores [OF this, of r2 n3]
  show ?thesis
    using assms(10) n3(1) pops n1(1,2) eq [of 0] eq [of 8] eq [of 16] eq [of 24] eq [of 32] eq [of 40]
      eq [of 48] eq [of 56] ret assms(1) sp
    by (auto simp: saved_context_def)
qed

definition idle_regs :: cpu_regs where
  "idle_regs = \<lparr>r_rip = 0, r_rsp = 0x9000, r_rflags = 0x2, r_rax = 0, r_rbx = 1, r_rbp = 2, r_r12 = 3,
     r_r13 = 4, r_r14 = 5, r_r15 = 6\<rparr>"

theorem context_switch64_roundtrip_witness:
  "\<exists>r3 m3. (let (r1, m1) = context_switch64_code 0x100 0x5000 (idle_regs, \<lambda>_. 0)
      in context_switch64_code 0x200 (read64 m1 0x100) (r1\<lparr>r_rsp := 0x7000\<rparr>, m1)) = (r3, m3) \<and>
     r_r15 r3 = 6 \<and> r_rbx r3 = 1 \<and> r_rsp r3 = 0x9008"
proof -
  obtain r1 m1 where 1: "context_switch64_code 0x100 0x5000 (idle_regs, \<lambda>_. 0) = (r1, m1)" by fastforce
  obtain r3 m3 where 3: "context_switch64_code 0x200 (read64 m1 0x100) (r1\<lparr>r_rsp := 0x7000\<rparr>, m1) = (r3, m3)" by fastforce
  have "r_r15 r3 = r_r15 idle_regs \<and> r_rbx r3 = r_rbx idle_regs \<and> r_rsp r3 = r_rsp idle_regs + 8"
    using context_switch64_roundtrip [OF _ _ _ 1 _ _ _ _ _ 3] by (simp add: idle_regs_def)
  then show ?thesis using 1 3 by (simp add: idle_regs_def)
qed

text \<open>C17. A new thread starts correctly. Switching to the stack \<open>sched64_create_thread\<close> prepared
  lands in \<open>thread_start64\<close> with interrupts enabled in the flags; after the unlock it jumps to the
  thread's entry function with the stack pointer at \<open>8 mod 16\<close>, as after a call, and eight
  bytes below the top of the stack.\<close>

theorem new_thread_enters_entry:
  assumes "initial_stack thread_start e stop m0 = (m, sp)" "80 \<le> stop" "stop < 2 ^ 64" "16 dvd stop"
    and "56 \<le> unat (r_rsp r)" "unat (r_rsp r) \<le> sp \<or> stop + 56 \<le> unat (r_rsp r)"
    and "rdi + 8 \<le> unat (r_rsp r) - 56 \<or> unat (r_rsp r) \<le> rdi" "rdi + 8 \<le> sp \<or> stop \<le> rdi"
    and "\<And>c. r_rsp (fst (unlock c)) = r_rsp (fst c) \<and> (\<forall>x \<ge> unat (r_rsp (fst c)). snd (unlock c) x = snd c x)"
  defines "c1 \<equiv> context_switch64_code rdi (of_nat sp) (r, m)"
  defines "c2 \<equiv> thread_start64_code unlock c1"
  shows "r_rip (fst c1) = thread_start \<and> r_rflags (fst c1) = 0x202 \<and> r_rip (fst c2) = e \<and>
    unat (r_rsp (fst c2)) = stop - 8 \<and> unat (r_rsp (fst c2)) mod 16 = 8"
proof -
  note w = initial_stack_words [OF assms(2,1)]
  have sp: "unat (of_nat sp :: u64) = sp" using w(1) assms(3) by (intro unat_of_nat_small) simp
  have slot: "rdi + 8 \<le> unat (r_rsp r) - 56 \<or> unat (r_rsp r) \<le> rdi" by (rule assms(7))
  obtain n where n: "c1 = switch_pops (r\<lparr>r_rsp := of_nat sp\<rparr>, n)"
      "\<And>x. (x < unat (r_rsp r) - 56 \<or> unat (r_rsp r) - 56 + 56 \<le> x) \<Longrightarrow> (x < rdi \<or> rdi + 8 \<le> x) \<Longrightarrow> n x = m x"
    unfolding c1_def using switch_saves [OF assms(5) slot, of "of_nat sp" m] by metis
  have same: "n x = m x" if "sp \<le> x" "x < stop" for x
    using n(2) [of x] that assms(5,6,8) by auto
  have words: "read64 n (sp + 48) = 0x202" "read64 n (sp + 56) = thread_start" "read64 n (sp + 64) = e"
    unfolding w(3,4,5) [symmetric] using w(1) assms(2) by (auto intro!: read64_cong same)
  have "unat (of_nat sp :: u64) + 64 < 18446744073709551616" using sp w(1) assms(2,3) by simp
  note c1 = n(1) [unfolded switch_restores [OF this]]
  have r1: "r_rip (fst c1) = thread_start" "r_rflags (fst c1) = 0x202" "r_rsp (fst c1) = of_nat sp + 64" "snd c1 = n"
    using words by (simp_all add: c1 sp)
  have u: "unat (of_nat sp + 64 :: u64) = sp + 64" "unat (of_nat sp + 72 :: u64) = sp + 72"
    using unat_add_small [of "of_nat sp" 64] unat_add_small [of "of_nat sp" 72] sp w(1) assms(2,3) by simp_all
  have un: "r_rsp (fst (unlock c1)) = of_nat sp + 64" "\<And>x. sp + 64 \<le> x \<Longrightarrow> snd (unlock c1) x = n x"
    using assms(9) [of c1] r1(3,4) u(1) by auto
  have "read64 (snd (unlock c1)) (sp + 64) = e"
    using words(3) read64_cong [of "sp + 64" "snd (unlock c1)" n] un(2) by simp
  then have c2: "r_rip (fst c2) = e" "r_rsp (fst c2) = of_nat sp + 72"
    using un(1) u(1) by (simp_all add: c2_def thread_start64_code_def pop_to_def pop_def Let_def split_beta)
  have stop: "unat (r_rsp (fst c2)) = stop - 8" using c2(2) u(2) w(1) assms(2) by simp
  moreover have "(stop - 8) mod 16 = 8"
  proof -
    obtain k where "stop = 16 * k" using assms(4) by (rule dvdE)
    with assms(2) have "stop - 8 = 8 + (k - 1) * 16" by simp
    then show ?thesis by simp
  qed
  ultimately show ?thesis using r1 c2 by simp
qed

theorem new_thread_enters_entry_witness:
  "r_rip (fst (thread_start64_code id (context_switch64_code 0x100
     (of_nat (snd (initial_stack 0x1000 0x2000 0x8000 (\<lambda>_. 0)))) (idle_regs, fst (initial_stack 0x1000 0x2000 0x8000 (\<lambda>_. 0)))))) = 0x2000"
proof -
  obtain m sp where st: "initial_stack 0x1000 0x2000 0x8000 (\<lambda>_. 0) = (m, sp)" by fastforce
  have sp: "sp = 0x8000 - 80" using initial_stack_words(1) [OF _ st] by simp
  have "r_rip (fst (thread_start64_code id (context_switch64_code 0x100 (of_nat sp) (idle_regs, m)))) = 0x2000"
    using new_thread_enters_entry [OF st, of idle_regs "0x100" id] by (simp add: sp idle_regs_def)
  then show ?thesis by (simp add: st)
qed

end
