(* ===== verification/Acpi.thy ===== *)
theory Acpi
  imports Sched64_Correct
begin

text \<open>
  The reader of the firmware's ACPI tables (\<open>src/acpi.c\<close>). The tables are bytes in memory and
  the packed structs are read at their offsets; a pointer is an address, 0 the null pointer.
  \<open>acpi_find_rsdp_bios\<close> scans two areas for the root pointer, \<open>find_madt\<close> follows it to the
  interrupt controller table, and two loops walk that table's entries. The walks advance by the
  length byte of each entry, which the firmware wrote: they may not end (\<open>None\<close>).
\<close>

record acpi = sched64 +
  g_rsdp :: nat

abbreviation (input) SDT_HEADER :: nat where "SDT_HEADER \<equiv> 36"
abbreviation (input) MADT_ENTRIES :: nat where "MADT_ENTRIES \<equiv> 44"
abbreviation (input) MADT_TYPE_LOCAL_APIC :: u8 where "MADT_TYPE_LOCAL_APIC \<equiv> 0"
abbreviation (input) MADT_TYPE_IO_APIC :: u8 where "MADT_TYPE_IO_APIC \<equiv> 1"

text \<open>The fields the code reads, at their offsets in the packed structs.\<close>

definition rsdp_revision :: "memory \<Rightarrow> nat \<Rightarrow> u8" where "rsdp_revision m a = m (a + 15)"
definition rsdt_address :: "memory \<Rightarrow> nat \<Rightarrow> u32" where "rsdt_address m a = read32 m (a + 16)"
definition xsdt_address :: "memory \<Rightarrow> nat \<Rightarrow> u64" where "xsdt_address m a = read64 m (a + 24)"
definition sdt_length :: "memory \<Rightarrow> nat \<Rightarrow> u32" where "sdt_length m a = read32 m (a + 4)"
definition local_apic_address :: "memory \<Rightarrow> nat \<Rightarrow> u32" where "local_apic_address m a = read32 m (a + SDT_HEADER)"
definition me_type :: "memory \<Rightarrow> nat \<Rightarrow> u8" where "me_type m a = m a"
definition me_length :: "memory \<Rightarrow> nat \<Rightarrow> u8" where "me_length m a = m (a + 1)"
definition la_apic_id :: "memory \<Rightarrow> nat \<Rightarrow> u8" where "la_apic_id m a = m (a + 3)"
definition la_flags :: "memory \<Rightarrow> nat \<Rightarrow> u32" where "la_flags m a = read32 m (a + 4)"
definition io_apic_address :: "memory \<Rightarrow> nat \<Rightarrow> u32" where "io_apic_address m a = read32 m (a + 4)"

section \<open>The root pointer\<close>

definition checksum_ok :: "memory \<Rightarrow> nat \<Rightarrow> nat \<Rightarrow> bool" where
  "checksum_ok m data len \<longleftrightarrow> foldl (\<lambda>sum i. sum + m (data + i)) 0 [0..<len] = 0"

definition signature_at :: "memory \<Rightarrow> nat \<Rightarrow> string \<Rightarrow> bool" where
  "signature_at m a sig \<longleftrightarrow> list_all (\<lambda>i. m (a + i) = of_char (sig ! i)) [0..<length sig]"

function scan_for_rsdp :: "memory \<Rightarrow> nat \<Rightarrow> nat \<Rightarrow> nat" where
  "scan_for_rsdp m addr stop =
     (if addr < stop
      then if signature_at m addr ''RSD PTR '' \<and> checksum_ok m addr 20 then addr
           else scan_for_rsdp m (addr + 16) stop
      else 0)"
  by pat_completeness auto
termination
  by (relation "measure (\<lambda>(m, addr, stop). stop - addr)") auto

declare scan_for_rsdp.simps [simp del]

definition acpi_find_rsdp_bios :: "'a acpi_scheme \<Rightarrow> 'a acpi_scheme" where
  "acpi_find_rsdp_bios s =
     (if g_rsdp s \<noteq> 0 then s
      else
        let ebda_seg = read16 (mem s) 0x40E;
            ebda_addr = unat ebda_seg * 16;
            s = (if ebda_addr \<noteq> 0 then s\<lparr>g_rsdp := scan_for_rsdp (mem s) ebda_addr (ebda_addr + 1024)\<rparr> else s);
            s = (if g_rsdp s = 0 then s\<lparr>g_rsdp := scan_for_rsdp (mem s) 0xE0000 0x100000\<rparr> else s)
        in if g_rsdp s = 0 then kprint (''[acpi] WARNING: RSDP not found via BIOS scan'' @ [nl]) s else s)"

definition acpi_set_rsdp :: "nat \<Rightarrow> 'a acpi_scheme \<Rightarrow> 'a acpi_scheme" where
  "acpi_set_rsdp rsdp s = s\<lparr>g_rsdp := rsdp\<rparr>"

section \<open>The interrupt controller table\<close>

text \<open>
  \<open>xsdt->length - sizeof(sdt_header_t)\<close> is computed in 64 bits and the quotient is truncated to 32.
\<close>

definition table_count :: "u32 \<Rightarrow> u64 \<Rightarrow> u32" where
  "table_count len width = ucast ((ucast len - of_nat SDT_HEADER :: u64) div width)"

definition find_madt :: "'a acpi_scheme \<Rightarrow> nat" where
  "find_madt s =
     (let m = mem s; r = g_rsdp s
      in if r = 0 then 0
         else if rsdp_revision m r \<ge> 2 \<and> xsdt_address m r \<noteq> 0
         then let xsdt = unat (xsdt_address m r);
                  count = table_count (sdt_length m xsdt) 8
              in case List.find (\<lambda>t. signature_at m t ''APIC'')
                        (map (\<lambda>i. unat (read64 m (xsdt + SDT_HEADER + 8 * i))) [0..<unat count]) of
                   None \<Rightarrow> 0 | Some t \<Rightarrow> t
         else let rsdt = unat (rsdt_address m r);
                  count = table_count (sdt_length m rsdt) 4
              in case List.find (\<lambda>t. signature_at m t ''APIC'')
                        (map (\<lambda>i. unat (read32 m (rsdt + SDT_HEADER + 4 * i))) [0..<unat count]) of
                   None \<Rightarrow> 0 | Some t \<Rightarrow> t)"

partial_function (option) ioapic_loop :: "memory \<Rightarrow> nat \<Rightarrow> nat \<Rightarrow> u64 option" where
  "ioapic_loop m ptr stop =
     (if ptr < stop
      then if me_type m ptr = MADT_TYPE_IO_APIC then Some (ucast (io_apic_address m ptr))
           else ioapic_loop m (ptr + unat (me_length m ptr)) stop
      else Some 0)"

text \<open>The result, and the values of the two output parameters afterwards.\<close>

definition acpi_find_apic_bases :: "u64 \<Rightarrow> u64 \<Rightarrow> 'a acpi_scheme \<Rightarrow> (bool \<times> u64 \<times> u64) option" where
  "acpi_find_apic_bases lapic_pa_out ioapic_pa_out s =
     (let madt = find_madt s; m = mem s
      in if madt = 0 then Some (False, lapic_pa_out, ioapic_pa_out)
         else case ioapic_loop m (madt + MADT_ENTRIES) (madt + unat (sdt_length m madt)) of
                None \<Rightarrow> None
              | Some ioapic \<Rightarrow> Some (ioapic \<noteq> 0, ucast (local_apic_address m madt), ioapic))"

partial_function (option) cpus_loop :: "memory \<Rightarrow> nat \<Rightarrow> nat \<Rightarrow> nat \<Rightarrow> u8 list \<Rightarrow> u8 list option" where
  "cpus_loop m ptr stop max_cpus found =
     (if ptr < stop \<and> length found < max_cpus
      then cpus_loop m (ptr + unat (me_length m ptr)) stop max_cpus
             (if me_type m ptr = MADT_TYPE_LOCAL_APIC \<and> bit (la_flags m ptr) 0
              then found @ [la_apic_id m ptr] else found)
      else Some found)"

text \<open>The list is what the C function stores in \<open>apic_ids_out\<close>; its length is what it returns.\<close>

definition acpi_find_cpus :: "nat \<Rightarrow> 'a acpi_scheme \<Rightarrow> (u8 list \<times> 'a acpi_scheme) option" where
  "acpi_find_cpus max_cpus s =
     (let madt = find_madt s
      in if madt = 0 then Some ([], kprint (''[acpi] WARNING: MADT not found, assuming single-CPU'' @ [nl]) s)
         else case cpus_loop (mem s) (madt + MADT_ENTRIES) (madt + unat (sdt_length (mem s) madt)) max_cpus [] of
                None \<Rightarrow> None
              | Some found \<Rightarrow>
                  let s = kprint ''[acpi] MADT: found '' s;
                      s = kprint_hex64 (of_nat (length found)) s
                  in Some (found, kprint ('' enabled CPU(s)'' @ [nl]) s))"

section \<open>Specification: tables as lists of entries\<close>

text \<open>
  A well-formed entry is a byte string whose second byte is its length, long enough for the struct
  its type selects. \<open>madt_at m a lapic es\<close>: at address \<open>a\<close> there is a table with local controller
  address \<open>lapic\<close> and the entries \<open>es\<close>.
\<close>

definition bytes_at :: "memory \<Rightarrow> nat \<Rightarrow> u8 list \<Rightarrow> bool" where
  "bytes_at m a bs \<longleftrightarrow> (\<forall>i < length bs. m (a + i) = bs ! i)"

definition entry_wf :: "u8 list \<Rightarrow> bool" where
  "entry_wf e \<longleftrightarrow> 2 \<le> length e \<and> length e < 256 \<and> e ! 1 = of_nat (length e) \<and>
     (e ! 0 = 0 \<longrightarrow> 8 \<le> length e) \<and> (e ! 0 = 1 \<longrightarrow> 8 \<le> length e)"

fun word_of_bytes :: "u8 list \<Rightarrow> nat" where
  "word_of_bytes [] = 0"
| "word_of_bytes (b # bs) = unat b + 256 * word_of_bytes bs"

definition dword :: "u8 list \<Rightarrow> u32" where
  "dword e = of_nat (word_of_bytes (take 4 (drop 4 e)))"

definition madt_at :: "memory \<Rightarrow> nat \<Rightarrow> u32 \<Rightarrow> u8 list list \<Rightarrow> bool" where
  "madt_at m a lapic es \<longleftrightarrow>
     a \<noteq> 0 \<and> signature_at m a ''APIC'' \<and> local_apic_address m a = lapic \<and>
     unat (sdt_length m a) = MADT_ENTRIES + length (concat es) \<and>
     bytes_at m (a + MADT_ENTRIES) (concat es) \<and> (\<forall>e \<in> set es. entry_wf e)"

definition enabled_cpus :: "u8 list list \<Rightarrow> u8 list" where
  "enabled_cpus es = map (\<lambda>e. e ! 3) (filter (\<lambda>e. e ! 0 = 0 \<and> bit (dword e) 0) es)"

definition first_ioapic :: "u8 list list \<Rightarrow> u64" where
  "first_ioapic es = (case List.find (\<lambda>e. e ! 0 = 1) es of None \<Rightarrow> 0 | Some e \<Rightarrow> ucast (dword e))"

section \<open>The walks read the entries\<close>

lemma bytes_at_append: "bytes_at m a (xs @ ys) \<longleftrightarrow> bytes_at m a xs \<and> bytes_at m (a + length xs) ys"
proof
  assume h: "bytes_at m a (xs @ ys)"
  have "m (a + i) = xs ! i" if "i < length xs" for i
    using h [unfolded bytes_at_def, rule_format, of i] that by (simp add: nth_append)
  moreover have "m (a + length xs + i) = ys ! i" if "i < length ys" for i
    using h [unfolded bytes_at_def, rule_format, of "length xs + i"] that by (simp add: add.assoc)
  ultimately show "bytes_at m a xs \<and> bytes_at m (a + length xs) ys" by (simp add: bytes_at_def)
next
  assume h: "bytes_at m a xs \<and> bytes_at m (a + length xs) ys"
  show "bytes_at m a (xs @ ys)"
    unfolding bytes_at_def
  proof (intro allI impI)
    fix i assume i: "i < length (xs @ ys)"
    show "m (a + i) = (xs @ ys) ! i"
    proof (cases "i < length xs")
      case True
      then show ?thesis using h by (simp add: bytes_at_def nth_append)
    next
      case False
      then show ?thesis
        using h i unfolding bytes_at_def by (auto simp: nth_append dest: spec [of _ "i - length xs"])
    qed
  qed
qed

lemma read_le_bytes: "bytes_at m a bs \<Longrightarrow> read_le m a (length bs) = word_of_bytes bs"
proof (induction bs arbitrary: a)
  case (Cons b bs)
  have "bytes_at m (Suc a) bs" "m a = b"
    using Cons.prems bytes_at_append [of m a "[b]" bs] by (simp_all add: bytes_at_def)
  then show ?case using Cons.IH by simp
qed simp

text \<open>The fields of a well-formed entry.\<close>

lemma entry_fields:
  assumes "bytes_at m p e" "entry_wf e"
  shows "me_type m p = e ! 0" "unat (me_length m p) = length e" "0 < length e"
    "e ! 0 = 0 \<Longrightarrow> la_apic_id m p = e ! 3" "e ! 0 = 0 \<or> e ! 0 = 1 \<Longrightarrow> read32 m (p + 4) = dword e"
proof -
  have b: "m (p + i) = e ! i" if "i < length e" for i using assms(1) that by (simp add: bytes_at_def)
  have len: "2 \<le> length e" "length e < 256" "e ! 1 = of_nat (length e)" using assms(2) by (simp_all add: entry_wf_def)
  have pos: "0 < length e" using len(1) by linarith
  show "me_type m p = e ! 0" using b [OF pos] by (simp add: me_type_def)
  show "unat (me_length m p) = length e" using b [of 1] len by (simp add: me_length_def unat_of_nat)
  show "0 < length e" by (rule pos)
  show "la_apic_id m p = e ! 3" if "e ! 0 = 0"
    using b [of 3] that assms(2) by (simp add: la_apic_id_def entry_wf_def)
  show "read32 m (p + 4) = dword e" if "e ! 0 = 0 \<or> e ! 0 = 1"
  proof -
    have l: "8 \<le> length e" using that assms(2) by (auto simp: entry_wf_def)
    have "bytes_at m (p + 4) (take 4 (drop 4 e))"
      unfolding bytes_at_def using b l by (simp add: add.assoc)
    from read_le_bytes [OF this] l show ?thesis by (simp add: read32_def dword_def)
  qed
qed

lemma cpus_loop_reads:
  assumes "bytes_at m p (concat es)" "\<forall>e \<in> set es. entry_wf e" "stop = p + length (concat es)"
    "length found \<le> n"
  shows "cpus_loop m p stop n found = Some (take n (found @ enabled_cpus es))"
  using assms
proof (induction es arbitrary: p found)
  case Nil
  then show ?case by (simp add: cpus_loop.simps enabled_cpus_def)
next
  case (Cons e es)
  have e: "bytes_at m p e" "entry_wf e" and rest: "bytes_at m (p + length e) (concat es)"
    using Cons.prems(1,2) by (simp_all add: bytes_at_append)
  note f = entry_fields [OF e]
  let ?found = "if me_type m p = 0 \<and> bit (la_flags m p) 0 then found @ [la_apic_id m p] else found"
  have upd: "?found @ enabled_cpus es = found @ enabled_cpus (e # es)"
    using f by (simp add: enabled_cpus_def la_flags_def)
  show ?case
  proof (cases "length found < n")
    case True
    have lt: "p < stop" using Cons.prems(3) f(3) by simp
    have "cpus_loop m p stop n found = cpus_loop m (p + length e) stop n ?found"
      using True lt f(2) by (subst cpus_loop.simps) simp
    also have "\<dots> = Some (take n (?found @ enabled_cpus es))"
      by (rule Cons.IH [OF rest]) (use Cons.prems True in auto)
    finally show ?thesis unfolding upd .
  next
    case False
    then have "n = length found" using Cons.prems(4) by simp
    then show ?thesis by (subst cpus_loop.simps) simp
  qed
qed

lemma ioapic_loop_reads:
  assumes "bytes_at m p (concat es)" "\<forall>e \<in> set es. entry_wf e" "stop = p + length (concat es)"
  shows "ioapic_loop m p stop = Some (first_ioapic es)"
  using assms
proof (induction es arbitrary: p)
  case Nil
  then show ?case by (simp add: ioapic_loop.simps first_ioapic_def)
next
  case (Cons e es)
  have e: "bytes_at m p e" "entry_wf e" and rest: "bytes_at m (p + length e) (concat es)"
    using Cons.prems(1,2) by (simp_all add: bytes_at_append)
  note f = entry_fields [OF e]
  have lt: "p < stop" using Cons.prems(3) f(3) by simp
  have IH: "ioapic_loop m (p + length e) stop = Some (first_ioapic es)"
    by (rule Cons.IH [OF rest]) (use Cons.prems in auto)
  show ?case
    using lt f IH by (subst ioapic_loop.simps) (simp add: first_ioapic_def io_apic_address_def)
qed

text \<open>A walk that meets an entry of length 0 stays there for ever.\<close>

lemma ioapic_loop_stuck_aux:
  assumes "ioapic_loop m p stop = Some r"
  shows "\<not> (p < stop \<and> me_length m p = 0 \<and> me_type m p \<noteq> 1)"
  by (rule ioapic_loop.raw_induct [OF _ assms,
        where P = "\<lambda>m p stop r. \<not> (p < stop \<and> me_length m p = 0 \<and> me_type m p \<noteq> 1)"])
    (auto split: if_splits)

lemma cpus_loop_stuck_aux:
  assumes "cpus_loop m p stop n found = Some r"
  shows "\<not> (p < stop \<and> length found < n \<and> me_length m p = 0 \<and> me_type m p \<noteq> 0)"
  by (rule cpus_loop.raw_induct [OF _ assms,
        where P = "\<lambda>m p stop n found r. \<not> (p < stop \<and> length found < n \<and> me_length m p = 0 \<and> me_type m p \<noteq> 0)"])
    (fastforce split: if_splits)

section \<open>From the root pointer to the table\<close>

text \<open>The tables the root pointer leads to, in either of the two formats.\<close>

definition tables_at :: "memory \<Rightarrow> nat \<Rightarrow> nat list \<Rightarrow> bool" where
  "tables_at m r ts \<longleftrightarrow> r \<noteq> 0 \<and> length ts < 2 ^ 20 \<and>
     (if rsdp_revision m r \<ge> 2 \<and> xsdt_address m r \<noteq> 0
      then let x = unat (xsdt_address m r) in unat (sdt_length m x) = SDT_HEADER + 8 * length ts \<and>
             (\<forall>i < length ts. unat (read64 m (x + SDT_HEADER + 8 * i)) = ts ! i)
      else let x = unat (rsdt_address m r) in unat (sdt_length m x) = SDT_HEADER + 4 * length ts \<and>
             (\<forall>i < length ts. unat (read32 m (x + SDT_HEADER + 4 * i)) = ts ! i))"

lemma table_count_exact:
  assumes "unat len = SDT_HEADER + w * n" "n < 2 ^ 20" "0 < w" "w \<le> 8"
  shows "unat (table_count len (of_nat w)) = n"
proof -
  have "unat len < 2 ^ 64" by (rule less_trans [OF unat_bound32]) simp
  then have "unat (ucast len :: u64) = unat len" by (simp add: unsigned_ucast_eq take_bit_nat_eq_self)
  then have l: "unat (ucast len :: u64) = SDT_HEADER + w * n" by (simp only: assms(1))
  have "(36 :: u64) \<le> ucast len" using l by (simp add: word_le_nat_alt)
  then have "unat (ucast len - 36 :: u64) = w * n" using l by (simp add: unat_sub)
  moreover have "unat (of_nat w :: u64) = w" using assms(4) by (simp add: unat_of_nat)
  ultimately have "unat ((ucast len - 36 :: u64) div of_nat w) = n" using assms(3) by (simp add: unat_div_distrib)
  then show ?thesis using assms(2) by (simp add: table_count_def unsigned_ucast_eq take_bit_nat_eq_self)
qed

lemma find_madt_tables:
  assumes "tables_at (mem s) (g_rsdp s) ts"
  shows "find_madt s = (case List.find (\<lambda>t. signature_at (mem s) t ''APIC'') ts of None \<Rightarrow> 0 | Some t \<Rightarrow> t)"
proof -
  let ?m = "mem s" and ?r = "g_rsdp s"
  have ts: "map f [0..<length ts] = ts" if "\<forall>i < length ts. f i = ts ! i" for f
    using that by (intro nth_equalityI) simp_all
  show ?thesis
  proof (cases "rsdp_revision ?m ?r \<ge> 2 \<and> xsdt_address ?m ?r \<noteq> 0")
    case True
    then have x: "unat (sdt_length ?m (unat (xsdt_address ?m ?r))) = SDT_HEADER + 8 * length ts"
        "\<forall>i < length ts. unat (read64 ?m (unat (xsdt_address ?m ?r) + SDT_HEADER + 8 * i)) = ts ! i"
      using assms by (simp_all add: tables_at_def Let_def)
    have "unat (table_count (sdt_length ?m (unat (xsdt_address ?m ?r))) 8) = length ts"
      using table_count_exact [OF x(1)] assms by (simp add: tables_at_def)
    then show ?thesis using True ts [OF x(2)] assms by (simp add: find_madt_def tables_at_def Let_def)
  next
    case False
    have x: "unat (sdt_length ?m (unat (rsdt_address ?m ?r))) = SDT_HEADER + 4 * length ts"
        "\<forall>i < length ts. unat (read32 ?m (unat (rsdt_address ?m ?r) + SDT_HEADER + 4 * i)) = ts ! i"
      using assms unfolding tables_at_def if_not_P [OF False] Let_def by simp_all
    have "unat (table_count (sdt_length ?m (unat (rsdt_address ?m ?r))) 4) = length ts"
      using table_count_exact [OF x(1)] assms by (simp add: tables_at_def)
    then show ?thesis
      using ts [OF x(2)] assms unfolding find_madt_def tables_at_def Let_def if_not_P [OF False] by simp
  qed
qed

text \<open>The scan: the first candidate of the area.\<close>

definition is_rsdp :: "memory \<Rightarrow> nat \<Rightarrow> bool" where
  "is_rsdp m a \<longleftrightarrow> signature_at m a ''RSD PTR '' \<and> checksum_ok m a 20"

fun candidates :: "memory \<Rightarrow> nat \<Rightarrow> nat \<Rightarrow> nat list" where
  "candidates m a 0 = []"
| "candidates m a (Suc n) = (if is_rsdp m a then [a] else []) @ candidates m (a + 16) n"

lemma scan_candidates:
  "0 < a \<Longrightarrow> scan_for_rsdp m a (a + 16 * n) = (case candidates m a n of [] \<Rightarrow> 0 | c # _ \<Rightarrow> c)"
proof (induction n arbitrary: a)
  case 0
  then show ?case by (simp add: scan_for_rsdp.simps)
next
  case (Suc n)
  have "scan_for_rsdp m (a + 16) (a + 16 + 16 * n) = (case candidates m (a + 16) n of [] \<Rightarrow> 0 | c # _ \<Rightarrow> c)"
    by (rule Suc.IH) simp
  then show ?case by (subst scan_for_rsdp.simps) (simp add: is_rsdp_def add.assoc)
qed

lemma candidates_pos: "0 < a \<Longrightarrow> c \<in> set (candidates m a n) \<Longrightarrow> 0 < c"
  by (induction m a n rule: candidates.induct) (auto split: if_splits)

lemma madt_walks:
  assumes "tables_at (mem s) (g_rsdp s) ts" "List.find (\<lambda>t. signature_at (mem s) t ''APIC'') ts = Some a"
    and "madt_at (mem s) a lapic es"
  shows "\<exists>u. acpi_find_cpus max_cpus s = Some (take max_cpus (enabled_cpus es), u) \<and> mem u = mem s"
    "acpi_find_apic_bases l i s = Some (first_ioapic es \<noteq> 0, ucast lapic, first_ioapic es)"
proof -
  have madt: "find_madt s = a" using find_madt_tables [OF assms(1)] assms(2) by simp
  have at: "a \<noteq> 0" "unat (sdt_length (mem s) a) = MADT_ENTRIES + length (concat es)"
      "bytes_at (mem s) (a + MADT_ENTRIES) (concat es)" "\<forall>e \<in> set es. entry_wf e" "local_apic_address (mem s) a = lapic"
    using assms(3) by (simp_all add: madt_at_def)
  have stop: "a + unat (sdt_length (mem s) a) = a + MADT_ENTRIES + length (concat es)" using at(2) by simp
  have "cpus_loop (mem s) (a + MADT_ENTRIES) (a + unat (sdt_length (mem s) a)) max_cpus [] =
      Some (take max_cpus (enabled_cpus es))"
    using cpus_loop_reads [OF at(3,4) stop, of "[]"] by simp
  moreover have "ioapic_loop (mem s) (a + MADT_ENTRIES) (a + unat (sdt_length (mem s) a)) = Some (first_ioapic es)"
    by (rule ioapic_loop_reads [OF at(3,4) stop])
  ultimately show "\<exists>u. acpi_find_cpus max_cpus s = Some (take max_cpus (enabled_cpus es), u) \<and> mem u = mem s"
    "acpi_find_apic_bases l i s = Some (first_ioapic es \<noteq> 0, ucast lapic, first_ioapic es)"
    by (simp_all add: acpi_find_cpus_def acpi_find_apic_bases_def madt at(1,5) Let_def)
qed

section \<open>Properties\<close>


text \<open>A firmware image: a root pointer at \<open>0xE0010\<close>, two tables, the second with two enabled
  processors, a disabled one and an I/O controller.\<close>

definition place :: "nat \<Rightarrow> u8 list \<Rightarrow> memory \<Rightarrow> memory" where
  "place a bs m = (\<lambda>x. if a \<le> x \<and> x < a + length bs then bs ! (x - a) else m x)"

definition demo_entries :: "u8 \<Rightarrow> u8 list list" where
  "demo_entries fl = [[0, 8, 0, 0, 1, 0, 0, 0], [0, 8, 1, 4, fl, 0, 0, 0], [0, 8, 2, 6, 0, 0, 0, 0],
     [1, 12, 0, 0, 0, 0, 0xC0, 0xFE, 0, 0, 0, 0]]"

definition demo_tables :: "u8 \<Rightarrow> memory" where
  "demo_tables fl =
     place 0xE0010 (map of_char ''RSD PTR '' @ [0x71, 0, 0, 0, 0, 0, 0, 0, 0x00, 0x70, 0, 0])
       (place 0x7004 [44, 0, 0, 0] (place 0x7024 [0, 0x71, 0, 0, 0, 0x72, 0, 0]
         (place 0x7200 (map of_char ''APIC'' @ [80, 0, 0, 0]) (place 0x7224 ([0, 0, 0xE0, 0xFE, 0, 0, 0, 0] @ concat (demo_entries fl)) (\<lambda>_. 0)))))"

definition demo_acpi :: acpi where
  "demo_acpi = sched64.extend (boot_sched\<lparr>mem := (demo_tables 1)\<rparr>) \<lparr>g_rsdp = 0\<rparr>"

lemma demo_acpi_fields [simp]: "mem demo_acpi = (demo_tables 1)" "g_rsdp demo_acpi = 0"
  by (simp_all add: demo_acpi_def sched64.defs)

lemma demo_checksum: "checksum_ok (demo_tables fl) 0xE0010 20"
proof -
  have "[0..<20] = [0, 1, 2, 3, 4, 5, 6, 7, 8, 9, 10, 11, 12, 13, 14, 15, 16, 17, 18, 19]" by (simp add: upt_rec)
  then show ?thesis by (simp add: checksum_ok_def demo_tables_def place_def)
qed

lemma bytes_at_place [simp]: "bytes_at (place a bs m) a bs"
  by (simp add: bytes_at_def place_def)

lemma bytes_at_place_other:
  assumes "a + length bs \<le> p \<or> p + length xs \<le> a"
  shows "bytes_at (place a bs m) p xs = bytes_at m p xs"
proof -
  have "place a bs m (p + i) = m (p + i)" if "i < length xs" for i
    using assms that unfolding place_def by (intro if_not_P) linarith
  then show ?thesis by (simp add: bytes_at_def)
qed

lemma read32_bytes: "bytes_at m a bs \<Longrightarrow> length bs = 4 \<Longrightarrow> read32 m a = of_nat (word_of_bytes bs)"
  using read_le_bytes [of m a bs] by (simp add: read32_def)

lemma signature_bytes: "bytes_at m a (map of_char sig) \<Longrightarrow> signature_at m a sig"
  by (simp add: signature_at_def bytes_at_def list_all_iff)

lemma demo_entry_wf: "\<forall>e \<in> set (demo_entries fl). entry_wf e"
  by (simp add: demo_entries_def entry_wf_def)

lemma demo_bytes:
  "bytes_at (demo_tables fl) 0xE0010 (map of_char ''RSD PTR '' @ [0x71, 0, 0, 0, 0, 0, 0, 0, 0x00, 0x70, 0, 0])"
  "bytes_at (demo_tables fl) 0x7004 [44, 0, 0, 0]" "bytes_at (demo_tables fl) 0x7024 [0, 0x71, 0, 0, 0, 0x72, 0, 0]"
  "bytes_at (demo_tables fl) 0x7200 (map of_char ''APIC'' @ [80, 0, 0, 0])"
  "bytes_at (demo_tables fl) 0x7224 ([0, 0, 0xE0, 0xFE, 0, 0, 0, 0] @ concat (demo_entries fl))"
  "bytes_at (demo_tables fl) 0x7100 [0]"
  unfolding demo_tables_def
  by (simp_all add: bytes_at_place_other demo_entries_def del: append_Cons) (simp add: bytes_at_def)

text \<open>Any memory with this image below 1 MB; \<open>fl\<close> are the flags of the second processor.\<close>

definition firmware :: "u8 \<Rightarrow> memory \<Rightarrow> bool" where
  "firmware fl m \<longleftrightarrow> (\<forall>x < 0x100000. m x = (demo_tables fl) x)"

lemma firmware_bytes: "firmware fl m \<Longrightarrow> bytes_at (demo_tables fl) a bs \<Longrightarrow> a + length bs \<le> 0x100000 \<Longrightarrow> bytes_at m a bs"
  by (simp add: firmware_def bytes_at_def)

lemma demo_madt:
  assumes "firmware fl m"
  shows "madt_at m 0x7200 0xFEE00000 (demo_entries fl)"
proof -
  note fb = firmware_bytes [OF assms]
  have len: "length (concat (demo_entries fl)) = 36" by (simp add: demo_entries_def)
  have b: "bytes_at m 0x7200 (map of_char ''APIC'')" "bytes_at m 0x7204 [80, 0, 0, 0]"
    using fb [OF demo_bytes(4)] unfolding bytes_at_append by simp_all
  have "bytes_at m 0x7224 ([0, 0, 0xE0, 0xFE] @ [0, 0, 0, 0] @ concat (demo_entries fl))" using fb [OF demo_bytes(5)] by (simp add: demo_entries_def)
  then have c: "bytes_at m 0x7224 [0, 0, 0xE0, 0xFE]" "bytes_at m 0x722C (concat (demo_entries fl))"
    unfolding bytes_at_append by simp_all
  show ?thesis
    using signature_bytes [OF b(1)] read32_bytes [OF b(2)] read32_bytes [OF c(1)] c(2) demo_entry_wf len
    by (simp add: madt_at_def local_apic_address_def sdt_length_def)
qed

lemma demo_tables_at:
  assumes "firmware fl m"
  shows "tables_at m 0xE0010 [0x7100, 0x7200]"
proof -
  note fb = firmware_bytes [OF assms]
  have r: "bytes_at m 0xE0010 (map of_char ''RSD PTR '' @ [0x71, 0, 0, 0, 0, 0, 0] @ [0] @ [0, 0x70, 0, 0])"
    using fb [OF demo_bytes(1)] by simp
  then have b: "bytes_at m 0xE001F [0]" "bytes_at m 0xE0020 [0, 0x70, 0, 0]"
    unfolding bytes_at_append by simp_all
  have rev: "rsdp_revision m 0xE0010 = 0" using b(1) by (simp add: rsdp_revision_def bytes_at_def)
  have rsdt: "rsdt_address m 0xE0010 = 0x7000" using read32_bytes [OF b(2)] by (simp add: rsdt_address_def)
  have "bytes_at m 0x7024 ([0, 0x71, 0, 0] @ [0, 0x72, 0, 0])" using fb [OF demo_bytes(3)] by simp
  then have r: "read32 m 0x7024 = 0x7100" "read32 m 0x7028 = 0x7200"
    unfolding bytes_at_append by (auto simp: read32_bytes)
  have tab: "\<forall>i < length [0x7100, 0x7200 :: nat]. unat (read32 m (0x7000 + SDT_HEADER + 4 * i)) = [0x7100, 0x7200] ! i"
    by (auto simp: less_Suc_eq r)
  have old: "\<not> (2 \<le> rsdp_revision m 0xE0010 \<and> xsdt_address m 0xE0010 \<noteq> 0)" by (simp add: rev)
  have x: "unat (rsdt_address m 0xE0010) = 0x7000" by (simp add: rsdt)
  have len: "unat (sdt_length m 0x7000) = SDT_HEADER + 4 * length [0x7100, 0x7200 :: nat]"
    using read32_bytes [OF fb [OF demo_bytes(2)]] by (simp add: sdt_length_def)
  show ?thesis
    unfolding tables_at_def if_not_P [OF old] Let_def x using tab len by (intro conjI) simp_all
qed

lemma demo_search:
  assumes "firmware fl m"
  shows "List.find (\<lambda>t. signature_at m t ''APIC'') [0x7100, 0x7200] = Some 0x7200"
proof -
  have "\<not> signature_at m 0x7100 ''APIC''"
    using firmware_bytes [OF assms demo_bytes(6)] by (simp add: signature_at_def bytes_at_def upt_rec)
  moreover have "signature_at m 0x7200 ''APIC''" using demo_madt [OF assms] by (simp add: madt_at_def)
  ultimately show ?thesis by simp
qed

lemma demo_firmware: "firmware fl (demo_tables fl)"
  by (simp add: firmware_def)

lemma demo_enabled: "enabled_cpus (demo_entries 1) = [0, 4]" "enabled_cpus (demo_entries 0) = [0]" "first_ioapic (demo_entries fl) = 0xFEC00000"
  by (simp_all add: enabled_cpus_def first_ioapic_def demo_entries_def dword_def)


text \<open>The first candidate of the two areas, 0 if there is none.\<close>

definition rsdp_in :: "memory \<Rightarrow> nat" where
  "rsdp_in m = (let e = unat (read16 m 0x40E) * 16;
     cs = (if e = 0 then [] else candidates m e 64) @ candidates m 0xE0000 8192
   in case cs of [] \<Rightarrow> 0 | c # _ \<Rightarrow> c)"

lemma find_rsdp_first:
  assumes z: "g_rsdp s = 0"
  shows "g_rsdp (acpi_find_rsdp_bios s) = rsdp_in (mem s)"
proof -
  define e where "e = unat (read16 (mem s) 0x40E) * 16"
  have pr: "g_rsdp (kprint t u) = g_rsdp u" for t and u :: "'a acpi_scheme" using kprint_frame [of t u] by auto
  have rom: "scan_for_rsdp (mem s) 0xE0000 0x100000 = (case candidates (mem s) 0xE0000 8192 of [] \<Rightarrow> 0 | c # _ \<Rightarrow> c)"
    using scan_candidates [of "0xE0000" "mem s" 8192] by simp
  have ebda: "scan_for_rsdp (mem s) e (e + 1024) = (case candidates (mem s) e 64 of [] \<Rightarrow> 0 | c # _ \<Rightarrow> c)" if "0 < e"
    using scan_candidates [of e "mem s" 64] that by simp
  have pos: "c \<noteq> 0" if "candidates (mem s) e 64 = c # cs" "0 < e" for c cs
    using candidates_pos [of e c "mem s" 64] that by simp
  show ?thesis
    unfolding acpi_find_rsdp_bios_def rsdp_in_def Let_def e_def [symmetric] using z pos ebda
    by (cases "e = 0"; cases "candidates (mem s) e 64") (simp_all add: pr rom)
qed

text \<open>The search for the root pointer: a pointer already set is kept; otherwise the result is
  the first 16-byte aligned candidate with the right signature and checksum, first in the
  kilobyte after the extended BIOS data area (if there is one), then from \<open>0xE0000\<close> to \<open>0xFFFFF\<close>,
  and the null pointer if there is none.\<close>

lemma acpi_find_rsdp_bios_scans:
  "(g_rsdp s \<noteq> 0 \<longrightarrow> acpi_find_rsdp_bios s = s) \<and>
   (g_rsdp s = 0 \<longrightarrow>
      (let e = unat (read16 (mem s) 0x40E) * 16;
           cs = (if e = 0 then [] else candidates (mem s) e 64) @ candidates (mem s) 0xE0000 8192
       in g_rsdp (acpi_find_rsdp_bios s) = (case cs of [] \<Rightarrow> 0 | c # _ \<Rightarrow> c)))"
  using find_rsdp_first [of s] by (simp add: acpi_find_rsdp_bios_def rsdp_in_def Let_def)

theorem acpi_find_rsdp_bios_witness: "g_rsdp (acpi_find_rsdp_bios demo_acpi) = 0xE0010"
proof -
  have d: "(demo_tables 1) 0x40E = 0" "(demo_tables 1) 0x40F = 0" "(demo_tables 1) 0xE0000 = 0"
    by (simp_all add: demo_tables_def place_def demo_entries_def)
  have z: "read16 (demo_tables 1) 0x40E = 0" "\<not> is_rsdp (demo_tables 1) 0xE0000"
    using d(1,2) by (simp add: read16_def numeral_2_eq_2) (simp add: is_rsdp_def signature_at_def upt_rec d(3))
  have "bytes_at (demo_tables 1) 0xE0010 (map of_char ''RSD PTR '')" using demo_bytes(1) unfolding bytes_at_append by simp
  then have "is_rsdp (demo_tables 1) 0xE0010" using signature_bytes demo_checksum unfolding is_rsdp_def by blast
  moreover have "candidates m a (Suc (Suc n)) = (a + 16) # candidates m (a + 32) n"
    if "\<not> is_rsdp m a" "is_rsdp m (a + 16)" for m a n using that by (simp add: add.assoc)
  from this [OF z(2), of 8190] calculation
  have "candidates (demo_tables 1) 0xE0000 8192 = 0xE0010 # candidates (demo_tables 1) 0xE0020 8190" by simp
  then show ?thesis using acpi_find_rsdp_bios_scans [of demo_acpi] z(1) by simp
qed

text \<open>The firmware is trusted for the lengths: after an entry of length 0 both walks loop for ever.\<close>

lemma acpi_zero_length_entry_hangs:
  assumes "find_madt s = a" "a \<noteq> 0" "MADT_ENTRIES < unat (sdt_length (mem s) a)" "0 < max_cpus"
    and "me_length (mem s) (a + MADT_ENTRIES) = 0" "me_type (mem s) (a + MADT_ENTRIES) = 2"
  shows "acpi_find_cpus max_cpus s = None \<and> acpi_find_apic_bases l i s = None"
proof -
  have "cpus_loop (mem s) (a + MADT_ENTRIES) (a + unat (sdt_length (mem s) a)) max_cpus [] = None"
    using cpus_loop_stuck_aux [of "mem s" "a + MADT_ENTRIES" _ max_cpus "[]"] assms(3-6) by force
  moreover have "ioapic_loop (mem s) (a + MADT_ENTRIES) (a + unat (sdt_length (mem s) a)) = None"
    using ioapic_loop_stuck_aux [of "mem s" "a + MADT_ENTRIES"] assms(3,5,6) by force
  ultimately show ?thesis using assms(1,2) by (simp add: acpi_find_cpus_def acpi_find_apic_bases_def Let_def)
qed

end
