(* ===== verification/Apic.thy ===== *)
theory Apic
  imports Acpi
begin

text \<open>
  The interrupt controllers (\<open>src/apic.c\<close>): the local controller of each processor with its timer,
  and the I/O controller. \<open>mmio_log\<close> is the sequence of register writes, with the processor that made
  them, since every processor finds its own controller at the same address. Of the I/O controller
  the model has its window: a write to its first register selects, a write at offset \<open>0x10\<close>
  stores. \<open>ioapic_dev\<close> is where the device really is; \<open>ioapic_base_pa\<close> is where the kernel believes it
  to be. The timer chip used for calibration raises its output after some number of polls
  (\<open>pit_busy\<close> now, \<open>pit_time\<close> once started), and \<open>lapic_timer_cur\<close> is what each local timer then
  reads; all are arbitrary. \<open>p\<close> is the APIC id of the processor that runs the code.
\<close>

record apic = acpi +
  lapic_base_pa :: u64
  ioapic_base_pa :: u64
  mmio_log :: "(nat \<times> u64 \<times> u32) list"
  ioapic_dev :: u64
  ioregsel :: u32
  ioapic_regs :: "nat \<Rightarrow> u32"
  apic_base_msr :: "nat \<Rightarrow> u64"
  cpuid1_edx :: u32
  port61 :: u8
  pit_busy :: nat
  pit_time :: nat
  lapic_timer_cur :: "nat \<Rightarrow> u32"

abbreviation (input) PANIC_NO_APIC :: u64 where "PANIC_NO_APIC \<equiv> 1"
abbreviation (input) LAPIC_EOI :: u64 where "LAPIC_EOI \<equiv> 0xB0"
abbreviation (input) LAPIC_SPURIOUS :: u64 where "LAPIC_SPURIOUS \<equiv> 0xF0"
abbreviation (input) LAPIC_LVT_TIMER :: u64 where "LAPIC_LVT_TIMER \<equiv> 0x320"
abbreviation (input) LAPIC_TIMER_INIT :: u64 where "LAPIC_TIMER_INIT \<equiv> 0x380"
abbreviation (input) LAPIC_TIMER_DIV :: u64 where "LAPIC_TIMER_DIV \<equiv> 0x3E0"

section \<open>Devices\<close>

definition mmio_write :: "nat \<Rightarrow> u64 \<Rightarrow> u32 \<Rightarrow> 'a apic_scheme \<Rightarrow> 'a apic_scheme" where
  "mmio_write p a v s =
     (let s = s\<lparr>mmio_log := mmio_log s @ [(p, a, v)]\<rparr>
      in if a = ioapic_dev s then s\<lparr>ioregsel := v\<rparr>
         else if a = ioapic_dev s + 0x10
         then s\<lparr>ioapic_regs := (ioapic_regs s)(unat (ioregsel s) := v)\<rparr>
         else s)"

definition lapic_write :: "nat \<Rightarrow> u64 \<Rightarrow> u32 \<Rightarrow> 'a apic_scheme \<Rightarrow> 'a apic_scheme" where
  "lapic_write p offset v s = mmio_write p (lapic_base_pa s + offset) v s"

text \<open>The id register holds the id in its top byte.\<close>

definition lapic_get_id :: "nat \<Rightarrow> u8" where
  "lapic_get_id p = (let r = push_bit 24 (of_nat p) :: u32 in ucast (drop_bit 24 r AND 0xFF))"

definition inb_61 :: "'a apic_scheme \<Rightarrow> u8 \<times> 'a apic_scheme" where
  "inb_61 s = (if pit_busy s = 0 then (port61 s OR 0x20, s)
     else (port61 s AND NOT 0x20, s\<lparr>pit_busy := pit_busy s - 1\<rparr>))"

lemma out2_bit: "(x OR 0x20 :: u8) AND 0x20 = 0x20"
  by (rule bit_word_eqI) (auto simp: bit_simps)

function pit_wait :: "'a apic_scheme \<Rightarrow> 'a apic_scheme" where
  "pit_wait s = (case inb_61 s of (r, s') \<Rightarrow> if r AND 0x20 = 0 then pit_wait s' else s')"
  by pat_completeness auto
termination
  by (relation "measure pit_busy") (auto simp: inb_61_def out2_bit split: if_splits)

declare pit_wait.simps [simp del]

section \<open>The operations\<close>

definition apic_check_supported :: "'a apic_scheme \<Rightarrow> ('a apic_scheme, unit) result" where
  "apic_check_supported s =
     (if \<not> bit (cpuid1_edx s) 9 then Inl (neka_panic ''APIC'' PANIC_NO_APIC s) else Inr ((), s))"

definition apic_apply_acpi_bases :: "'a apic_scheme \<Rightarrow> 'a apic_scheme option" where
  "apic_apply_acpi_bases s =
     (case acpi_find_apic_bases 0 0 s of
        None \<Rightarrow> None
      | Some (found, lapic_pa, ioapic_pa) \<Rightarrow>
          if found
          then let s = s\<lparr>lapic_base_pa := lapic_pa, ioapic_base_pa := ioapic_pa\<rparr>
               in Some (kprint (''[apic] using ACPI-discovered LAPIC/IOAPIC addresses'' @ [nl]) s)
          else Some (kprint (''[apic] ACPI bases unavailable, using standard defaults'' @ [nl]) s))"

definition disable_legacy_pic :: "'a apic_scheme \<Rightarrow> 'a apic_scheme" where
  "disable_legacy_pic s = uart_out 0x21 0xFF (uart_out 0xA1 0xFF s)"

definition lapic_enable :: "nat \<Rightarrow> 'a apic_scheme \<Rightarrow> ('a apic_scheme, unit) presult" where
  "lapic_enable p s =
     bind_p (paging_map_mmio_2mb (lapic_base_pa s) s) (\<lambda>_ s.
       let s = s\<lparr>apic_base_msr := (apic_base_msr s)(p := apic_base_msr s p OR push_bit 11 1)\<rparr>
       in Some (Inr ((), lapic_write p LAPIC_SPURIOUS 0x1FF s)))"

definition lapic_send_eoi :: "nat \<Rightarrow> 'a apic_scheme \<Rightarrow> 'a apic_scheme" where
  "lapic_send_eoi p s = lapic_write p LAPIC_EOI 0 s"

definition lapic_calibrate_ticks :: "nat \<Rightarrow> u32 \<Rightarrow> 'a apic_scheme \<Rightarrow> u32 \<times> 'a apic_scheme" where
  "lapic_calibrate_ticks p ms s =
     (let s = lapic_write p LAPIC_TIMER_DIV 0x3 s;
          (x, s) = inb_61 s;
          x = (x AND NOT 0x02) OR 0x01;
          s = (uart_out 0x61 x s)\<lparr>port61 := x\<rparr>;
          count = ucast (1193182 * (ucast ms :: u64) div 1000) :: u32;
          s = uart_out 0x43 0xB0 s;
          s = uart_out 0x42 (ucast (count AND 0xFF)) s;
          s = (uart_out 0x42 (ucast (drop_bit 8 count AND 0xFF)) s)\<lparr>pit_busy := pit_time s\<rparr>;
          s = lapic_write p LAPIC_TIMER_INIT 0xFFFFFFFF s;
          s = pit_wait s
      in (0xFFFFFFFF - lapic_timer_cur s p, s))"

text \<open>A frequency of 0 divides by zero: \<open>None\<close>.\<close>

definition apic_timer_init :: "nat \<Rightarrow> u8 \<Rightarrow> u32 \<Rightarrow> 'a apic_scheme \<Rightarrow> 'a apic_scheme option" where
  "apic_timer_init p vector hz s =
     (if hz = 0 then None
      else
        let (ticks, s) = lapic_calibrate_ticks p (1000 div hz) s;
            s = lapic_write p LAPIC_LVT_TIMER (ucast vector OR push_bit 17 1) s;
            s = lapic_write p LAPIC_TIMER_DIV 0x3 s;
            s = lapic_write p LAPIC_TIMER_INIT ticks s;
            s = kprint ''[apic] LAPIC timer calibrated: '' s;
            s = kprint_hex64 (ucast ticks) s
        in Some (kprint ('' ticks/period'' @ [nl]) s))"

definition ioapic_write :: "nat \<Rightarrow> u8 \<Rightarrow> u32 \<Rightarrow> 'a apic_scheme \<Rightarrow> ('a apic_scheme, unit) presult" where
  "ioapic_write p reg val s =
     bind_p (paging_map_mmio_2mb (ioapic_base_pa s) s) (\<lambda>_ s.
       let s = mmio_write p (ioapic_base_pa s) (ucast reg) s
       in Some (Inr ((), mmio_write p (ioapic_base_pa s + 0x10) val s)))"

definition ioapic_set_redirect :: "nat \<Rightarrow> u8 \<Rightarrow> u8 \<Rightarrow> 'a apic_scheme \<Rightarrow> ('a apic_scheme, unit) presult" where
  "ioapic_set_redirect p irq vector s =
     (let low = ucast vector;
          high = push_bit 24 (ucast (lapic_get_id p))
      in bind_p (ioapic_write p (0x10 + irq * 2) low s) (\<lambda>_ s.
         ioapic_write p (0x10 + irq * 2 + 1) high s))"

section \<open>What the device accesses leave alone\<close>

lemma pit_wait_eq: "pit_wait s = s\<lparr>pit_busy := 0\<rparr>"
proof (induction s rule: pit_wait.induct)
  case (1 s)
  have "(x AND NOT 0x20 :: u8) AND 0x20 = 0" for x by (simp add: and.assoc)
  then show ?case
    using 1 by (subst pit_wait.simps) (cases "pit_busy s = 0"; simp add: inb_61_def out2_bit)
qed

lemma mmio_write_frame:
  "\<exists>l r g. mmio_write p a v s = s\<lparr>mmio_log := l, ioregsel := r, ioapic_regs := g\<rparr>"
proof -
  have "mmio_write p a v s = s\<lparr>mmio_log := mmio_log (mmio_write p a v s), ioregsel := ioregsel (mmio_write p a v s),
      ioapic_regs := ioapic_regs (mmio_write p a v s)\<rparr>"
    by (simp add: mmio_write_def Let_def)
  then show ?thesis by blast
qed

lemma mmio_write_fields [simp, frame_simps]:
  "lapic_base_pa (mmio_write p a v s) = lapic_base_pa s" "ioapic_base_pa (mmio_write p a v s) = ioapic_base_pa s"
  "ioapic_dev (mmio_write p a v s) = ioapic_dev s" "mmio_log (mmio_write p a v s) = mmio_log s @ [(p, a, v)]"
  "mem (mmio_write p a v s) = mem s" "uart_log (mmio_write p a v s) = uart_log s"
  "apic_base_msr (mmio_write p a v s) = apic_base_msr s" "lapic_timer_cur (mmio_write p a v s) = lapic_timer_cur s"
  "pit_time (mmio_write p a v s) = pit_time s"
  by (simp_all add: mmio_write_def Let_def)

lemma inb_61_fields [simp, frame_simps]:
  "lapic_base_pa (snd (inb_61 s)) = lapic_base_pa s" "mmio_log (snd (inb_61 s)) = mmio_log s"
  "uart_log (snd (inb_61 s)) = uart_log s" "lapic_timer_cur (snd (inb_61 s)) = lapic_timer_cur s"
  "pit_time (snd (inb_61 s)) = pit_time s"
  by (simp_all add: inb_61_def)

lemma kprint_apic [simp, frame_simps]:
  "mmio_log (kprint t s) = mmio_log s" "lapic_base_pa (kprint t s) = lapic_base_pa s"
  "ioapic_base_pa (kprint t s) = ioapic_base_pa s" "ioapic_regs (kprint t s) = ioapic_regs s"
  using kprint_frame [of t s] by auto

lemma fresh_apic [simp]:
  "fresh (mmio_log_update f s) U = fresh s U" "fresh (ioregsel_update g s) U = fresh s U"
  "fresh (ioapic_regs_update h s) U = fresh s U" "frames_avail (mmio_log_update f s) = frames_avail s"
  "frames_avail (ioregsel_update g s) = frames_avail s" "frames_avail (ioapic_regs_update h s) = frames_avail s"
  "fresh (apic_base_msr_update k s) U = fresh s U" "frames_avail (apic_base_msr_update k s) = frames_avail s"
  by (simp_all add: fresh_def frames_avail_def alloc_ok_def memmap_ok_def free_frames_def)

lemma mmio_ready_write [simp]: "mmio_ready (mmio_write p a v s) n = mmio_ready s n"
  using mmio_write_frame [of p a v s] by (auto simp: mmio_ready_def)

lemma mmio_ready_msr [simp]: "mmio_ready (apic_base_msr_update f s) n = mmio_ready s n"
  by (simp add: mmio_ready_def)

lemma strip_apic:
  assumes "strip s' = strip s"
  shows "lapic_base_pa s' = lapic_base_pa s" "ioapic_base_pa s' = ioapic_base_pa s" "ioapic_dev s' = ioapic_dev s"
    "mmio_log s' = mmio_log s" "ioapic_regs s' = ioapic_regs s" "apic_base_msr s' = apic_base_msr s"
proof -
  have "lapic_base_pa (strip s') = lapic_base_pa (strip s)" "ioapic_base_pa (strip s') = ioapic_base_pa (strip s)"
    "ioapic_dev (strip s') = ioapic_dev (strip s)" "mmio_log (strip s') = mmio_log (strip s)"
    "ioapic_regs (strip s') = ioapic_regs (strip s)" "apic_base_msr (strip s') = apic_base_msr (strip s)"
    using assms by simp_all
  then show "lapic_base_pa s' = lapic_base_pa s" "ioapic_base_pa s' = ioapic_base_pa s" "ioapic_dev s' = ioapic_dev s"
    "mmio_log s' = mmio_log s" "ioapic_regs s' = ioapic_regs s" "apic_base_msr s' = apic_base_msr s"
    by (simp_all add: strip_def)
qed

text \<open>One register of the I/O controller, with its page mapped.\<close>

lemma ioapic_write_ok:
  assumes "mmio_ready s (Suc n)" "2097152 dvd unat (ioapic_base_pa s)" "unat (ioapic_base_pa s) < 0x8000000000"
    "ioapic_base_pa s = ioapic_dev s"
  obtains s' where "ioapic_write p reg v s = Some (Inr ((), s'))" "mmio_ready s' n"
    "ioapic_regs s' = (ioapic_regs s)(unat reg := v)" "ioapic_base_pa s' = ioapic_base_pa s" "ioapic_dev s' = ioapic_dev s"
    "lapic_base_pa s' = lapic_base_pa s"
proof -
  obtain s1 where 1: "paging_map_mmio_2mb (ioapic_base_pa s) s = Some (Inr ((), s1))" "strip s1 = strip s" "mmio_ready s1 n"
    by (rule map_mmio_ready [OF assms(1-3)]) blast
  note f = strip_apic [OF 1(2)]
  let ?s = "mmio_write p (ioapic_base_pa s1 + 0x10) v (mmio_write p (ioapic_base_pa s1) (ucast reg) s1)"
  have run: "ioapic_write p reg v s = Some (Inr ((), ?s))" by (simp add: ioapic_write_def 1(1) Let_def)
  have "unat (ucast reg :: u32) = unat reg" by (simp add: unsigned_ucast_eq take_bit_nat_eq_self less_trans [OF unat_bound8])
  then have regs: "ioapic_regs ?s = (ioapic_regs s)(unat reg := v)"
    using assms(4) f(2,3,5) by (simp add: mmio_write_def Let_def)
  show ?thesis by (rule that [OF run]) (use regs f 1(3) in simp_all)
qed

section \<open>Properties\<close>

text \<open>A redirection entry of the I/O controller: vector, mask bit, destination processor.\<close>

definition redirection :: "(nat \<Rightarrow> u32) \<Rightarrow> nat \<Rightarrow> u8 \<times> bool \<times> u8" where
  "redirection g irq = (ucast (g (0x10 + 2 * irq)), bit (g (0x10 + 2 * irq)) 16, ucast (drop_bit 24 (g (0x11 + 2 * irq))))"

lemma lapic_get_id_eq: "lapic_get_id p = of_nat p"
proof -
  have m: "(0xFF :: u32) = mask 8" by (simp add: mask_eq_exp_minus_1)
  show ?thesis unfolding lapic_get_id_def Let_def m by (rule bit_word_eqI) (auto simp: bit_simps)
qed

lemma redirection_entry:
  assumes "g (0x10 + 2 * irq) = ucast (v :: u8)" "g (0x11 + 2 * irq) = push_bit 24 (ucast (d :: u8))"
  shows "redirection g irq = (v, False, d)"
proof -
  have v: "ucast (ucast v :: u32) = v" for v :: u8 by (rule bit_word_eqI) (auto simp: bit_simps)
  have "\<not> bit v 16" using bit_imp_le_length [of v 16] by auto
  then have v16: "\<not> bit (ucast v :: u32) 16" by (simp add: bit_simps)
  have "drop_bit 24 (push_bit 24 (ucast d :: u32)) = ucast d"
    by (rule bit_word_eqI) (auto simp: bit_simps dest: bit_imp_le_length)
  then show ?thesis using assms v v16 by (simp add: redirection_def)
qed

text \<open>C30. Bringing the interrupt controllers up, as \<open>kernel_main64\<close> does: \<open>lapic_enable\<close> and then
  \<open>ioapic_set_redirect\<close> both succeed when the frame allocator has three frames left and the
  controllers lie on 2 MB boundaries; the local controller's registers are then mapped one to
  one and closed to ring 3, the controller is enabled in both places, and the interrupt line is
  routed, unmasked, to the given vector on the calling processor, no other line being touched.\<close>

theorem apic_routes_interrupt:
  assumes "mmio_ready s 3" "2097152 dvd unat (lapic_base_pa s)" "unat (lapic_base_pa s) < 2 ^ 39"
    and "2097152 dvd unat (ioapic_base_pa s)" "unat (ioapic_base_pa s) < 2 ^ 39" "ioapic_base_pa s = ioapic_dev s"
    and "unat (ioapic_dev s) div 2097152 \<noteq> unat (lapic_base_pa s) div 2097152"
    and "unat irq < 24"
  shows "\<exists>t u. lapic_enable p s = Some (Inr ((), t)) \<and> ioapic_set_redirect p irq vector t = Some (Inr ((), u)) \<and>
    (\<forall>off. unat off < 4096 \<longrightarrow> walk (mem t) (kernel_pml4 s) (lapic_base_pa s + off) =
       Some (unat (lapic_base_pa s + off), True, False)) \<and>
    bit (apic_base_msr t p) 11 \<and> last (mmio_log t) = (p, lapic_base_pa s + LAPIC_SPURIOUS, 0x1FF) \<and>
    redirection (ioapic_regs u) (unat irq) = (vector, False, of_nat p) \<and>
    (\<forall>r. r \<noteq> 0x10 + 2 * unat irq \<and> r \<noteq> 0x11 + 2 * unat irq \<longrightarrow> ioapic_regs u r = ioapic_regs s r)"
proof -
  have lt: "unat (lapic_base_pa s) < 0x8000000000" "unat (ioapic_base_pa s) < 0x8000000000" using assms(3,5) by simp_all
  have ready3: "mmio_ready s (Suc 2)" using assms(1) by simp
  obtain s1 where 1: "paging_map_mmio_2mb (lapic_base_pa s) s = Some (Inr ((), s1))" "strip s1 = strip s" "mmio_ready s1 2"
      "\<And>va. unat va < 0x8000000000 \<Longrightarrow> walk (mem s1) (kernel_pml4 s) va =
        (if unat va div 2097152 = unat (lapic_base_pa s) div 2097152 then Some (unat va, True, False)
         else walk (mem s) (kernel_pml4 s) va)"
    by (rule map_mmio_ready [OF ready3 assms(2) lt(1)]) blast
  note f = strip_apic [OF 1(2)]
  define t where "t = lapic_write p LAPIC_SPURIOUS 0x1FF
      (s1\<lparr>apic_base_msr := (apic_base_msr s1)(p := apic_base_msr s1 p OR push_bit 11 1)\<rparr>)"
  have run: "lapic_enable p s = Some (Inr ((), t))" by (simp add: lapic_enable_def 1(1) t_def Let_def)
  have mt: "mem t = mem s1" "ioapic_base_pa t = ioapic_base_pa s" "ioapic_dev t = ioapic_dev s"
    by (simp_all add: t_def lapic_write_def f)
  obtain q where q: "unat (lapic_base_pa s) = q * 2097152" using assms(2) by (metis dvdE mult.commute)
  have q18: "q < 0x40000" using q lt(1) by linarith
  have page: "walk (mem t) (kernel_pml4 s) (lapic_base_pa s + off) = Some (unat (lapic_base_pa s + off), True, False)"
    if off: "unat off < 4096" for off
  proof -
    have add: "unat (lapic_base_pa s + off) = q * 2097152 + unat off"
      using q lt(1) off unat_add_small [of "lapic_base_pa s" off] by simp
    have "unat (lapic_base_pa s + off) div 2097152 = q" using off unfolding add by (simp add: div_range)
    moreover have "unat (lapic_base_pa s) div 2097152 = q" by (simp add: q)
    moreover have "unat (lapic_base_pa s + off) < 0x8000000000" using add q18 off by linarith
    ultimately show ?thesis using 1(4) mt(1) by simp
  qed
  have ready: "mmio_ready t (Suc 1)" using 1(3) by (simp add: t_def lapic_write_def numeral_2_eq_2)
  have regs: "ioapic_regs t = ioapic_regs s"
  proof -
    have far: "lapic_base_pa s + 0xF0 \<noteq> ioapic_dev s" "lapic_base_pa s + 0xF0 \<noteq> ioapic_dev s + 0x10"
    proof -
      obtain k where k: "unat (ioapic_dev s) = k * 2097152" using assms(4,6) by (metis dvdE mult.commute)
      have "unat (lapic_base_pa s + 0xF0) = q * 2097152 + 0xF0"
        using q lt(1) unat_add_small [of "lapic_base_pa s" "0xF0"] by simp
      then have "unat (lapic_base_pa s + 0xF0) div 2097152 = q" by (simp add: div_range)
      moreover have "unat (ioapic_dev s + 0x10) = k * 2097152 + 0x10"
        using k lt(2) assms(6) unat_add_small [of "ioapic_dev s" "0x10"] by simp
      then have "unat (ioapic_dev s + 0x10) div 2097152 = k" by (simp add: div_range)
      moreover have "unat (ioapic_dev s) div 2097152 = k" "q \<noteq> k" using assms(7) q k by simp_all
      ultimately show "lapic_base_pa s + 0xF0 \<noteq> ioapic_dev s" "lapic_base_pa s + 0xF0 \<noteq> ioapic_dev s + 0x10" by metis+
    qed
    then show ?thesis by (simp add: t_def lapic_write_def mmio_write_def Let_def f)
  qed
  have irq: "unat (irq * 2) = 2 * unat irq" using assms(8) by (simp add: unat_word_ariths)
  have idx: "unat (0x10 + irq * 2) = 0x10 + 2 * unat irq" "unat (0x10 + irq * 2 + 1) = 0x11 + 2 * unat irq"
    using assms(8) irq by (simp_all add: unat_word_ariths)
  obtain t2 where 2: "ioapic_write p (0x10 + irq * 2) (ucast vector) t = Some (Inr ((), t2))" "mmio_ready t2 1"
      "ioapic_regs t2 = (ioapic_regs t)(unat (0x10 + irq * 2) := ucast vector)" "ioapic_base_pa t2 = ioapic_base_pa t"
      "ioapic_dev t2 = ioapic_dev t"
    by (rule ioapic_write_ok [OF ready]) (use mt assms lt in auto)
  have ready2: "mmio_ready t2 (Suc 0)" using 2(2) by simp
  obtain u where 3: "ioapic_write p (0x10 + irq * 2 + 1) (push_bit 24 (ucast (lapic_get_id p))) t2 = Some (Inr ((), u))"
      "ioapic_regs u = (ioapic_regs t2)(unat (0x10 + irq * 2 + 1) := push_bit 24 (ucast (lapic_get_id p)))"
    by (rule ioapic_write_ok [OF ready2]) (use mt 2 assms lt in auto)
  have "redirection (ioapic_regs u) (unat irq) = (vector, False, of_nat p)"
    using redirection_entry [of "ioapic_regs u" "unat irq" vector "lapic_get_id p"] 2(3) 3(2) idx lapic_get_id_eq [of p]
    by simp
  moreover have "ioapic_set_redirect p irq vector t = Some (Inr ((), u))"
    using 2(1) 3(1) by (simp add: ioapic_set_redirect_def Let_def)
  moreover have "bit (apic_base_msr t p) 11" by (simp add: t_def lapic_write_def bit_simps)
  moreover have "last (mmio_log t) = (p, lapic_base_pa s + LAPIC_SPURIOUS, 0x1FF)" by (simp add: t_def lapic_write_def f)
  moreover have "ioapic_regs u r = ioapic_regs s r" if "r \<noteq> 0x10 + 2 * unat irq \<and> r \<noteq> 0x11 + 2 * unat irq" for r
    using that 2(3) 3(2) idx regs by simp
  ultimately show ?thesis using run page by blast
qed

definition demo_apic :: apic where
  "demo_apic = acpi.extend (demo_acpi\<lparr>next_frame := 0\<rparr>)
     \<lparr>lapic_base_pa = 0xFEE00000, ioapic_base_pa = 0xFEC00000, mmio_log = [], ioapic_dev = 0xFEC00000, ioregsel = 0,
      ioapic_regs = (\<lambda>_. 0x10000), apic_base_msr = (\<lambda>_. 0), cpuid1_edx = 0x200, port61 = 0, pit_busy = 0,
      pit_time = 5, lapic_timer_cur = (\<lambda>_. 0xFFFF0000)\<rparr>"

lemma demo_apic_fields [simp]:
  "\<not> map_active demo_apic" "next_frame demo_apic = 0" "frame_pool demo_apic = 0x200000"
  "lapic_base_pa demo_apic = 0xFEE00000" "mmio_log demo_apic = []" "lapic_timer_cur demo_apic = (\<lambda>_. 0xFFFF0000)"
  by (simp_all add: demo_apic_def demo_acpi_def sched64.defs acpi.defs boot_sched_def boot_paging_def memmap.defs paging.defs bare_defs)

lemma boot_mmio: obtains s :: apic where "mmio_ready s 61"
proof -
  have fr: "fresh demo_apic {}" by (rule pool_fresh) simp_all
  have n: "length (frames_avail demo_apic) = 64" by (simp add: frames_avail_def)
  obtain s :: apic and kd where s: "kernel_map (mem s) (kernel_pml4 s) (kernel_pdpt s) kd"
      "\<And>i. 0 < i \<Longrightarrow> i < 512 \<Longrightarrow> entry (mem s) (kernel_pdpt s) i = 0"
      "fresh s {kernel_pml4 s, kernel_pdpt s, kd}" "length (frames_avail s) = 61"
    by (rule init_kernel_map_fresh [OF fr, of 0]) (use n in auto)
  have "ran [0 \<mapsto> kd] = {kd}" by simp
  then have "{kernel_pml4 s, kernel_pdpt s} \<union> ran [0 \<mapsto> kd] = {kernel_pml4 s, kernel_pdpt s, kd}" by auto
  then have f: "fresh s ({kernel_pml4 s, kernel_pdpt s} \<union> ran [0 \<mapsto> kd])" using s(3) by simp
  have tree: "kernel_tree (mem s) (kernel_pml4 s) (kernel_pdpt s) [0 \<mapsto> kd]" by (rule kernel_map_tree [OF s(1,2)])
  have "mmio_ready s 61" unfolding mmio_ready_def using s(4) conjI [OF tree f] by (intro conjI exI [of _ "[0 \<mapsto> kd]"]) auto
  then show ?thesis by (rule that)
qed

lemma mmio_ready_bases [simp]:
  "mmio_ready (lapic_base_pa_update f s) n = mmio_ready s n" "mmio_ready (ioapic_base_pa_update g s) n = mmio_ready s n"
  "mmio_ready (ioapic_dev_update h s) n = mmio_ready s n"
  by (simp_all add: mmio_ready_def fresh_def frames_avail_def alloc_ok_def memmap_ok_def free_frames_def)

theorem apic_routes_interrupt_witness:
  "\<exists>(s :: apic) t u. lapic_enable 0 s = Some (Inr ((), t)) \<and> ioapic_set_redirect 0 1 33 t = Some (Inr ((), u)) \<and>
     redirection (ioapic_regs u) 1 = (33, False, 0)"
proof -
  obtain s0 :: apic where s0: "mmio_ready s0 61" by (rule boot_mmio)
  define s where "s = s0\<lparr>lapic_base_pa := 0xFEE00000, ioapic_base_pa := 0xFEC00000, ioapic_dev := 0xFEC00000\<rparr>"
  have "mmio_ready s 3" using s0 by (simp add: s_def) (simp add: mmio_ready_def)
  then obtain t u where "lapic_enable 0 s = Some (Inr ((), t))" "ioapic_set_redirect 0 1 33 t = Some (Inr ((), u))"
      "redirection (ioapic_regs u) 1 = (33, False, 0)"
    using apic_routes_interrupt [of s 1 0 33] by (auto simp: s_def)
  then show ?thesis by blast
qed

text \<open>C31. The timer: \<open>apic_timer_init\<close> returns for every frequency but 0 (whatever number of polls the
  calibration takes), programs the reference timer for one period in its 16-bit counter, and
  leaves the local timer of the calling processor in periodic mode on the given vector, its period
  being the ticks counted during the calibration.\<close>

theorem apic_timer_init_programs:
  "(hz \<noteq> 0 \<longrightarrow> (\<exists>u x lo hi text. apic_timer_init p vector hz s = Some u \<and>
      mmio_log u = mmio_log s @ [(p, lapic_base_pa s + LAPIC_TIMER_DIV, 3), (p, lapic_base_pa s + LAPIC_TIMER_INIT, 0xFFFFFFFF),
        (p, lapic_base_pa s + LAPIC_LVT_TIMER, ucast vector OR 0x20000), (p, lapic_base_pa s + LAPIC_TIMER_DIV, 3),
        (p, lapic_base_pa s + LAPIC_TIMER_INIT, 0xFFFFFFFF - lapic_timer_cur s p)] \<and>
      uart_log u = uart_log s @ [(0x61, x), (0x43, 0xB0), (0x42, lo), (0x42, hi)] @ text \<and>
      bit x 0 \<and> \<not> bit x 1 \<and>
      unat lo + 256 * unat hi = 1193182 * (1000 div unat hz) div 1000 mod 65536)) \<and>
   apic_timer_init p vector 0 s = None"
proof (intro conjI impI)
  assume hz: "hz \<noteq> 0"
  define ms :: u32 where "ms = 1000 div hz"
  define count :: u32 where "count = ucast (1193182 * (ucast ms :: u64) div 1000)"
  define x where "x = (fst (inb_61 (lapic_write p LAPIC_TIMER_DIV 3 s)) AND NOT 2) OR 1"
  have ms: "unat ms = 1000 div unat hz" by (simp add: ms_def unat_div_distrib)
  then have ms1000: "unat ms \<le> 1000" using div_le_dividend [of 1000 "unat hz"] by simp
  then have "unat (ucast ms :: u64) = unat ms" by (simp add: unsigned_ucast_eq take_bit_nat_eq_self)
  then have "unat (1193182 * (ucast ms :: u64)) = 1193182 * unat ms" using ms1000 by (simp add: unat_word_ariths)
  then have "unat (1193182 * (ucast ms :: u64) div 1000) = 1193182 * unat ms div 1000" by (simp add: unat_div_distrib)
  moreover have "1193182 * unat ms div 1000 < 4294967296" using ms1000 by (simp add: div_less_iff_less_mult)
  ultimately have count: "unat count = 1193182 * unat ms div 1000"
    by (simp add: count_def unsigned_ucast_eq take_bit_nat_eq_self)
  have low: "unat (ucast (c AND 0xFF) :: u8) = unat c mod 256" for c :: u32
  proof -
    have "c AND 0xFF = take_bit 8 c" by (simp add: take_bit_eq_mask mask_eq_exp_minus_1)
    then show ?thesis by (simp add: unsigned_ucast_eq take_bit_eq_mod unat_mod_distrib)
  qed
  have bytes: "unat (ucast (count AND 0xFF) :: u8) + 256 * unat (ucast (drop_bit 8 count AND 0xFF) :: u8) = unat count mod 65536"
  proof -
    have "unat (drop_bit 8 count) = drop_bit 8 (unat count)" by (rule unat_drop_bit_eq)
    then have "unat (drop_bit 8 count) = unat count div 256" by (simp only: drop_bit_eq_div) simp
    moreover have "unat count mod 65536 = unat count mod 256 + 256 * (unat count div 256 mod 256)"
      using mod_mult2_eq [of "unat count" 256 256] by simp
    ultimately show ?thesis by (simp only: low)
  qed
  have bits: "bit x 0" "\<not> bit x 1" by (simp_all add: x_def bit_simps)
  show "\<exists>u x lo hi text. apic_timer_init p vector hz s = Some u \<and>
      mmio_log u = mmio_log s @ [(p, lapic_base_pa s + LAPIC_TIMER_DIV, 3), (p, lapic_base_pa s + LAPIC_TIMER_INIT, 0xFFFFFFFF),
        (p, lapic_base_pa s + LAPIC_LVT_TIMER, ucast vector OR 0x20000), (p, lapic_base_pa s + LAPIC_TIMER_DIV, 3),
        (p, lapic_base_pa s + LAPIC_TIMER_INIT, 0xFFFFFFFF - lapic_timer_cur s p)] \<and>
      uart_log u = uart_log s @ [(0x61, x), (0x43, 0xB0), (0x42, lo), (0x42, hi)] @ text \<and>
      bit x 0 \<and> \<not> bit x 1 \<and>
      unat lo + 256 * unat hi = 1193182 * (1000 div unat hz) div 1000 mod 65536"
    using hz bits bytes count ms
    by (intro exI [of _ "the (apic_timer_init p vector hz s)"] exI [of _ x] exI [of _ "ucast (count AND 0xFF)"]
          exI [of _ "ucast (drop_bit 8 count AND 0xFF)"] exI)
      (simp add: apic_timer_init_def lapic_calibrate_ticks_def Let_def split_beta uart_out_def lapic_write_def
        kprint_uart kprint_hex64_def pit_wait_eq ms_def [symmetric] count_def [symmetric] x_def)
qed (simp add: apic_timer_init_def)

theorem apic_timer_init_witness:
  "\<exists>u. apic_timer_init 0 32 100 demo_apic = Some u \<and> last (mmio_log u) = (0, 0xFEE00380, 0xFFFF)"
  using apic_timer_init_programs [of 100 0 32 demo_apic] by auto

end
