(* ===== verification/Gdt.thy ===== *)
theory Gdt
  imports Apic
begin

text \<open>
  Segments and task state (\<open>src/gdt64.c\<close>). The descriptor table and the task state segments are
  arrays whose addresses the linker chose. \<open>gdtr\<close>, \<open>cs_reg\<close>, \<open>ds_reg\<close> and \<open>task_reg\<close> are each
  processor's registers (\<open>ds_reg\<close> stands for the five data segment registers, which are loaded
  together). Loading the task register marks the descriptor busy in memory and faults on a
  descriptor that is already busy or not a task state segment; a fault is \<open>None\<close>.
\<close>

record tss64 =
  tss_reserved0 :: u32
  rsp0 :: u64
  rsp1 :: u64
  rsp2 :: u64
  tss_reserved1 :: u64
  ists :: "u64 list"
  tss_reserved2 :: u64
  tss_reserved3 :: u16
  iomap_base :: u16

record gdt_state = apic +
  tss :: "nat \<Rightarrow> tss64"
  tss_addr :: nat
  kstack0_addr :: nat
  gdt :: "nat \<Rightarrow> u64"
  gdt_addr :: nat
  gdt_ptr :: "u16 \<times> u64"
  gdt_ptr_addr :: nat
  gdtr :: "nat \<Rightarrow> u16 \<times> u64"
  cs_reg :: "nat \<Rightarrow> u16"
  ds_reg :: "nat \<Rightarrow> u16"
  task_reg :: "nat \<Rightarrow> u16"

abbreviation (input) KSTACK0_SIZE :: nat where "KSTACK0_SIZE \<equiv> 8192"
abbreviation (input) MAX_TSS_CPUS :: nat where "MAX_TSS_CPUS \<equiv> 4"
abbreviation (input) TSS_SIZE :: nat where "TSS_SIZE \<equiv> 104"
abbreviation (input) SEL_KCODE :: u16 where "SEL_KCODE \<equiv> 0x08"
abbreviation (input) SEL_KDATA :: u16 where "SEL_KDATA \<equiv> 0x10"
abbreviation (input) SEL_UCODE :: u16 where "SEL_UCODE \<equiv> 0x18"
abbreviation (input) SEL_UDATA :: u16 where "SEL_UDATA \<equiv> 0x20"
abbreviation (input) SEL_TSS_BASE :: u16 where "SEL_TSS_BASE \<equiv> 0x28"

definition zero_tss :: tss64 where
  "zero_tss = \<lparr>tss_reserved0 = 0, rsp0 = 0, rsp1 = 0, rsp2 = 0, tss_reserved1 = 0, ists = replicate 7 0,
     tss_reserved2 = 0, tss_reserved3 = 0, iomap_base = 0\<rparr>"

section \<open>The operations\<close>

text \<open>\<open>ltr\<close>: the descriptor must be an available 64-bit task state segment (type 9, present).\<close>

definition ltr :: "nat \<Rightarrow> u16 \<Rightarrow> 'a gdt_state_scheme \<Rightarrow> 'a gdt_state_scheme option" where
  "ltr p sel s =
     (let slot = unat sel div 8;
          d = gdt s slot
      in if drop_bit 40 d AND 0x9F = 0x89
         then Some (s\<lparr>gdt := (gdt s)(slot := d OR push_bit 41 1), task_reg := (task_reg s)(p := sel)\<rparr>)
         else None)"

definition tss_descriptor :: "u64 \<Rightarrow> u64 \<Rightarrow> u64" where
  "tss_descriptor base limit =
     (limit AND 0xFFFF) OR push_bit 16 (base AND 0xFFFFFF) OR push_bit 40 0x89 OR
     push_bit 48 (drop_bit 16 limit AND 0xF) OR push_bit 56 (drop_bit 24 base AND 0xFF)"

definition gdt_setup_cpu_tss :: "nat \<Rightarrow> int \<Rightarrow> 'a gdt_state_scheme \<Rightarrow> 'a gdt_state_scheme option" where
  "gdt_setup_cpu_tss p cpu_idx s =
     (if cpu_idx < 0 \<or> cpu_idx \<ge> int MAX_TSS_CPUS then Some s
      else
        let i = nat cpu_idx;
            t = zero_tss\<lparr>rsp0 := of_nat (kstack0_addr s + KSTACK0_SIZE * i + KSTACK0_SIZE),
                          iomap_base := of_nat TSS_SIZE\<rparr>;
            s = s\<lparr>tss := (tss s)(i := t)\<rparr>;
            base = of_nat (tss_addr s + TSS_SIZE * i);
            limit = of_nat TSS_SIZE - 1;
            slot = 5 + i * 2;
            s = s\<lparr>gdt := (gdt s)(slot := tss_descriptor base limit)\<rparr>;
            s = s\<lparr>gdt := (gdt s)(slot + 1 := drop_bit 32 base AND 0xFFFFFFFF)\<rparr>;
            sel = SEL_TSS_BASE + of_nat i * 0x10
        in ltr p sel s)"

definition gdt_init :: "nat \<Rightarrow> 'a gdt_state_scheme \<Rightarrow> 'a gdt_state_scheme option" where
  "gdt_init p s =
     (let kcode = push_bit 43 1 OR push_bit 44 1 OR push_bit 47 1 OR push_bit 53 1;
          kdata = push_bit 44 1 OR push_bit 47 1 OR push_bit 41 1;
          ucode = kcode OR push_bit 45 3;
          udata = kdata OR push_bit 45 3;
          s = s\<lparr>gdt := (gdt s)(0 := 0)\<rparr>;
          s = s\<lparr>gdt := (gdt s)(1 := kcode)\<rparr>;
          s = s\<lparr>gdt := (gdt s)(2 := kdata)\<rparr>;
          s = s\<lparr>gdt := (gdt s)(3 := ucode)\<rparr>;
          s = s\<lparr>gdt := (gdt s)(4 := udata)\<rparr>;
          s = s\<lparr>gdt_ptr := (of_nat (8 * (5 + 2 * MAX_TSS_CPUS)) - 1, of_nat (gdt_addr s))\<rparr>;
          s = s\<lparr>gdtr := (gdtr s)(p := gdt_ptr s)\<rparr>;
          s = s\<lparr>ds_reg := (ds_reg s)(p := SEL_KDATA)\<rparr>;
          s = s\<lparr>cs_reg := (cs_reg s)(p := SEL_KCODE)\<rparr>
      in gdt_setup_cpu_tss p 0 s)"

definition gdt_get_ptr_address :: "'a gdt_state_scheme \<Rightarrow> u64" where
  "gdt_get_ptr_address s = of_nat (gdt_ptr_addr s)"

definition gdt_get_tss_rsp0 :: "int \<Rightarrow> 'a gdt_state_scheme \<Rightarrow> u64" where
  "gdt_get_tss_rsp0 cpu_idx s =
     (if cpu_idx < 0 \<or> cpu_idx \<ge> int MAX_TSS_CPUS then 0 else rsp0 (tss s (nat cpu_idx)))"

section \<open>Reading descriptors, as the processor does\<close>

definition desc_base :: "u64 \<Rightarrow> u64 \<Rightarrow> u64" where
  "desc_base lo hi = take_bit 24 (drop_bit 16 lo) OR push_bit 24 (take_bit 8 (drop_bit 56 lo)) OR push_bit 32 hi"

definition desc_limit :: "u64 \<Rightarrow> u64" where
  "desc_limit lo = take_bit 16 lo OR push_bit 16 (take_bit 4 (drop_bit 48 lo))"

definition desc_dpl :: "u64 \<Rightarrow> nat" where
  "desc_dpl lo = unat (take_bit 2 (drop_bit 45 lo))"

definition desc_type :: "u64 \<Rightarrow> nat" where
  "desc_type lo = unat (take_bit 4 (drop_bit 40 lo))"

lemma and_masks:
  "x AND 0xFFFF = take_bit 16 (x :: u64)" "x AND 0xFFFFFF = take_bit 24 x" "x AND 0xF = take_bit 4 x"
  "x AND 0xFF = take_bit 8 x" "x AND 0xFFFFFFFF = take_bit 32 x"
  by (simp_all add: take_bit_eq_mask mask_eq_exp_minus_1)

text \<open>The five fields of the first word do not overlap.\<close>

definition desc_word :: "u64 \<Rightarrow> u64 \<Rightarrow> u64 \<Rightarrow> u64 \<Rightarrow> u64 \<Rightarrow> u64" where
  "desc_word a b c l h = take_bit 16 a OR push_bit 16 (take_bit 24 b) OR push_bit 40 (take_bit 8 c) OR
     push_bit 48 (take_bit 4 l) OR push_bit 56 (take_bit 8 h)"

lemma desc_word_fields:
  "take_bit 16 (desc_word a b c l h) = take_bit 16 a"
  "take_bit 24 (drop_bit 16 (desc_word a b c l h)) = take_bit 24 b"
  "take_bit 8 (drop_bit 40 (desc_word a b c l h)) = take_bit 8 c"
  "take_bit 4 (drop_bit 48 (desc_word a b c l h)) = take_bit 4 l"
  "take_bit 8 (drop_bit 56 (desc_word a b c l h)) = take_bit 8 h"
  by (rule bit_word_eqI; auto simp: desc_word_def bit_simps)+

lemma tss_descriptor_word: "tss_descriptor base limit = desc_word limit base 0x89 (drop_bit 16 limit) (drop_bit 24 base)"
  by (simp add: tss_descriptor_def desc_word_def and_masks)

lemma tss_descriptor_base:
  "desc_base (tss_descriptor base limit) (drop_bit 32 base AND 0xFFFFFFFF) = base"
  unfolding desc_base_def tss_descriptor_word desc_word_fields and_masks
proof (rule bit_word_eqI)
  fix n assume "n < LENGTH(64)"
  then show "bit (take_bit 24 base OR push_bit 24 (take_bit 8 (drop_bit 24 base)) OR
      push_bit 32 (take_bit 32 (drop_bit 32 base))) n = bit base n"
    by (cases "n < 32") (auto simp: bit_simps)
qed

lemma tss_descriptor_limit: "desc_limit (tss_descriptor base limit) = take_bit 20 limit"
  unfolding desc_limit_def tss_descriptor_word desc_word_fields
  by (rule bit_word_eqI) (auto simp: bit_simps)

text \<open>The access byte of the descriptor: present, privilege 0, available task state segment.\<close>

lemma tss_descriptor_access: "take_bit 8 (drop_bit 40 (tss_descriptor base limit)) = 0x89"
  unfolding tss_descriptor_word desc_word_fields by simp

lemma access_dpl: "take_bit 2 (drop_bit 45 d) = take_bit 2 (drop_bit 5 (take_bit 8 (drop_bit 40 (d :: u64))))"
  by (rule bit_word_eqI) (auto simp: bit_simps)

lemma access_type: "take_bit 4 (drop_bit 40 d) = take_bit 4 (take_bit 8 (drop_bit 40 (d :: u64)))"
  by (rule bit_word_eqI) (auto simp: bit_simps)

lemma access_byte: "x AND 0x9F = take_bit 8 (x :: u64) AND 0x9F"
proof -
  have "take_bit 8 x AND 0x9F = x AND (0xFF AND 0x9F)" by (simp only: and_masks(4) [symmetric] and.assoc)
  then show ?thesis by simp
qed

lemma access_busy: "take_bit 8 (drop_bit 40 (d OR push_bit 41 1)) = take_bit 8 (drop_bit 40 (d :: u64)) OR push_bit 1 1"
proof (rule bit_word_eqI)
  fix n assume "n < LENGTH(64)"
  have "bit (push_bit 41 1 :: u64) (40 + n) = bit (push_bit 1 1 :: u64) n" if "n < 8"
    using that by (simp only: bit_push_bit_iff bit_1_iff possible_bit_word) auto
  then show "bit (take_bit 8 (drop_bit 40 (d OR push_bit 41 1))) n = bit (take_bit 8 (drop_bit 40 d) OR push_bit 1 1) n"
    by (simp only: bit_take_bit_iff bit_drop_bit_eq bit_or_iff comp_apply)
      (simp only: bit_push_bit_iff bit_1_iff possible_bit_word, auto)
qed

lemma busy_same_fields:
  "take_bit 16 (d OR push_bit 41 1 :: u64) = take_bit 16 d"
  "take_bit 24 (drop_bit 16 (d OR push_bit 41 1)) = take_bit 24 (drop_bit 16 d)"
  "take_bit 4 (drop_bit 48 (d OR push_bit 41 1)) = take_bit 4 (drop_bit 48 d)"
  "take_bit 8 (drop_bit 56 (d OR push_bit 41 1)) = take_bit 8 (drop_bit 56 d)"
  by (rule bit_word_eqI; auto simp: bit_simps)+

text \<open>A slot pair that holds the busy descriptor of the task state segment at \<open>a\<close>.\<close>

definition tss_loaded :: "'a gdt_state_scheme \<Rightarrow> nat \<Rightarrow> nat \<Rightarrow> bool" where
  "tss_loaded s p i \<longleftrightarrow>
     (let lo = gdt s (5 + 2 * i); hi = gdt s (6 + 2 * i)
      in desc_base lo hi = of_nat (tss_addr s + TSS_SIZE * i) \<and> desc_limit lo = of_nat TSS_SIZE - 1 \<and>
         desc_dpl lo = 0 \<and> desc_type lo = 0xB) \<and>
     unat (task_reg s p) = 8 * (5 + 2 * i) \<and>
     rsp0 (tss s i) = of_nat (kstack0_addr s + KSTACK0_SIZE * i + KSTACK0_SIZE)"

lemma busy_descriptor:
  fixes base :: u64
  defines "lo \<equiv> tss_descriptor base 103 OR push_bit 41 1"
  shows "desc_base lo (drop_bit 32 base AND 0xFFFFFFFF) = base" "desc_limit lo = 103" "desc_dpl lo = 0" "desc_type lo = 0xB"
proof -
  show "desc_base lo (drop_bit 32 base AND 0xFFFFFFFF) = base"
    using tss_descriptor_base [of base 103] unfolding lo_def desc_base_def busy_same_fields .
  show "desc_limit lo = 103"
    using tss_descriptor_limit [of base 103] unfolding lo_def desc_limit_def busy_same_fields by simp
  have a: "take_bit 8 (drop_bit 40 lo) = 0x8B"
    unfolding lo_def access_busy tss_descriptor_access by simp
  show "desc_dpl lo = 0" unfolding desc_dpl_def access_dpl [of lo] a by simp
  show "desc_type lo = 0xB" unfolding desc_type_def access_type [of lo] a by simp
qed

lemma gdt_setup_ok:
  assumes "i < MAX_TSS_CPUS"
  obtains u where "gdt_setup_cpu_tss p (int i) s = Some u" "tss_loaded u p i"
    "\<And>k. k \<noteq> 5 + 2 * i \<Longrightarrow> k \<noteq> 6 + 2 * i \<Longrightarrow> gdt u k = gdt s k" "\<And>j. j \<noteq> i \<Longrightarrow> tss u j = tss s j"
    "\<And>q. q \<noteq> p \<Longrightarrow> task_reg u q = task_reg s q" "tss_addr u = tss_addr s" "kstack0_addr u = kstack0_addr s"
    "gdtr u = gdtr s" "cs_reg u = cs_reg s" "ds_reg u = ds_reg s"
proof -
  define base :: u64 where "base = of_nat (tss_addr s + TSS_SIZE * i)"
  define lo where "lo = tss_descriptor base 103"
  define t where "t = zero_tss\<lparr>rsp0 := of_nat (kstack0_addr s + KSTACK0_SIZE * i + KSTACK0_SIZE), iomap_base := of_nat TSS_SIZE\<rparr>"
  define u where "u = s\<lparr>tss := (tss s)(i := t),
      gdt := (gdt s)(5 + 2 * i := lo OR push_bit 41 1, 6 + 2 * i := drop_bit 32 base AND 0xFFFFFFFF),
      task_reg := (task_reg s)(p := SEL_TSS_BASE + of_nat i * 0x10)\<rparr>"
  have "i = 0 \<or> i = 1 \<or> i = 2 \<or> i = 3" using assms by auto
  then have sel: "unat (SEL_TSS_BASE + of_nat i * 0x10) = 8 * (5 + 2 * i)" by (elim disjE) simp_all
  have "take_bit 8 (drop_bit 40 lo) = 0x89" unfolding lo_def by (rule tss_descriptor_access)
  then have ok: "drop_bit 40 lo AND 0x9F = 0x89" using access_byte [of "drop_bit 40 lo"] by simp
  have run: "gdt_setup_cpu_tss p (int i) s = Some u"
    using assms sel ok [unfolded lo_def base_def]
    by (simp add: gdt_setup_cpu_tss_def ltr_def Let_def u_def t_def base_def lo_def mult.commute)
      (simp add: fun_upd_twist)
  have "tss_loaded u p i"
    using busy_descriptor [of base] sel by (simp add: tss_loaded_def u_def lo_def base_def Let_def t_def)
  then show ?thesis by (intro that [OF run]) (simp_all add: u_def)
qed

section \<open>Properties\<close>

text \<open>C32. Every processor gets its own task state. \<open>gdt_init\<close> on the boot processor and then
  \<open>gdt_setup_cpu_tss\<close> for another index below 4 on another processor both succeed: neither \<open>ltr\<close> faults,
  each processor's task register selects a busy descriptor that decodes to its own task state
  segment, with its own 8 KB interrupt stack, the second call leaving the first processor's
  in place; the kernel segments have privilege 0 and the user segments privilege 3. An index of 4 or
  more changes nothing: such a processor has no task state.\<close>

theorem gdt_tss_per_processor:
  assumes "0 < j" "j < MAX_TSS_CPUS" "q \<noteq> p"
  shows "\<exists>t u. gdt_init p s = Some t \<and> gdt_setup_cpu_tss q (int j) t = Some u \<and>
    tss_loaded u p 0 \<and> tss_loaded u q j \<and> rsp0 (tss u j) - rsp0 (tss u 0) = of_nat (KSTACK0_SIZE * j) \<and>
    map (\<lambda>k. desc_dpl (gdt u k)) [1, 2, 3, 4] = [0, 0, 3, 3] \<and> cs_reg u p = SEL_KCODE \<and> ds_reg u p = SEL_KDATA \<and>
    gdtr u p = (103, of_nat (gdt_addr s)) \<and>
    (MAX_TSS_CPUS \<le> k \<longrightarrow> gdt_setup_cpu_tss q (int k) t = Some t \<and> gdt_get_tss_rsp0 (int k) t = 0)"
proof -
  define s1 where "s1 = s\<lparr>gdt := (gdt s)(0 := 0, 1 := 0x20980000000000, 2 := 0x920000000000, 3 := 0x20F80000000000,
      4 := 0xF20000000000), gdt_ptr := (103, of_nat (gdt_addr s)), gdtr := (gdtr s)(p := (103, of_nat (gdt_addr s))),
      ds_reg := (ds_reg s)(p := SEL_KDATA), cs_reg := (cs_reg s)(p := SEL_KCODE)\<rparr>"
  have init: "gdt_init p s = gdt_setup_cpu_tss p (int 0) s1" by (simp add: gdt_init_def Let_def s1_def)
  obtain t where t: "gdt_setup_cpu_tss p (int 0) s1 = Some t" "tss_loaded t p 0"
      "\<And>k. k \<noteq> 5 \<Longrightarrow> k \<noteq> 6 \<Longrightarrow> gdt t k = gdt s1 k" "tss_addr t = tss_addr s1" "kstack0_addr t = kstack0_addr s1"
      "gdtr t = gdtr s1" "cs_reg t = cs_reg s1" "ds_reg t = ds_reg s1"
    by (rule gdt_setup_ok [of 0 p s1]) simp_all
  obtain u where u: "gdt_setup_cpu_tss q (int j) t = Some u" "tss_loaded u q j"
      "\<And>k. k \<noteq> 5 + 2 * j \<Longrightarrow> k \<noteq> 6 + 2 * j \<Longrightarrow> gdt u k = gdt t k" "\<And>i. i \<noteq> j \<Longrightarrow> tss u i = tss t i"
      "\<And>r. r \<noteq> q \<Longrightarrow> task_reg u r = task_reg t r" "tss_addr u = tss_addr t" "kstack0_addr u = kstack0_addr t"
      "gdtr u = gdtr t" "cs_reg u = cs_reg t" "ds_reg u = ds_reg t"
    by (rule gdt_setup_ok [OF assms(2), of q t]) simp_all
  have first: "tss_loaded u p 0"
    using t(2) u(3) [of 5] u(3) [of 6] u(4) [of 0] u(5) [of p] u(6,7) assms by (simp add: tss_loaded_def)
  have "gdt u k = gdt s1 k" if "k \<le> 4" for k using t(3) [of k] u(3) [of k] that by simp
  then have "map (\<lambda>k. desc_dpl (gdt u k)) [1, 2, 3, 4] = [0, 0, 3, 3]" by (simp add: s1_def desc_dpl_def)
  moreover have "rsp0 (tss u j) - rsp0 (tss u 0) = of_nat (KSTACK0_SIZE * j)"
    using first u(2) by (simp add: tss_loaded_def)
  moreover have "gdt_setup_cpu_tss q (int k) t = Some t \<and> gdt_get_tss_rsp0 (int k) t = 0" if "MAX_TSS_CPUS \<le> k"
    using that by (simp add: gdt_setup_cpu_tss_def gdt_get_tss_rsp0_def)
  ultimately show ?thesis using init t(1,6,7,8) u(1,2,8,9,10) first by (simp add: s1_def)
qed

definition demo_gdt :: gdt_state where
  "demo_gdt = apic.extend demo_apic \<lparr>tss = (\<lambda>_. zero_tss), tss_addr = 0x120000, kstack0_addr = 0x118000, gdt = (\<lambda>_. 0),
     gdt_addr = 0x121000, gdt_ptr = (0, 0), gdt_ptr_addr = 0x121100, gdtr = (\<lambda>_. (0, 0)), cs_reg = (\<lambda>_. 0), ds_reg = (\<lambda>_. 0),
     task_reg = (\<lambda>_. 0)\<rparr>"

theorem gdt_tss_per_processor_witness:
  "\<exists>t u. gdt_init 0 demo_gdt = Some t \<and> gdt_setup_cpu_tss 1 1 t = Some u \<and> tss_loaded u 0 0 \<and> tss_loaded u 1 1 \<and>
     gdt_setup_cpu_tss 5 5 t = Some t"
  using gdt_tss_per_processor [of 1 1 0 demo_gdt 5] gdt_setup_cpu_tss_def [of 5 5] by auto

end
