(* ===== verification/Idt.thy ===== *)
theory Idt
  imports Gdt
begin

text \<open>
  Interrupts: the descriptor table and the common handler (\<open>src/idt.c\<close>, \<open>src/idt.h\<close>), and the
  floating-point set-up every processor makes first (\<open>src/fpu.c\<close>). The saved registers of the
  interrupted code are a frame in memory: field number \<open>i\<close> of \<open>interrupt_frame_t\<close> is the 64-bit
  word at \<open>f + 8 * i\<close>. An exception prints a report and stops the processor (\<open>Halted\<close>); every other
  vector returns. The addresses of the entry stubs in \<open>isr.s\<close> and the byte the keyboard
  controller holds are parameters.
\<close>

record idt_entry =
  offset_low :: u16
  selector :: u16
  ist :: u8
  type_attr :: u8
  offset_mid :: u16
  offset_high :: u32
  idt_zero :: u32

record idt_state = gdt_state +
  idt :: "nat \<Rightarrow> idt_entry"
  idt_addr :: nat
  idt_ptr :: "u16 \<times> u64"
  idtr :: "nat \<Rightarrow> u16 \<times> u64"
  call_count :: u32
  shown :: bool
  cr0 :: "nat \<Rightarrow> u64"
  cr4 :: "nat \<Rightarrow> u64"
  x87_reset :: "nat \<Rightarrow> bool"

datatype 's outcome = Halted 's | Returned 's

section \<open>The floating-point unit\<close>

definition fpu_init :: "nat \<Rightarrow> 'a idt_state_scheme \<Rightarrow> 'a idt_state_scheme" where
  "fpu_init p s =
     (let c0 = cr0 s p;
          c0 = c0 AND NOT (push_bit 2 1);
          c0 = c0 OR push_bit 1 1;
          s = s\<lparr>cr0 := (cr0 s)(p := c0)\<rparr>;
          c4 = cr4 s p;
          c4 = c4 OR (push_bit 9 1 OR push_bit 10 1);
          s = s\<lparr>cr4 := (cr4 s)(p := c4)\<rparr>
      in s\<lparr>x87_reset := (x87_reset s)(p := True)\<rparr>)"

section \<open>The descriptor table\<close>

definition idt_set_gate :: "u8 \<Rightarrow> u64 \<Rightarrow> u8 \<Rightarrow> u8 \<Rightarrow> 'a idt_state_scheme \<Rightarrow> 'a idt_state_scheme" where
  "idt_set_gate vector handler ist_idx dpl s =
     s\<lparr>idt := (idt s)(unat vector :=
        \<lparr>offset_low = ucast (handler AND 0xFFFF), selector = 0x08, ist = ist_idx,
         type_attr = 0x80 OR push_bit 5 (dpl AND 3) OR 0x0E,
         offset_mid = ucast (drop_bit 16 handler AND 0xFFFF),
         offset_high = ucast (drop_bit 32 handler AND 0xFFFFFFFF), idt_zero = 0\<rparr>)\<rparr>"

definition idt_init :: "nat \<Rightarrow> (nat \<Rightarrow> u64) \<Rightarrow> 'a idt_state_scheme \<Rightarrow> 'a idt_state_scheme" where
  "idt_init p isr s =
     (let s = s\<lparr>idt_ptr := (of_nat (256 * 16) - 1, of_nat (idt_addr s))\<rparr>;
          s = foldl (\<lambda>s v. idt_set_gate (of_nat v) (isr v) 0 0 s) s [0..<34];
          s = idt_set_gate 128 (isr 128) 0 3 s
      in s\<lparr>idtr := (idtr s)(p := idt_ptr s)\<rparr>)"

definition idt_load_current_cpu :: "nat \<Rightarrow> 'a idt_state_scheme \<Rightarrow> 'a idt_state_scheme" where
  "idt_load_current_cpu p s = s\<lparr>idtr := (idtr s)(p := idt_ptr s)\<rparr>"

section \<open>The handler\<close>

definition exception_names :: "string list" where
  "exception_names =
     [''Divide Error'', ''Debug'', ''NMI'', ''Breakpoint'',
      ''Overflow'', ''Bound Range Exceeded'', ''Invalid Opcode'', ''Device Not Available'',
      ''Double Fault'', ''Coprocessor Segment Overrun'', ''Invalid TSS'', ''Segment Not Present'',
      ''Stack-Segment Fault'', ''General Protection Fault'', ''Page Fault'', ''Reserved'',
      ''x87 FPU Error'', ''Alignment Check'', ''Machine Check'', ''SIMD FP Exception'',
      ''Virtualization Exception'', ''Control Protection'', ''Reserved'', ''Reserved'',
      ''Reserved'', ''Reserved'', ''Reserved'', ''Reserved'',
      ''Hypervisor Injection'', ''VMM Communication'', ''Security Exception'', ''Reserved'']"

definition exception_name :: "u64 \<Rightarrow> string" where
  "exception_name vector = (if vector < 32 then exception_names ! unat vector else ''Unknown'')"

definition frame_field :: "nat \<Rightarrow> memory \<Rightarrow> nat \<Rightarrow> u64" where
  "frame_field i m f = read64 m (f + 8 * i)"

abbreviation (input) fr_rdi :: "memory \<Rightarrow> nat \<Rightarrow> u64" where "fr_rdi \<equiv> frame_field 9"
abbreviation (input) fr_rax :: "memory \<Rightarrow> nat \<Rightarrow> u64" where "fr_rax \<equiv> frame_field 14"
abbreviation (input) fr_vector :: "memory \<Rightarrow> nat \<Rightarrow> u64" where "fr_vector \<equiv> frame_field 15"
abbreviation (input) fr_error_code :: "memory \<Rightarrow> nat \<Rightarrow> u64" where "fr_error_code \<equiv> frame_field 16"
abbreviation (input) fr_rip :: "memory \<Rightarrow> nat \<Rightarrow> u64" where "fr_rip \<equiv> frame_field 17"
abbreviation (input) fr_cs :: "memory \<Rightarrow> nat \<Rightarrow> u64" where "fr_cs \<equiv> frame_field 18"
abbreviation (input) fr_rflags :: "memory \<Rightarrow> nat \<Rightarrow> u64" where "fr_rflags \<equiv> frame_field 19"

definition exception_halt :: "nat \<Rightarrow> nat \<Rightarrow> 'a idt_state_scheme \<Rightarrow> 'a idt_state_scheme" where
  "exception_halt p f s =
     (let s = kprint ([nl] @ ''*** EXCEPTION: '') s;
          s = kprint (exception_name (fr_vector (mem s) f)) s;
          s = kprint '' (vector '' s;
          s = kprint_hex64 (fr_vector (mem s) f) s;
          s = kprint '', error_code '' s;
          s = kprint_hex64 (fr_error_code (mem s) f) s;
          s = kprint ('')'' @ [nl] @ ''RIP='') s;
          s = kprint_hex64 (fr_rip (mem s) f) s;
          s = kprint '' RSP-frame CS='' s;
          s = kprint_hex64 (fr_cs (mem s) f) s;
          s = kprint '' RFLAGS='' s;
          s = kprint_hex64 (fr_rflags (mem s) f) s;
          s = kprint ([nl] @ ''Halting kernel (no recovery implemented).'' @ [nl]) s;
          s = kprint ''[diag] frame ptr f = '' s;
          s = kprint_hex64 (of_nat f) s;
          s = kprint [nl] s;
          s = foldl (\<lambda>s i.
                let s = kprint ''[diag] f['' s;
                    s = kprint_hex64 (of_nat i) s;
                    s = kprint ''] = '' s;
                    s = kprint_hex64 (frame_field i (mem s) f) s
                in kprint [nl] s) s [0..<24]
      in cli p s)"

definition syscall_print :: "nat \<Rightarrow> 'a idt_state_scheme \<Rightarrow> 'a idt_state_scheme" where
  "syscall_print f s =
     (let from_ring3 = (fr_cs (mem s) f AND 3 = 3)
      in if fr_rax (mem s) f = 1
         then
           let c = char_of (unat (fr_rdi (mem s) f AND 0xFF));
               s = s\<lparr>call_count := call_count s + 1\<rparr>;
               s = (if call_count s mod 300000 = 1
                    then kprint ('')'' @ [nl]) (kprint_hex64 (ucast (call_count s))
                           (kprint '' (syscall #'' (kprint [c, CHR 0x00] (kprint ''[ring3] '' s))))
                    else s)
           in if from_ring3 \<and> \<not> shown s
              then kprint (''[syscall] confirmed genuine CPL3 caller (CS&3==3)'' @ [nl]) (s\<lparr>shown := True\<rparr>)
              else s
         else s)"

definition interrupt_dispatch :: "nat \<Rightarrow> u8 \<Rightarrow> nat \<Rightarrow> 'a idt_state_scheme \<Rightarrow> 'a idt_state_scheme outcome" where
  "interrupt_dispatch p kbd_data f s =
     (let vector = fr_vector (mem s) f
      in if vector < 32 then Halted (exception_halt p f s)
         else
           let s = (if vector = 32 then sched64_timer_tick p (lapic_send_eoi p s) else s);
               s = (if vector = 33 then lapic_send_eoi p (keyboard_handle_irq kbd_data s) else s);
               s = (if vector = 128 then syscall_print f s else s)
           in Returned s)"

section \<open>Reading gates, as the processor does\<close>

definition zero_gate :: idt_entry where
  "zero_gate = \<lparr>offset_low = 0, selector = 0, ist = 0, type_attr = 0, offset_mid = 0, offset_high = 0, idt_zero = 0\<rparr>"

definition gate_offset :: "idt_entry \<Rightarrow> u64" where
  "gate_offset e = ucast (offset_low e) OR push_bit 16 (ucast (offset_mid e)) OR push_bit 32 (ucast (offset_high e))"

definition gate_present :: "idt_entry \<Rightarrow> bool" where "gate_present e \<longleftrightarrow> bit (type_attr e) 7"
definition gate_dpl :: "idt_entry \<Rightarrow> nat" where "gate_dpl e = unat (take_bit 2 (drop_bit 5 (type_attr e)))"
definition gate_type :: "idt_entry \<Rightarrow> nat" where "gate_type e = unat (take_bit 4 (type_attr e))"

definition gate_entry :: "u64 \<Rightarrow> u8 \<Rightarrow> u8 \<Rightarrow> idt_entry" where
  "gate_entry handler ist_idx dpl =
     \<lparr>offset_low = ucast (handler AND 0xFFFF), selector = 0x08, ist = ist_idx,
      type_attr = 0x80 OR push_bit 5 (dpl AND 3) OR 0x0E,
      offset_mid = ucast (drop_bit 16 handler AND 0xFFFF),
      offset_high = ucast (drop_bit 32 handler AND 0xFFFFFFFF), idt_zero = 0\<rparr>"

lemma gate_entry_offset: "gate_offset (gate_entry h i d) = h"
proof (rule bit_word_eqI)
  fix n assume "n < LENGTH(64)"
  then show "bit (gate_offset (gate_entry h i d)) n = bit h n"
    unfolding gate_offset_def gate_entry_def and_masks
    by (cases "n < 16"; cases "n < 32") (auto simp: bit_simps)
qed

lemma gate_entry_kernel:
  "gate_present (gate_entry h i 0)" "gate_dpl (gate_entry h i 0) = 0" "gate_type (gate_entry h i 0) = 0xE"
  by (simp_all add: gate_present_def gate_dpl_def gate_type_def gate_entry_def)

lemma gate_entry_user:
  "gate_present (gate_entry h i 3)" "gate_dpl (gate_entry h i 3) = 3" "gate_type (gate_entry h i 3) = 0xE"
  by (simp_all add: gate_present_def gate_dpl_def gate_type_def gate_entry_def)

lemma idt_set_gate_eq: "idt_set_gate v h i d s = s\<lparr>idt := (idt s)(unat v := gate_entry h i d)\<rparr>"
  by (simp add: idt_set_gate_def gate_entry_def)

lemma set_gates:
  "n \<le> 256 \<Longrightarrow> foldl (\<lambda>s v. idt_set_gate (of_nat v) (isr v) 0 0 s) s [0..<n] =
    s\<lparr>idt := (\<lambda>v. if v < n then gate_entry (isr v) 0 0 else idt s v)\<rparr>"
proof (induction n)
  case (Suc n)
  then have "unat (of_nat n :: u8) = n" by (simp add: unat_of_nat)
  then show ?case using Suc by (auto simp: idt_set_gate_eq fun_eq_iff)
qed simp

lemma idt_init_eq:
  "idt_init p isr s = s\<lparr>idt_ptr := (4095, of_nat (idt_addr s)), idtr := (idtr s)(p := (4095, of_nat (idt_addr s))),
     idt := (\<lambda>v. if v = 128 then gate_entry (isr 128) 0 3 else if v < 34 then gate_entry (isr v) 0 0 else idt s v)\<rparr>"
proof -
  have "(34 :: nat) \<le> 256" by simp
  note g = set_gates [OF this]
  show ?thesis unfolding idt_init_def Let_def g by (auto simp: idt_set_gate_eq fun_eq_iff)
qed

section \<open>Properties\<close>

text \<open>C33. User code can enter the kernel through one gate only. \<open>idt_init\<close>, on the zeroed static
  table, makes vectors 0 to 33 and 128 present, each an interrupt gate into the kernel code segment that
  decodes to the address of its own stub; among them only vector 128, the system call, can be
  raised by user code (privilege 3). \<open>idt_load_current_cpu\<close> gives another processor the same table.\<close>

theorem idt_only_syscall_from_user:
  fixes s :: "'a idt_state_scheme" and p :: nat and isr :: "nat \<Rightarrow> u64"
  assumes "idt s = (\<lambda>_. zero_gate)"
  defines "u \<equiv> idt_init p isr s"
  shows "(\<forall>v. gate_present (idt u v) \<longleftrightarrow> v < 34 \<or> v = 128) \<and>
    (\<forall>v. gate_present (idt u v) \<longrightarrow> gate_offset (idt u v) = isr v \<and> selector (idt u v) = SEL_KCODE \<and>
       gate_type (idt u v) = 0xE \<and> ist (idt u v) = 0) \<and>
    (\<forall>v. gate_present (idt u v) \<and> gate_dpl (idt u v) = 3 \<longleftrightarrow> v = 128) \<and>
    idtr u p = (4095, of_nat (idt_addr s)) \<and> idtr (idt_load_current_cpu q u) q = idtr u p"
proof -
  have z: "\<not> gate_present zero_gate" by (simp add: gate_present_def zero_gate_def)
  have "selector (gate_entry h i d) = SEL_KCODE" "ist (gate_entry h i d) = i" for h i d
    by (simp_all add: gate_entry_def)
  then show ?thesis
    unfolding u_def idt_init_eq
    by (simp add: assms(1) z gate_entry_offset gate_entry_kernel gate_entry_user idt_load_current_cpu_def)
qed

definition demo_idt :: idt_state where
  "demo_idt = gdt_state.extend demo_gdt \<lparr>idt = (\<lambda>_. zero_gate), idt_addr = 0x122000, idt_ptr = (0, 0), idtr = (\<lambda>_. (0, 0)),
     call_count = 0, shown = False, cr0 = (\<lambda>_. 0x80000011), cr4 = (\<lambda>_. 0x20), x87_reset = (\<lambda>_. False)\<rparr>"

theorem idt_only_syscall_from_user_witness:
  "gate_offset (idt (idt_init 0 (\<lambda>v. 0x100000 + 16 * of_nat v) demo_idt) 14) = 0x1000E0 \<and>
   \<not> gate_present (idt (idt_init 0 (\<lambda>v. 0x100000 + 16 * of_nat v) demo_idt) 40)"
proof -
  have "idt demo_idt = (\<lambda>_. zero_gate)" by (simp add: demo_idt_def gdt_state.defs)
  from idt_only_syscall_from_user [OF this, of 0 "\<lambda>v. 0x100000 + 16 * of_nat v" 1]
  show ?thesis by simp
qed

section \<open>The exception report\<close>

lemmas console_steps = console_step_before_hex console_step_before [rotated]

definition dump_line :: "memory \<Rightarrow> nat \<Rightarrow> nat \<Rightarrow> string" where
  "dump_line m f i = ''[diag] f['' @ hex64_buf (of_nat i) @ ''] = '' @ hex64_buf (frame_field i m f) @ [nl]"

definition exception_report :: "memory \<Rightarrow> nat \<Rightarrow> string" where
  "exception_report m f =
     ([nl] @ ''*** EXCEPTION: '') @ exception_name (fr_vector m f) @ '' (vector '' @ hex64_buf (fr_vector m f) @
     '', error_code '' @ hex64_buf (fr_error_code m f) @ ('')'' @ [nl] @ ''RIP='') @ hex64_buf (fr_rip m f) @
     '' RSP-frame CS='' @ hex64_buf (fr_cs m f) @ '' RFLAGS='' @ hex64_buf (fr_rflags m f) @
     ([nl] @ ''Halting kernel (no recovery implemented).'' @ [nl]) @ ''[diag] frame ptr f = '' @ hex64_buf (of_nat f) @ [nl] @
     concat (map (dump_line m f) [0..<24])"

lemma exception_name_plain: "CHR 0x00 \<notin> set (exception_name v)"
proof (cases "v < 32")
  case True
  have "list_all (\<lambda>t. CHR 0x00 \<notin> set t) exception_names" "length exception_names = 32"
    by (simp_all add: exception_names_def)
  moreover have "unat v < 32" using True by (simp add: word_less_nat_alt)
  ultimately show ?thesis using True by (simp add: exception_name_def list_all_length)
qed (simp add: exception_name_def)

lemma dump_lines:
  "mem s = m \<Longrightarrow> console_step s (concat (map (dump_line m f) is))
     (foldl (\<lambda>s i. kprint [nl] (kprint_hex64 (frame_field i (mem s) f)
        (kprint ''] = '' (kprint_hex64 (of_nat i) (kprint ''[diag] f['' s))))) s is)"
proof (induction "is" arbitrary: s)
  case (Cons i "is")
  have "console_step s (dump_line m f i @ concat (map (dump_line m f) is))
     (foldl (\<lambda>s i. kprint [nl] (kprint_hex64 (frame_field i (mem s) f)
        (kprint ''] = '' (kprint_hex64 (of_nat i) (kprint ''[diag] f['' s))))) s (i # is))"
    unfolding dump_line_def append_assoc foldl_Cons kprint_mem kprint_hex64_mem Cons.prems
    by (rule console_steps)+ (rule Cons.IH [unfolded dump_line_def], simp_all add: Cons.prems)
  then show ?case by simp
qed (simp add: console_step_refl)

lemma exception_report_printed:
  "\<exists>u. console_step s (exception_report (mem s) f) u \<and> exception_halt p f s = cli p u"
  unfolding exception_halt_def Let_def kprint_mem kprint_hex64_mem
  apply (rule exI, rule conjI [rotated], rule refl)
  unfolding exception_report_def
  apply (rule console_steps)+
  apply (rule dump_lines)
  apply (simp_all add: exception_name_plain)
  done

text \<open>Exceptions stop the machine, and nothing else does. For a vector below 32 the handler
  sends the full report (name, vector, error code, instruction pointer, code segment, flags and the 24 words
  of the frame) and halts this processor with interrupts off, memory and the scheduler's variables as
  they were; for every other vector it returns.\<close>

lemma interrupt_dispatch_halts_on_exceptions:
  "if fr_vector (mem s) f < 32
   then \<exists>u. interrupt_dispatch p k f s = Halted u \<and> uart_log u = uart_log s @ serial (exception_report (mem s) f) \<and>
     iflag u = (iflag s)(p := False) \<and> mem u = mem s \<and> current u = current s \<and> threads64 u = threads64 s
   else \<exists>u. interrupt_dispatch p k f s = Returned u"
proof (cases "fr_vector (mem s) f < 32")
  case True
  obtain u where u: "console_step s (exception_report (mem s) f) u" "exception_halt p f s = cli p u"
    using exception_report_printed [of s f p] by blast
  have "uart_log u = uart_log s @ serial (exception_report (mem s) f)" using u(1) by (simp add: console_step_def)
  moreover have "iflag u = iflag s" "mem u = mem s" "current u = current s" "threads64 u = threads64 s"
    using u(1) unfolding console_step_def by auto
  ultimately show ?thesis using True u(2) by (simp add: interrupt_dispatch_def Let_def cli_def)
qed (simp add: interrupt_dispatch_def Let_def)

section \<open>Timer interrupts\<close>

text \<open>The stub of a vector pushes its number into the frame (\<open>src/isr.s\<close>, which theory \<open>Isr\<close> follows in full).\<close>

definition isr_push :: "u64 \<Rightarrow> nat \<Rightarrow> 'a idt_state_scheme \<Rightarrow> 'a idt_state_scheme" where
  "isr_push vector f s = s\<lparr>mem := write64 (mem s) (f + 8 * 15) vector\<rparr>"

fun after :: "'s outcome \<Rightarrow> 's" where
  "after (Halted s) = s"
| "after (Returned s) = s"

definition timer_irq :: "nat \<Rightarrow> nat \<Rightarrow> 'a idt_state_scheme \<Rightarrow> 'a idt_state_scheme" where
  "timer_irq p f s = after (interrupt_dispatch p 0 f (isr_push 32 f s))"

lemma reschedule_apic [simp, frame_simps]:
  "mmio_log (sched64_reschedule p s) = mmio_log s" "lapic_base_pa (sched64_reschedule p s) = lapic_base_pa s"
proof -
  have l: "mmio_log (NKern_LockForSwitch p s) = mmio_log s" "lapic_base_pa (NKern_LockForSwitch p s) = lapic_base_pa s"
    for s :: "'a apic_scheme" using NKern_LockForSwitch_frame [of p s] by auto
  have u: "mmio_log (NKern_UnlockAfterSwitch p s) = mmio_log s" "lapic_base_pa (NKern_UnlockAfterSwitch p s) = lapic_base_pa s"
    for s :: "'a apic_scheme" using NKern_UnlockAfterSwitch_frame [of p s] by auto
  have c: "mmio_log (context_switch64 p prev r s) = mmio_log s" "lapic_base_pa (context_switch64 p prev r s) = lapic_base_pa s"
    for prev r and s :: "'a apic_scheme" by (simp_all add: context_switch64_def Let_def split: option.splits)
  show "mmio_log (sched64_reschedule p s) = mmio_log s" "lapic_base_pa (sched64_reschedule p s) = lapic_base_pa s"
    by (simp_all add: sched64_reschedule_def Let_def l u c split: option.splits)
qed

lemma timer_irq_eq: "timer_irq p f s = sched64_timer_tick p (lapic_send_eoi p (isr_push 32 f s))"
  by (simp add: timer_irq_def interrupt_dispatch_def isr_push_def frame_field_def Let_def)

text \<open>Before the tick: what the stub and the acknowledgement leave alone.\<close>

lemma eoi_fields:
  fixes s :: "'a idt_state_scheme" and p f :: nat and v :: u64
  defines "u \<equiv> lapic_send_eoi p (isr_push v f s)"
  shows "threads64 u = threads64 s" "current u = current s" "ready_bitmap u = ready_bitmap s" "ready_queue u = ready_queue s"
    "thread64_count u = thread64_count s" "preempt_disable_count u = preempt_disable_count s"
    "lapic_base_pa u = lapic_base_pa s" "mmio_log u = mmio_log s @ [(p, lapic_base_pa s + LAPIC_EOI, 0)]"
  using mmio_write_frame [of p "lapic_base_pa s + LAPIC_EOI" 0 "isr_push v f s"]
  by (auto simp: u_def lapic_send_eoi_def lapic_write_def isr_push_def)

text \<open>The thread at the head of the queue has \<open>j\<close> ticks left; \<open>l\<close> is the register log so far.\<close>

definition in_slice :: "nat \<Rightarrow> nat \<Rightarrow> (nat \<Rightarrow> nat list) \<Rightarrow> nat \<Rightarrow> u64 \<Rightarrow> (nat \<times> u64 \<times> u32) list \<Rightarrow> 'a apic_scheme \<Rightarrow> bool" where
  "in_slice p q R j b l s \<longleftrightarrow> sched_rep s R \<and> current s (get_cpu_index p) = Some (hd (R q)) \<and>
     (\<forall>x \<in> set (R q). time_slice (threads64 s x) = (if x = hd (R q) then of_nat j else 5)) \<and>
     \<not> NKern_IsLocked p s \<and> lapic_base_pa s = b \<and> mmio_log s = l"

lemma timer_irq_early:
  fixes s :: "'a idt_state_scheme"
  assumes "in_slice p q R (Suc n) b l s" "R q \<noteq> []" "0 < n" "n < 5"
  shows "in_slice p q R n b (l @ [(p, b + LAPIC_EOI, 0)]) (timer_irq p f s)"
proof -
  let ?u = "lapic_send_eoi p (isr_push 32 f s)" and ?t = "hd (R q)"
  have "?t \<in> set (R q)" using assms(2) by simp
  then have "time_slice (threads64 ?u ?t) = of_nat (Suc n)" "current ?u (get_cpu_index p) = Some ?t"
    using assms(1) by (simp_all add: in_slice_def eoi_fields del: of_nat_Suc)
  then have t: "timer_irq p f s = set_thread ?t (\<lambda>th. th\<lparr>time_slice := of_nat n\<rparr>) ?u"
    unfolding timer_irq_eq using assms(3,4) by (intro tick_early)
  have "sched_rep (timer_irq p f s) R"
    by (rule sched_rep_cong [of s]) (use assms(1) in \<open>auto simp: t eoi_fields in_slice_def\<close>)
  then show ?thesis
    using assms(1) by (auto simp: in_slice_def t eoi_fields NKern_IsLocked_def)
qed

lemma timer_irq_last:
  fixes s :: "'a idt_state_scheme"
  assumes "in_slice p q R 1 b l s" "top_queue R q"
  shows "in_slice p q (R(q := rotate1 (R q))) 5 b (l @ [(p, b + LAPIC_EOI, 0)]) (timer_irq p f s)"
proof -
  let ?u = "lapic_send_eoi p (isr_push 32 f s)"
  obtain t xs where R: "R q = t # xs" using assms(2) by (cases "R q") (auto simp: top_queue_def)
  let ?w = "set_thread t (\<lambda>th. th\<lparr>time_slice := 5\<rparr>) ?u"
  have cur: "current ?u (get_cpu_index p) = Some t" "time_slice (threads64 ?u t) = 1"
    using assms(1) R by (simp_all add: in_slice_def eoi_fields)
  have unl: "\<not> NKern_IsLocked p ?w" using assms(1) by (simp add: in_slice_def NKern_IsLocked_def eoi_fields)
  have irq: "timer_irq p f s = sched64_reschedule p ?w"
    using tick_last [OF cur] unl by (simp add: timer_irq_eq Let_def)
  have rep: "sched_rep ?w R" by (rule sched_rep_cong [of s]) (use assms(1) in \<open>auto simp: eoi_fields in_slice_def\<close>)
  have "current ?w (get_cpu_index p) = Some t" using cur by simp
  note rot = rr64.resched_rotate [OF rep assms(2) R this]
  have "time_slice (threads64 ?w x) = 5" if "x \<in> set (R q)" for x
    using assms(1) that R by (auto simp: in_slice_def eoi_fields)
  then show ?thesis
    using rot assms(1) unl unfolding in_slice_def irq
    by (simp add: R reschedule_time_slice reschedule_count NKern_IsLocked_def eoi_fields)
qed

lemma timer_irqs_in_slice:
  fixes s :: "'a idt_state_scheme"
  assumes "in_slice p q R 5 b l s" "R q \<noteq> []" "n < 5"
  shows "in_slice p q R (5 - n) b (l @ replicate n (p, b + LAPIC_EOI, 0)) ((timer_irq p f ^^ n) s)"
  using assms(3)
proof (induction n)
  case (Suc n)
  have "5 - n = Suc (5 - Suc n)" "0 < 5 - Suc n" "5 - Suc n < 5" using Suc.prems by simp_all
  then have "in_slice p q R (5 - Suc n) b ((l @ replicate n (p, b + LAPIC_EOI, 0)) @ [(p, b + LAPIC_EOI, 0)])
      (timer_irq p f ((timer_irq p f ^^ n) s))"
    using Suc by (intro timer_irq_early assms(2)) simp_all
  then show ?case by (simp add: replicate_append_same)
qed (use assms in simp)

lemma timer_irqs_slice:
  fixes s :: "'a idt_state_scheme"
  assumes "in_slice p q R 5 b l s" "top_queue R q"
  shows "in_slice p q (R(q := rotate1 (R q))) 5 b (l @ replicate 5 (p, b + LAPIC_EOI, 0)) ((timer_irq p f ^^ 5) s)"
proof -
  have ne: "R q \<noteq> []" using assms(2) by (simp add: top_queue_def)
  have "in_slice p q R 1 b (l @ replicate 4 (p, b + LAPIC_EOI, 0)) ((timer_irq p f ^^ 4) s)"
    using timer_irqs_in_slice [OF assms(1) ne, of 4 f] by simp
  from timer_irq_last [OF this assms(2), of f] show ?thesis by (simp add: eval_nat_numeral)
qed

lemma timer_irqs_slices:
  fixes s :: "'a idt_state_scheme"
  assumes "in_slice p q R 5 b l s" "top_queue R q"
  shows "in_slice p q (R(q := rotate k (R q))) 5 b (l @ replicate (5 * k) (p, b + LAPIC_EOI, 0)) ((timer_irq p f ^^ (5 * k)) s)"
proof (induction k)
  case (Suc k)
  have top: "top_queue (R(q := rotate k (R q))) q" using assms(2) by (auto simp: top_queue_def)
  have r: "replicate (5 * Suc k) x = replicate (5 * k) x @ replicate 5 x" for x :: "nat \<times> u64 \<times> u32"
    by (simp only: mult_Suc_right add.commute [of 5] replicate_add)
  have i: "(timer_irq p f ^^ (5 * Suc k)) s = (timer_irq p f ^^ 5) ((timer_irq p f ^^ (5 * k)) s)"
    by (simp only: mult_Suc_right funpow_add comp_apply)
  have upd: "(R(q := rotate k (R q)))(q := rotate1 ((R(q := rotate k (R q))) q)) = R(q := rotate (Suc k) (R q))" by simp
  show ?case using timer_irqs_slice [OF Suc top, of f] unfolding r i upd append_assoc .
qed (use assms in simp)

text \<open>C35. Hardware timer interrupts preempt. Each interrupt 32, through the stub and the common handler,
  acknowledges the local controller exactly once and writes no other register; after
  \<open>5 * k\<close> of them, outside critical sections, thread \<open>k mod n\<close> of the \<open>n\<close> highest-priority threads runs.\<close>

theorem timer_interrupts_preempt:
  fixes s :: "'a idt_state_scheme"
  assumes "sched_rep s R" "top_queue R q" "current s (get_cpu_index p) = Some (hd (R q))"
    and "\<forall>x \<in> set (R q). time_slice (threads64 s x) = 5" "\<not> NKern_IsLocked p s"
  shows "current ((timer_irq p f ^^ (5 * k)) s) (get_cpu_index p) = Some (R q ! (k mod length (R q))) \<and>
    mmio_log ((timer_irq p f ^^ (5 * k)) s) = mmio_log s @ replicate (5 * k) (p, lapic_base_pa s + LAPIC_EOI, 0)"
proof -
  have "in_slice p q R 5 (lapic_base_pa s) (mmio_log s) s" using assms by (simp add: in_slice_def)
  from timer_irqs_slices [OF this assms(2), of k f] hd_rotate_conv_nth [of "R q" k] assms(2)
  show ?thesis by (simp add: in_slice_def top_queue_def)
qed

lemma demo_idt_threads:
  obtains s :: idt_state where "sched_rep s ((\<lambda>_. [])(5 := [0, 1]))" "current s = (\<lambda>_. Some 0)"
    "\<And>i. i < 2 \<Longrightarrow> time_slice (threads64 s i) = 5" "preempt_disable_count s = (\<lambda>_. 0)" "mmio_log s = []"
    "lapic_base_pa s = 0xFEE00000"
proof -
  obtain s0 :: sched64 where s0: "sched_rep s0 ((\<lambda>_. [])(5 := [0, 1]))" "\<And>i. i < 2 \<Longrightarrow> time_slice (threads64 s0 i) = 5"
    by (rule two_threads) blast
  define s :: idt_state where "s = (sched64.extend s0 (sched64.more demo_idt))
    \<lparr>current := (\<lambda>_. Some 0), preempt_disable_count := (\<lambda>_. 0), mmio_log := [], lapic_base_pa := 0xFEE00000\<rparr>"
  have "threads64 s = threads64 s0" "ready_bitmap s = ready_bitmap s0" "ready_queue s = ready_queue s0"
    "thread64_count s = thread64_count s0"
    by (simp_all add: s_def sched64.defs)
  then have "sched_rep s ((\<lambda>_. [])(5 := [0, 1]))" "\<And>i. i < 2 \<Longrightarrow> time_slice (threads64 s i) = 5"
    using s0 unfolding sched_rep_def by simp_all
  then show ?thesis by (intro that [of s]) (simp_all add: s_def)
qed

theorem timer_interrupts_preempt_witness:
  "\<exists>s :: idt_state. current s 0 = Some 0 \<and> current ((timer_irq 0 0x90000 ^^ 5) s) 0 = Some 1 \<and>
     mmio_log ((timer_irq 0 0x90000 ^^ 5) s) = replicate 5 (0, 0xFEE000B0, 0)"
proof -
  obtain s :: idt_state where s: "sched_rep s ((\<lambda>_. [])(5 := [0, 1]))" "current s = (\<lambda>_. Some 0)"
      "\<And>i. i < 2 \<Longrightarrow> time_slice (threads64 s i) = 5" "preempt_disable_count s = (\<lambda>_. 0)" "mmio_log s = []"
      "lapic_base_pa s = 0xFEE00000" by (rule demo_idt_threads) blast
  have "get_cpu_index 0 = 0" by (simp add: get_cpu_index_def)
  then have "current ((timer_irq 0 0x90000 ^^ 5) s) 0 = Some 1 \<and> mmio_log ((timer_irq 0 0x90000 ^^ 5) s) = replicate 5 (0, 0xFEE000B0, 0)"
    using timer_interrupts_preempt [OF s(1), of 5 0 1 "0x90000"] s
    by (simp add: top_queue_def NKern_IsLocked_def)
  then show ?thesis using s(2) by (intro exI [of _ s]) simp
qed

section \<open>System calls\<close>

definition syscall_line :: "char \<Rightarrow> nat \<Rightarrow> string" where
  "syscall_line c i = ''[ring3] '' @ [c] @ '' (syscall #'' @ hex64_buf (of_nat i) @ '')'' @ [nl]"

definition confirm_line :: string where
  "confirm_line = ''[syscall] confirmed genuine CPL3 caller (CS&3==3)'' @ [nl]"

text \<open>What the \<open>i\<close>-th call, counted from 1, sends.\<close>

definition syscall_text :: "char \<Rightarrow> nat \<Rightarrow> string" where
  "syscall_text c i = (if i mod 300000 = 1 then syscall_line c i else []) @ (if i = 1 then confirm_line else [])"

definition print_frame :: "memory \<Rightarrow> nat \<Rightarrow> char \<Rightarrow> bool" where
  "print_frame m f c \<longleftrightarrow> fr_rax m f = 1 \<and> fr_cs m f AND 3 = 3 \<and> char_of (unat (fr_rdi m f AND 0xFF)) = c"

lemma call_number:
  assumes "Suc n < 4294967296"
  shows "(of_nat n + 1 :: u32) mod 300000 = 1 \<longleftrightarrow> Suc n mod 300000 = 1" "ucast (of_nat n + 1 :: u32) = (of_nat (Suc n) :: u64)"
proof -
  have u: "unat (of_nat n + 1 :: u32) = Suc n" using assms by (simp add: unat_word_ariths unat_of_nat)
  then show "(of_nat n + 1 :: u32) mod 300000 = 1 \<longleftrightarrow> Suc n mod 300000 = 1"
    by (simp add: word_unat_eq_iff unat_mod_distrib)
  show "ucast (of_nat n + 1 :: u32) = (of_nat (Suc n) :: u64)"
    using assms u by (simp add: word_unat_eq_iff unsigned_ucast_eq unat_of_nat take_bit_nat_eq_self del: of_nat_Suc)
qed

lemma kprint_char: "c \<noteq> CHR 0x00 \<Longrightarrow> uart_log (kprint [c, CHR 0x00] s) = uart_log s @ serial [c]"
  by (simp add: kprint_uart serial_def)

lemma kprint_idt [simp, frame_simps]:
  "call_count (kprint t s) = call_count s" "shown (kprint t s) = shown s" "current (kprint t s) = current s"
  "call_count (kprint_hex64 v s) = call_count s" "shown (kprint_hex64 v s) = shown s" "current (kprint_hex64 v s) = current s"
  "mmio_log (kprint_hex64 v s) = mmio_log s"
  using kprint_frame [of t s] kprint_hex64_frame [of v s] by auto

lemma syscall_print_step:
  assumes "print_frame (mem s) f c" "c \<noteq> CHR 0x00" "call_count s = of_nat n" "shown s \<longleftrightarrow> 0 < n" "Suc n < 4294967296"
  shows "call_count (syscall_print f s) = of_nat (Suc n) \<and> shown (syscall_print f s) \<and> mem (syscall_print f s) = mem s \<and>
    mmio_log (syscall_print f s) = mmio_log s \<and> current (syscall_print f s) = current s \<and>
    uart_log (syscall_print f s) = uart_log s @ serial (syscall_text c (Suc n))"
proof -
  let ?s = "s\<lparr>call_count := of_nat n + 1\<rparr>"
  define w where "w = (if Suc n mod 300000 = 1
      then kprint ('')'' @ [nl]) (kprint_hex64 (ucast (of_nat n + 1 :: u32)) (kprint '' (syscall #'' (kprint [c, CHR 0x00] (kprint ''[ring3] '' ?s))))
      else ?s)"
  have run: "syscall_print f s = (if n = 0 then kprint confirm_line (w\<lparr>shown := True\<rparr>) else w)"
    using assms(1,3,4) call_number(1) [OF assms(5)]
    by (simp add: syscall_print_def print_frame_def Let_def w_def confirm_line_def del: of_nat_Suc)
  have "uart_log w = uart_log s @ serial (if Suc n mod 300000 = 1 then syscall_line c (Suc n) else [])"
    using call_number(2) [OF assms(5)]
    by (simp add: w_def kprint_char assms(2) kprint_plain kprint_hex64_uart syscall_line_def serial_def del: of_nat_Suc)
  moreover have "call_count w = of_nat (Suc n)" "shown w = shown s" "mem w = mem s" "mmio_log w = mmio_log s" "current w = current s"
    by (simp_all add: w_def)
  ultimately show ?thesis
    using assms(4) unfolding run by (simp add: syscall_text_def kprint_plain confirm_line_def)
qed

section \<open>What the floating-point set-up leaves\<close>

text \<open>\<open>fpu_init\<close> leaves a processor where SSE instructions neither trap nor fault: emulation off,
  monitoring on, both SSE bits set, every other bit of the control registers as it was, other
  processors untouched.\<close>

lemma fpu_init_bits:
  "n < 64 \<Longrightarrow> bit (cr0 (fpu_init p s) p) n = (n \<noteq> 2 \<and> (n = 1 \<or> bit (cr0 s p) n))"
  "n < 64 \<Longrightarrow> bit (cr4 (fpu_init p s) p) n = (n = 9 \<or> n = 10 \<or> bit (cr4 s p) n)"
  "x87_reset (fpu_init p s) p" "q \<noteq> p \<Longrightarrow> cr0 (fpu_init p s) q = cr0 s q" "q \<noteq> p \<Longrightarrow> cr4 (fpu_init p s) q = cr4 s q"
proof -
  have b: "bit (push_bit k 1 :: u64) n = (n = k)" if "k < 64" for n k
    using that by (simp add: bit_push_bit_iff bit_1_iff del: push_bit_of_1) auto
  have c0: "cr0 (fpu_init p s) p = (cr0 s p AND NOT (push_bit 2 1)) OR push_bit 1 1"
    and c4: "cr4 (fpu_init p s) p = cr4 s p OR (push_bit 9 1 OR push_bit 10 1)"
    by (simp_all add: fpu_init_def Let_def)
  show "n < 64 \<Longrightarrow> bit (cr0 (fpu_init p s) p) n = (n \<noteq> 2 \<and> (n = 1 \<or> bit (cr0 s p) n))"
    unfolding c0 by (simp only: bit_or_iff bit_and_iff bit_not_iff b possible_bit_word) (auto simp: b)
  show "n < 64 \<Longrightarrow> bit (cr4 (fpu_init p s) p) n = (n = 9 \<or> n = 10 \<or> bit (cr4 s p) n)"
    unfolding c4 by (simp only: bit_or_iff) (auto simp only: b)
qed (simp_all add: fpu_init_def Let_def)

end
