(* ===== verification/Isr.thy ===== *)
theory Isr
  imports Context_Switch Idt
begin

text \<open>
  The interrupt entry code of \<open>src/isr.s\<close>, instruction by instruction, between the processor's own
  pushes and its \<open>iretq\<close>: the stub of a vector, the common stub that saves the general registers,
  calls \<open>interrupt_dispatch\<close> with a pointer to the frame and restores them. Delivery of an interrupt and \<open>iretq\<close>
  are the processor's: in 64-bit mode it aligns the stack to 16 bytes and always pushes the stack segment and
  stack pointer, the flags, the code segment and the instruction pointer, and for some exceptions an
  error code; an interrupt gate clears the interrupt flag.
\<close>

record int_regs = cpu_regs +
  r_rcx :: u64
  r_rdx :: u64
  r_rsi :: u64
  r_rdi :: u64
  r_r8 :: u64
  r_r9 :: u64
  r_r10 :: u64
  r_r11 :: u64
  r_cs :: u64
  r_ss :: u64

type_synonym int_machine = "int_regs \<times> memory"

section \<open>The processor\<close>

text \<open>The stack an interrupt is delivered on: that of the task state when it comes from ring 3.\<close>

definition int_stack :: "u64 \<Rightarrow> int_regs \<Rightarrow> u64" where
  "int_stack kstack r = (if r_cs r AND 3 = 3 then kstack else r_rsp r) AND NOT 15"

definition push_error :: "u64 option \<Rightarrow> int_machine \<Rightarrow> int_machine" where
  "push_error err c = (case err of None \<Rightarrow> c | Some e \<Rightarrow> push e c)"

definition int_enter :: "u64 \<Rightarrow> u64 \<Rightarrow> u64 option \<Rightarrow> int_machine \<Rightarrow> int_machine" where
  "int_enter kstack handler err = (\<lambda>(r, m).
     let c = (r\<lparr>r_rsp := int_stack kstack r\<rparr>, m);
         c = push (r_ss r) c;
         c = push (r_rsp r) c;
         c = push (r_rflags r) c;
         c = push (r_cs r) c;
         c = push (r_rip r) c;
         c = push_error err c
     in ((fst c)\<lparr>r_rip := handler, r_cs := 0x08, r_ss := (if r_cs r AND 3 = 3 then 0 else r_ss r),
                 r_rflags := r_rflags r AND NOT 0x34300\<rparr>, snd c))"

definition iretq :: "int_machine \<Rightarrow> int_machine" where
  "iretq = (\<lambda>(r, m). let a = unat (r_rsp r)
     in (r\<lparr>r_rip := read64 m a, r_cs := read64 m (a + 8), r_rflags := read64 m (a + 16),
           r_rsp := read64 m (a + 24), r_ss := read64 m (a + 32)\<rparr>, m))"

section \<open>The stubs\<close>

text \<open>The vectors declared with \<open>ISR_ERR\<close>; every other stub is an \<open>ISR_NOERR\<close>.\<close>

definition isr_err :: "nat list" where
  "isr_err = [8, 10, 11, 12, 13, 14, 17]"

definition isr_stub :: "nat \<Rightarrow> int_machine \<Rightarrow> int_machine" where
  "isr_stub v c =
     (let c = (if v \<in> set isr_err then c else push 0 c)
      in push (of_nat v) c)"

definition isr_saves :: "int_machine \<Rightarrow> int_machine" where
  "isr_saves c =
     (let c = push (r_rax (fst c)) c;
          c = push (r_rbx (fst c)) c;
          c = push (r_rcx (fst c)) c;
          c = push (r_rdx (fst c)) c;
          c = push (r_rsi (fst c)) c;
          c = push (r_rdi (fst c)) c;
          c = push (r_rbp (fst c)) c;
          c = push (r_r8 (fst c)) c;
          c = push (r_r9 (fst c)) c;
          c = push (r_r10 (fst c)) c;
          c = push (r_r11 (fst c)) c;
          c = push (r_r12 (fst c)) c;
          c = push (r_r13 (fst c)) c;
          c = push (r_r14 (fst c)) c
      in push (r_r15 (fst c)) c)"

definition isr_restores :: "int_machine \<Rightarrow> int_machine" where
  "isr_restores c =
     (let c = pop_to r_r15_update c;
          c = pop_to r_r14_update c;
          c = pop_to r_r13_update c;
          c = pop_to r_r12_update c;
          c = pop_to r_r11_update c;
          c = pop_to r_r10_update c;
          c = pop_to r_r9_update c;
          c = pop_to r_r8_update c;
          c = pop_to r_rbp_update c;
          c = pop_to r_rdi_update c;
          c = pop_to r_rsi_update c;
          c = pop_to r_rdx_update c;
          c = pop_to r_rcx_update c;
          c = pop_to r_rbx_update c
      in pop_to r_rax_update c)"

text \<open>The common stub up to the call and after it.\<close>

definition isr_enter :: "int_machine \<Rightarrow> int_machine" where
  "isr_enter c =
     (let c = isr_saves c
      in ((fst c)\<lparr>r_rdi := r_rsp (fst c)\<rparr>, snd c))"

definition isr_leave :: "int_machine \<Rightarrow> int_machine" where
  "isr_leave c =
     (let c = isr_restores c;
          c = ((fst c)\<lparr>r_rsp := r_rsp (fst c) + 16\<rparr>, snd c)
      in iretq c)"

text \<open>
  \<open>dispatch\<close> is the call of \<open>interrupt_dispatch\<close> as the common stub sees it; it may not return.
\<close>

definition isr_common_stub :: "(int_machine \<Rightarrow> int_machine option) \<Rightarrow> int_machine \<Rightarrow> int_machine option" where
  "isr_common_stub dispatch c = map_option isr_leave (dispatch (isr_enter c))"

text \<open>
  One interrupt from delivery to its end on the kernel's state: the processor takes the stack from the task
  state its task register selects and the handler from the gate. \<open>clobber\<close> is what the compiled handler leaves in the registers.
\<close>

definition int_call :: "u64 \<Rightarrow> u64 \<Rightarrow> u64 option \<Rightarrow> nat \<Rightarrow> int_machine \<Rightarrow> int_machine" where
  "int_call kstack handler err v c = isr_enter (isr_stub v (int_enter kstack handler err c))"

definition interrupt_stack0 :: "nat \<Rightarrow> 'a idt_state_scheme \<Rightarrow> u64" where
  "interrupt_stack0 p s = rsp0 (tss s ((unat (task_reg s p) div 8 - 5) div 2))"

definition deliver ::
    "(int_regs \<Rightarrow> int_regs) \<Rightarrow> nat \<Rightarrow> u8 \<Rightarrow> nat \<Rightarrow> u64 option \<Rightarrow> int_regs \<times> 'a idt_state_scheme \<Rightarrow> (int_regs \<times> 'a idt_state_scheme) outcome" where
  "deliver clobber p kbd_data v err = (\<lambda>(r, s).
     let c = int_call (interrupt_stack0 p s) (gate_offset (idt s v)) err v (r, mem s)
     in case interrupt_dispatch p kbd_data (unat (r_rdi (fst c))) (s\<lparr>mem := snd c\<rparr>) of
          Halted s \<Rightarrow> Halted (fst c, s)
        | Returned s \<Rightarrow> let c = isr_leave (clobber (fst c), mem s) in Returned (fst c, s\<lparr>mem := snd c\<rparr>))"

text \<open>
  The instruction \<open>int v\<close>: a gate of another type, or one that the caller's privilege does not reach, is a
  general protection fault, a gate that is not present a segment fault, both with the gate's number as error code.
\<close>

definition software_int ::
    "(int_regs \<Rightarrow> int_regs) \<Rightarrow> nat \<Rightarrow> nat \<Rightarrow> int_regs \<times> 'a idt_state_scheme \<Rightarrow> (int_regs \<times> 'a idt_state_scheme) outcome" where
  "software_int clobber p v = (\<lambda>(r, s).
     let g = idt s v
     in if gate_type g \<notin> {0xE, 0xF} \<or> gate_dpl g < unat (r_cs r AND 3) then deliver clobber p 0 13 (Some (of_nat (8 * v + 2))) (r, s)
        else if \<not> gate_present g then deliver clobber p 0 11 (Some (of_nat (8 * v + 2))) (r, s)
        else deliver clobber p 0 v None (r, s))"

section \<open>Sequences of pushes\<close>

fun pushed :: "nat \<Rightarrow> u64 list \<Rightarrow> memory \<Rightarrow> memory" where
  "pushed a [] m = m"
| "pushed a (v # vs) m = pushed (a - 8) vs (write64 m (a - 8) v)"

lemma unat_push: "8 \<le> unat a \<Longrightarrow> unat (a - 8 :: u64) = unat a - 8"
  using sub_unat [of 8 a] by (simp add: word_le_nat_alt)

lemma push_eq: "push v (r, m) = (r\<lparr>r_rsp := r_rsp r - 8\<rparr>, write64 m (unat (r_rsp r - 8)) v)"
  by (simp add: push_def Let_def)

lemma push_keeps [simp]:
  fixes c :: int_machine
  shows "r_rax (fst (push v c)) = r_rax (fst c)" "r_rbx (fst (push v c)) = r_rbx (fst c)"
  "r_rcx (fst (push v c)) = r_rcx (fst c)" "r_rdx (fst (push v c)) = r_rdx (fst c)" "r_rsi (fst (push v c)) = r_rsi (fst c)"
  "r_rdi (fst (push v c)) = r_rdi (fst c)" "r_rbp (fst (push v c)) = r_rbp (fst c)" "r_r8 (fst (push v c)) = r_r8 (fst c)"
  "r_r9 (fst (push v c)) = r_r9 (fst c)" "r_r10 (fst (push v c)) = r_r10 (fst c)" "r_r11 (fst (push v c)) = r_r11 (fst c)"
  "r_r12 (fst (push v c)) = r_r12 (fst c)" "r_r13 (fst (push v c)) = r_r13 (fst c)" "r_r14 (fst (push v c)) = r_r14 (fst c)"
  "r_r15 (fst (push v c)) = r_r15 (fst c)"
  by (cases c; simp add: push_eq)+

lemma fold_push:
  "8 * length vs \<le> unat (r_rsp r) \<Longrightarrow>
   fold push vs (r, m) = (r\<lparr>r_rsp := r_rsp r - of_nat (8 * length vs)\<rparr>, pushed (unat (r_rsp r)) vs m)"
proof (induction vs arbitrary: r m)
  case (Cons v vs)
  then have "fold push vs (r\<lparr>r_rsp := r_rsp r - 8\<rparr>, write64 m (unat (r_rsp r - 8)) v) =
      (r\<lparr>r_rsp := r_rsp r - 8 - of_nat (8 * length vs)\<rparr>, pushed (unat (r_rsp r) - 8) vs (write64 m (unat (r_rsp r) - 8) v))"
    by (subst Cons.IH) (simp_all add: unat_push)
  then show ?case by (simp add: push_eq algebra_simps)
qed simp

lemma pushed_outside: "8 * length vs \<le> a \<Longrightarrow> x < a - 8 * length vs \<or> a \<le> x \<Longrightarrow> pushed a vs m x = m x"
proof (induction vs arbitrary: a m)
  case (Cons v vs)
  then have "pushed (a - 8) vs (write64 m (a - 8) v) x = write64 m (a - 8) v x" by (intro Cons.IH) auto
  also have "\<dots> = m x" using Cons.prems by (intro write64_outside) auto
  finally show ?case by simp
qed simp

lemma pushed_read: "8 * length vs \<le> a \<Longrightarrow> i < length vs \<Longrightarrow> read64 (pushed a vs m) (a - 8 * Suc i) = vs ! i"
proof (induction vs arbitrary: a m i)
  case (Cons v vs)
  show ?case
  proof (cases i)
    case 0
    have "read64 (pushed (a - 8) vs (write64 m (a - 8) v)) (a - 8) = read64 (write64 m (a - 8) v) (a - 8)"
      using Cons.prems(1) by (intro read64_cong pushed_outside) auto
    then show ?thesis using 0 by simp
  next
    case (Suc j)
    then show ?thesis using Cons.IH [of "a - 8" j] Cons.prems by (simp add: diff_diff_add)
  qed
qed simp

lemma pushed_append: "pushed a (vs @ ws) m = pushed (a - 8 * length vs) ws (pushed a vs m)"
  by (induction vs arbitrary: a m) (simp_all add: diff_diff_add)

section \<open>The frame\<close>

text \<open>All that lies on the stack when \<open>interrupt_dispatch\<close> is called, in the order it was pushed.\<close>

definition saved_regs :: "int_regs \<Rightarrow> u64 list" where
  "saved_regs r =
     [r_rax r, r_rbx r, r_rcx r, r_rdx r, r_rsi r, r_rdi r, r_rbp r, r_r8 r, r_r9 r, r_r10 r, r_r11 r,
      r_r12 r, r_r13 r, r_r14 r, r_r15 r]"

definition frame_words :: "nat \<Rightarrow> u64 option \<Rightarrow> int_regs \<Rightarrow> u64 list" where
  "frame_words v err r =
     [r_ss r, r_rsp r, r_rflags r, r_cs r, r_rip r, case err of None \<Rightarrow> 0 | Some e \<Rightarrow> e, of_nat v] @ saved_regs r"

lemma isr_saves_fold: "isr_saves c = fold push (saved_regs (fst c)) c"
  by (simp add: isr_saves_def saved_regs_def Let_def)

definition processor_words :: "u64 option \<Rightarrow> int_regs \<Rightarrow> u64 list" where
  "processor_words err r = [r_ss r, r_rsp r, r_rflags r, r_cs r, r_rip r] @ (case err of None \<Rightarrow> [] | Some e \<Rightarrow> [e])"

definition stub_words :: "nat \<Rightarrow> u64 list" where
  "stub_words v = (if v \<in> set isr_err then [] else [0]) @ [of_nat v]"

lemma length_frame_words [simp]: "length (frame_words v err r) = 22"
  by (simp add: frame_words_def saved_regs_def)

lemma frame_words_eq:
  "err \<noteq> None \<longleftrightarrow> v \<in> set isr_err \<Longrightarrow> frame_words v err r = processor_words err r @ stub_words v @ saved_regs r"
  by (cases err) (simp_all add: frame_words_def processor_words_def stub_words_def)

lemma int_enter_fold:
  fixes r :: int_regs and m :: memory and kstack :: u64 and err :: "u64 option"
  defines "c \<equiv> fold push (processor_words err r) (r\<lparr>r_rsp := int_stack kstack r\<rparr>, m)"
  shows "int_enter kstack h err (r, m) = ((fst c)\<lparr>r_rip := h, r_cs := 0x08, r_ss := (if r_cs r AND 3 = 3 then 0 else r_ss r),
      r_rflags := r_rflags r AND NOT 0x34300\<rparr>, snd c)"
  by (cases err) (simp_all add: c_def int_enter_def push_error_def processor_words_def Let_def)

lemma isr_stub_fold: "isr_stub v c = fold push (stub_words v) c"
  by (simp add: isr_stub_def stub_words_def Let_def)

text \<open>The state \<open>interrupt_dispatch\<close> is called in, whether or not the stub fits the exception.\<close>

lemma int_call_eq:
  fixes r :: int_regs and kstack :: u64 and err :: "u64 option" and v :: nat
  defines "ws \<equiv> processor_words err r @ stub_words v @ saved_regs r"
  assumes "8 * length ws \<le> unat (int_stack kstack r)"
  defines "sp \<equiv> int_stack kstack r - of_nat (8 * length ws)"
  shows "int_call kstack h err v (r, m) = (r\<lparr>r_rsp := sp, r_rdi := sp, r_rip := h, r_cs := 0x08,
      r_ss := (if r_cs r AND 3 = 3 then 0 else r_ss r), r_rflags := r_rflags r AND NOT 0x34300\<rparr>,
      pushed (unat (int_stack kstack r)) ws m)"
proof -
  let ?t = "int_stack kstack r" and ?P = "processor_words err r" and ?S = "stub_words v" and ?R = "saved_regs r"
  have sub: "unat (?t - of_nat k) = unat ?t - k" if "k \<le> 8 * length ws" for k
  proof -
    have "k < 18446744073709551616" using that assms(2) unat_bound64 [of ?t] by linarith
    then show ?thesis using that assms(2) by (intro sub_unat) (simp_all add: word_le_nat_alt unat_of_nat_small)
  qed
  let ?u = "\<lambda>k. r\<lparr>r_rsp := ?t - of_nat k, r_rip := h, r_cs := 0x08, r_ss := (if r_cs r AND 3 = 3 then 0 else r_ss r),
      r_rflags := r_rflags r AND NOT 0x34300\<rparr>"
  have minus: "x - of_nat (8 * j) - of_nat (8 * k) = x - of_nat (8 * (j + k))" for x :: u64 and j k by (simp add: diff_diff_eq distrib_left)
  have "int_enter kstack h err (r, m) = (?u (8 * length ?P), pushed (unat ?t) ?P m)"
    using assms(2) by (simp add: int_enter_fold fold_push ws_def)
  then have stub: "isr_stub v (int_enter kstack h err (r, m)) = (?u (8 * (length ?P + length ?S)), pushed (unat ?t) (?P @ ?S) m)"
    using assms(2) sub [of "8 * length ?P"] by (simp add: isr_stub_fold fold_push pushed_append ws_def minus del: of_nat_mult)
  have saves: "isr_saves (?u k, m') = (?u (k + 8 * length ?R), pushed (unat ?t - k) ?R m')"
    if "k + 8 * length ?R \<le> 8 * length ws" for k m'
  proof -
    have "saved_regs (?u k) = ?R" by (simp add: saved_regs_def)
    then show ?thesis using that sub [of k] assms(2) by (simp add: isr_saves_fold fold_push diff_diff_eq)
  qed
  have sum: "8 * (length ?P + length ?S) + 8 * length ?R = 8 * length ws" by (simp add: ws_def)
  have all: "pushed (unat ?t - 8 * (length ?P + length ?S)) ?R (pushed (unat ?t) (?P @ ?S) m) = pushed (unat ?t) ws m"
    using pushed_append [of "unat ?t" "?P @ ?S" ?R m] by (simp add: ws_def)
  have "isr_saves (isr_stub v (int_enter kstack h err (r, m))) = (?u (8 * length ws), pushed (unat ?t) ws m)"
    unfolding stub saves [OF eq_imp_le [OF sum]] sum all ..
  then show ?thesis by (simp add: int_call_def isr_enter_def Let_def sp_def)
qed

lemma int_call_fits:
  fixes r :: int_regs and kstack :: u64
  assumes "err \<noteq> None \<longleftrightarrow> v \<in> set isr_err" "176 \<le> unat (int_stack kstack r)"
  shows "r_rsp (fst (int_call kstack h err v (r, m))) = int_stack kstack r - 176"
    "r_rdi (fst (int_call kstack h err v (r, m))) = int_stack kstack r - 176"
    "snd (int_call kstack h err v (r, m)) = pushed (unat (int_stack kstack r)) (frame_words v err r) m"
  using int_call_eq [of err r v kstack h m] assms(2) length_frame_words [of v err r]
  by (simp_all add: frame_words_eq [OF assms(1), symmetric] del: length_frame_words)

text \<open>The words of the frame, from its first field up: the last word pushed is field 0.\<close>

lemma pushed_frame:
  assumes "176 \<le> a" "i < 22"
  shows "frame_field i (pushed a (frame_words v err r) m) (a - 176) = rev (frame_words v err r) ! i"
proof -
  define j where "j = 21 - i"
  have j: "a - 8 * Suc j = a - 176 + 8 * i" "22 - Suc i = j" "j < 22"
    using assms by (simp_all add: j_def)
  have "read64 (pushed a (frame_words v err r) m) (a - 8 * Suc j) = frame_words v err r ! j"
    using j(3) assms(1) by (intro pushed_read) simp_all
  then show ?thesis using assms(2) by (simp only: frame_field_def j(1,2) rev_nth length_frame_words)
qed

lemma isr_leave_eq:
  fixes r :: int_regs and m :: memory
  assumes "unat (r_rsp r) + 176 < 18446744073709551616"
  defines "g \<equiv> \<lambda>i. frame_field i m (unat (r_rsp r))"
  shows "isr_leave (r, m) =
    (\<lparr>r_rip = g 17, r_rsp = g 20, r_rflags = g 19, r_rax = g 14, r_rbx = g 13, r_rbp = g 8, r_r12 = g 3, r_r13 = g 2, r_r14 = g 1,
      r_r15 = g 0, r_rcx = g 12, r_rdx = g 11, r_rsi = g 10, r_rdi = g 9, r_r8 = g 7, r_r9 = g 6, r_r10 = g 5, r_r11 = g 4,
      r_cs = g 18, r_ss = g 21\<rparr>, m)"
proof -
  have "unat (r_rsp r + of_nat k) = unat (r_rsp r) + k" if "k \<le> 176" for k
    using that assms(1) unat_add_small [of "r_rsp r" "of_nat k"] by (simp add: unat_of_nat_small)
  from this [of 8] this [of 16] this [of 24] this [of 32] this [of 40] this [of 48] this [of 56] this [of 64] this [of 72]
    this [of 80] this [of 88] this [of 96] this [of 104] this [of 112] this [of 120] this [of 136]
  show ?thesis
    by (simp add: isr_leave_def isr_restores_def pop_to_def pop_def iretq_def Let_def add.assoc g_def frame_field_def)
qed

text \<open>Whatever the registers hold when the call returns, those of the interrupted code come back from the frame.\<close>

lemma isr_leave_restores:
  assumes "unat (r_rsp r') + 176 < 18446744073709551616"
    and "\<forall>i < 22. frame_field i m (unat (r_rsp r')) = rev (frame_words v err r) ! i"
  shows "isr_leave (r', m) = (r, m)"
proof -
  have "frame_field i m (unat (r_rsp r')) = rev (frame_words v err r) ! i" if "i < 22" for i using assms(2) that by simp
  from this [of 0] this [of 1] this [of 2] this [of 3] this [of 4] this [of 5] this [of 6] this [of 7] this [of 8]
    this [of 9] this [of 10] this [of 11] this [of 12] this [of 13] this [of 14] this [of 17] this [of 18] this [of 19]
    this [of 20] this [of 21]
  show ?thesis
    unfolding isr_leave_eq [OF assms(1)] by (simp add: frame_words_def saved_regs_def)
qed

section \<open>Properties\<close>

text \<open>The frame as \<open>interrupt_dispatch\<close> declares it: \<open>interrupt_frame_t\<close>, field by field.\<close>

definition interrupt_frame :: "nat \<Rightarrow> u64 option \<Rightarrow> int_regs \<Rightarrow> u64 list" where
  "interrupt_frame v err r =
     [r_r15 r, r_r14 r, r_r13 r, r_r12 r, r_r11 r, r_r10 r, r_r9 r, r_r8 r,
      r_rbp r, r_rdi r, r_rsi r, r_rdx r, r_rcx r, r_rbx r, r_rax r,
      of_nat v, case err of None \<Rightarrow> 0 | Some e \<Rightarrow> e,
      r_rip r, r_cs r, r_rflags r]"

lemma rev_frame_words: "rev (frame_words v err r) = interrupt_frame v err r @ [r_rsp r, r_ss r]"
  by (simp add: frame_words_def saved_regs_def interrupt_frame_def)

lemma length_interrupt_frame [simp]: "length (interrupt_frame v err r) = 20"
  by (simp add: interrupt_frame_def)

lemma int_stack_range: "16 dvd unat (int_stack kstack r)" "unat (int_stack kstack r) + 16 \<le> 18446744073709551616"
proof -
  obtain x where "int_stack kstack r = x AND - 16" by (simp add: int_stack_def)
  then have "unat (int_stack kstack r) = unat x div 16 * 16" by (simp add: unat_and_not_15)
  moreover have "unat x div 16 < 1152921504606846976" using unat_bound64 [of x] by (simp add: less_mult_imp_div_less)
  ultimately show "16 dvd unat (int_stack kstack r)" "unat (int_stack kstack r) + 16 \<le> 18446744073709551616" by simp_all
qed

lemma int_call_frame:
  fixes r :: int_regs and m :: memory and h :: u64
  assumes "err \<noteq> None \<longleftrightarrow> v \<in> set isr_err" "176 \<le> unat (int_stack kstack r)"
  defines "c \<equiv> int_call kstack h err v (r, m)" and "f \<equiv> unat (int_stack kstack r) - 176"
  shows "unat (r_rsp (fst c)) = f" "unat (r_rdi (fst c)) = f" "16 dvd f" "f + 176 < 18446744073709551616"
    "\<forall>i < 22. frame_field i (snd c) f = rev (frame_words v err r) ! i" "\<And>x. x < f \<or> f + 176 \<le> x \<Longrightarrow> snd c x = m x"
proof -
  have "unat (int_stack kstack r - 176) = f"
    using sub_unat [of 176 "int_stack kstack r"] assms(2) by (simp add: f_def word_le_nat_alt)
  then show "unat (r_rsp (fst c)) = f" "unat (r_rdi (fst c)) = f"
    by (simp_all add: c_def int_call_fits [OF assms(1,2)])
  show "16 dvd f" "f + 176 < 18446744073709551616"
    using int_stack_range [of kstack r] assms(2) by (simp_all add: f_def dvd_diff_nat)
  show "\<forall>i < 22. frame_field i (snd c) f = rev (frame_words v err r) ! i"
    using pushed_frame [OF assms(2)] by (simp add: c_def f_def int_call_fits(3) [OF assms(1,2)])
  show "snd c x = m x" if "x < f \<or> f + 176 \<le> x" for x
    using pushed_outside [of "frame_words v err r" "unat (int_stack kstack r)" x m] that assms(2)
    by (auto simp: c_def f_def int_call_fits(3) [OF assms(1,2)])
qed

text \<open>C10. An interrupt leaves no trace in the interrupted code. Whatever vector is delivered, on the stack of
  the task state from ring 3 and on the current one otherwise, \<open>interrupt_dispatch\<close> is called with a pointer
  to a frame that is aligned for the call and holds, field by field, what \<open>interrupt_frame_t\<close> declares,
  with 0 for an error code the processor does not push; the 176 bytes below that stack are the only memory
  written. If the call returns with its stack pointer and the frame as they were, whatever it did to the
  other registers and the rest of memory, every register of the interrupted code is restored,
  its flags, segments and stack included.\<close>

theorem interrupt_restores_registers:
  fixes r :: int_regs and m :: memory and h :: u64
  assumes "err \<noteq> None \<longleftrightarrow> v \<in> set isr_err" "176 \<le> unat (int_stack kstack r)"
  defines "c1 \<equiv> int_call kstack h err v (r, m)"
  defines "f \<equiv> unat (r_rdi (fst c1))"
  assumes "dispatch c1 = Some (r2, m2)" "r_rsp r2 = r_rsp (fst c1)" "\<forall>x. f \<le> x \<and> x < f + 176 \<longrightarrow> m2 x = snd c1 x"
  shows "f mod 16 = 0 \<and> f + 176 = unat (int_stack kstack r) \<and>
    map (\<lambda>i. frame_field i (snd c1) f) [0..<20] = interrupt_frame v err r \<and>
    (\<forall>x. x < f \<or> f + 176 \<le> x \<longrightarrow> snd c1 x = m x) \<and>
    isr_common_stub dispatch (isr_stub v (int_enter kstack h err (r, m))) = Some (r, m2)"
proof -
  note c = int_call_frame(1,2,5,6) [OF assms(1,2), where h = h and m = m, folded c1_def]
  note range = int_call_frame(3,4) [OF assms(1,2)]
  have f: "f = unat (int_stack kstack r) - 176" "unat (r_rsp r2) = f" using c(1,2) assms(6) by (simp_all add: f_def)
  have fields: "frame_field i (snd c1) f = (interrupt_frame v err r @ [r_rsp r, r_ss r]) ! i" if "i < 22" for i
    using c(3) that by (simp add: f(1) rev_frame_words)
  have "map (\<lambda>i. frame_field i (snd c1) f) [0..<20] = interrupt_frame v err r"
    by (rule nth_equalityI) (simp_all add: fields nth_append)
  moreover have "frame_field i m2 f = frame_field i (snd c1) f" if "i < 22" for i
    unfolding frame_field_def using that assms(7) by (intro read64_cong) auto
  then have "\<forall>i < 22. frame_field i m2 (unat (r_rsp r2)) = rev (frame_words v err r) ! i"
    using fields by (simp add: f(2) rev_frame_words)
  then have "isr_leave (r2, m2) = (r, m2)" using isr_leave_restores [of r2] range(2) f by simp
  then have "isr_common_stub dispatch (isr_stub v (int_enter kstack h err (r, m))) = Some (r, m2)"
    using assms(5) by (simp add: isr_common_stub_def c1_def int_call_def)
  moreover have "f mod 16 = 0" using range(1) f(1) by (simp add: dvd_eq_mod_eq_0)
  ultimately show ?thesis using c(4) f(1) assms(2) by simp
qed

definition user_regs :: int_regs where
  "user_regs = \<lparr>r_rip = 0x50000005, r_rsp = 0x50002000, r_rflags = 0x202, r_rax = 1, r_rbx = 2, r_rbp = 3, r_r12 = 4, r_r13 = 5,
     r_r14 = 6, r_r15 = 7, r_rcx = 8, r_rdx = 9, r_rsi = 10, r_rdi = 0x58, r_r8 = 11, r_r9 = 12, r_r10 = 13, r_r11 = 14,
     r_cs = 0x1B, r_ss = 0x23\<rparr>"

text \<open>A handler that spoils registers and writes elsewhere in memory.\<close>

definition spoil :: "int_machine \<Rightarrow> int_machine option" where
  "spoil c = Some ((fst c)\<lparr>r_rax := 0, r_rcx := 0, r_rdi := 0, r_r15 := 0\<rparr>, (snd c)(0x100 := 1))"

theorem interrupt_restores_registers_witness:
  "\<exists>m2. isr_common_stub spoil (isr_stub 13 (int_enter 0x9008 0x100000 (Some 5) (user_regs, \<lambda>_. 0))) = Some (user_regs, m2)"
proof -
  let ?c = "int_call 0x9008 0x100000 (Some 5) 13 (user_regs, \<lambda>_. 0)"
  have st: "int_stack 0x9008 user_regs = 0x9000" by (simp add: int_stack_def user_regs_def)
  have e: "Some 5 \<noteq> (None :: u64 option) \<longleftrightarrow> 13 \<in> set isr_err" by (simp add: isr_err_def)
  have "unat (r_rdi (fst ?c)) = 0x8F50"
    using int_call_frame(2) [OF e, of "0x9008" user_regs "0x100000" "\<lambda>_. 0"] by (simp add: st)
  then show ?thesis
    using interrupt_restores_registers [OF e, of "0x9008" user_regs spoil "0x100000" "\<lambda>_. 0"]
    by (auto simp: st spoil_def)
qed

section \<open>Exceptions\<close>

text \<open>The report's text on the interrupted code, before the dump of the frame.\<close>

definition exception_head :: "nat \<Rightarrow> u64 option \<Rightarrow> int_regs \<Rightarrow> string" where
  "exception_head v err r =
     ([nl] @ ''*** EXCEPTION: '') @ exception_name (of_nat v) @ '' (vector '' @ hex64_buf (of_nat v) @
     '', error_code '' @ hex64_buf (case err of None \<Rightarrow> 0 | Some e \<Rightarrow> e) @ ('')'' @ [nl] @ ''RIP='') @ hex64_buf (r_rip r) @
     '' RSP-frame CS='' @ hex64_buf (r_cs r) @ '' RFLAGS='' @ hex64_buf (r_rflags r) @
     ([nl] @ ''Halting kernel (no recovery implemented).'' @ [nl])"

lemma int_call_fields:
  fixes r :: int_regs and m :: memory and h :: u64
  assumes "err \<noteq> None \<longleftrightarrow> v \<in> set isr_err" "176 \<le> unat (int_stack kstack r)" "i < 20"
  defines "c \<equiv> int_call kstack h err v (r, m)"
  shows "frame_field i (snd c) (unat (r_rdi (fst c))) = interrupt_frame v err r ! i"
  using int_call_frame(2,5) [OF assms(1,2), where h = h and m = m] assms(3)
  by (simp add: c_def rev_frame_words nth_append)

definition halts_with_report ::
    "nat \<Rightarrow> nat \<Rightarrow> u64 option \<Rightarrow> int_regs \<Rightarrow> 'a idt_state_scheme \<Rightarrow> (int_regs \<times> 'a idt_state_scheme) outcome \<Rightarrow> bool" where
  "halts_with_report p v err r s out \<longleftrightarrow>
     (let f = unat (int_stack (interrupt_stack0 p s) r) - 176
      in \<exists>r' u tail. out = Halted (r', u) \<and>
           uart_log u = uart_log s @ serial (exception_head v err r @ tail) \<and> \<not> iflag u p \<and> current u = current s \<and>
           threads64 u = threads64 s \<and> (\<forall>x. x < f \<or> f + 176 \<le> x \<longrightarrow> mem u x = mem s x))"

lemma exception_delivered:
  fixes r :: int_regs and s :: "'a idt_state_scheme"
  assumes "v < 32" "err \<noteq> None \<longleftrightarrow> v \<in> set isr_err" "176 \<le> unat (int_stack (interrupt_stack0 p s) r)"
  shows "halts_with_report p v err r s (deliver clobber p k v err (r, s))"
proof -
  let ?st = "interrupt_stack0 p s"
  define c where "c = int_call ?st (gate_offset (idt s v)) err v (r, mem s)"
  let ?f = "unat (r_rdi (fst c))" and ?s = "s\<lparr>mem := snd c\<rparr>"
  have fld: "frame_field i (snd c) ?f = interrupt_frame v err r ! i" if "i < 20" for i
    unfolding c_def by (rule int_call_fields [OF assms(2,3) that])
  have v: "fr_vector (snd c) ?f = of_nat v" "(of_nat v :: u64) < 32"
    using fld [of 15] assms(1) by (simp_all add: interrupt_frame_def word_less_nat_alt unat_of_nat_small)
  have "exception_report (snd c) ?f = exception_head v err r @
      (''[diag] frame ptr f = '' @ hex64_buf (of_nat ?f) @ [nl] @ concat (map (dump_line (snd c) ?f) [0..<24]))"
    unfolding exception_report_def exception_head_def append_assoc v(1)
    using fld [of 16] fld [of 17] fld [of 18] fld [of 19] by (simp add: interrupt_frame_def)
  then obtain tail where tail: "exception_report (snd c) ?f = exception_head v err r @ tail" by blast
  obtain u where u: "interrupt_dispatch p k ?f ?s = Halted u" "uart_log u = uart_log s @ serial (exception_report (snd c) ?f)"
      "iflag u = (iflag s)(p := False)" "mem u = snd c" "current u = current s" "threads64 u = threads64 s"
    using interrupt_dispatch_halts_on_exceptions [of ?s ?f p k] v by auto
  have "deliver clobber p k v err (r, s) = Halted (fst c, u)"
    using u(1) by (simp add: deliver_def c_def [symmetric] Let_def)
  moreover have "\<forall>x. x < unat (int_stack ?st r) - 176 \<or> unat (int_stack ?st r) - 176 + 176 \<le> x \<longrightarrow> mem u x = mem s x"
    using int_call_frame(6) [OF assms(2,3), where m = "mem s" and h = "gate_offset (idt s v)"] u(4)
    by (simp add: c_def)
  ultimately show ?thesis unfolding halts_with_report_def Let_def using u tail by (intro exI [of _ "fst c"] exI [of _ u] exI [of _ tail]) simp
qed

lemma idt_gates:
  assumes "idt s = idt (idt_init q isr z)" "idt z = (\<lambda>_. zero_gate)"
  shows "gate_present (idt s 128)" "gate_dpl (idt s 128) = 3" "gate_type (idt s 128) = 0xE"
    "v \<noteq> 128 \<Longrightarrow> gate_dpl (idt s v) = 0"
proof -
  have "gate_dpl zero_gate = 0" by (simp add: gate_dpl_def zero_gate_def)
  then show "gate_present (idt s 128)" "gate_dpl (idt s 128) = 3" "gate_type (idt s 128) = 0xE" "v \<noteq> 128 \<Longrightarrow> gate_dpl (idt s v) = 0"
    using assms(2) by (simp_all add: assms(1) idt_init_eq gate_entry_user gate_entry_kernel)
qed


definition demo_ring3 :: idt_state where
  "demo_ring3 = (idt_init 0 (\<lambda>v. 0x100000 + 16 * of_nat v) demo_idt)
     \<lparr>task_reg := (\<lambda>_. 0x28), tss := (\<lambda>_. zero_tss\<lparr>rsp0 := 0x11A000\<rparr>), uart_log := []\<rparr>"

lemma demo_ring3_facts:
  "idt demo_ring3 = idt (idt_init 0 (\<lambda>v. 0x100000 + 16 * of_nat v) demo_idt)" "idt demo_idt = (\<lambda>_. zero_gate)"
  "int_stack (interrupt_stack0 0 demo_ring3) user_regs = 0x11A000" "call_count demo_ring3 = 0" "\<not> shown demo_ring3"
  "uart_log demo_ring3 = []"
  by (simp_all add: demo_ring3_def int_stack_def interrupt_stack0_def user_regs_def idt_init_eq demo_idt_def gdt_state.defs)


section \<open>System calls from user code\<close>

lemma kprint_gates [simp]:
  fixes s :: "'a idt_state_scheme"
  shows "idt (kprint t s) = idt s" "idt (kprint_hex64 v s) = idt s" "tss (kprint t s) = tss s" "tss (kprint_hex64 v s) = tss s"
    "task_reg (kprint t s) = task_reg s" "task_reg (kprint_hex64 v s) = task_reg s"
  using kprint_frame [of t s] kprint_hex64_frame [of v s] by auto

lemma syscall_print_gates [simp]:
  "idt (syscall_print f s) = idt s" "tss (syscall_print f s) = tss s" "task_reg (syscall_print f s) = task_reg s"
  by (simp_all add: syscall_print_def Let_def)

lemma syscall_print_mem [simp]: "mem (syscall_print f s) = mem s"
  by (simp add: syscall_print_def Let_def)

text \<open>One \<open>int 0x80\<close> of user code, through the gate, the stub and the handler and back.\<close>

lemma syscall_returns:
  fixes r :: int_regs and s :: "'a idt_state_scheme"
  assumes "gate_present (idt s 128)" "gate_dpl (idt s 128) = 3" "gate_type (idt s 128) = 0xE"
    and "176 \<le> unat (int_stack (interrupt_stack0 p s) r)" "\<forall>x. r_rsp (clobber x) = r_rsp x" "r_cs r AND 3 = 3"
  defines "f \<equiv> unat (int_stack (interrupt_stack0 p s) r) - 176"
  obtains m where "software_int clobber p 128 (r, s) = Returned (r, syscall_print f (s\<lparr>mem := m\<rparr>))"
    "\<And>i. i < 20 \<Longrightarrow> frame_field i m f = interrupt_frame 128 None r ! i" "\<And>x. x < f \<or> f + 176 \<le> x \<Longrightarrow> m x = mem s x"
proof -
  let ?st = "interrupt_stack0 p s"
  define d where "d = int_call ?st (gate_offset (idt s 128)) None 128 (r, mem s)"
  have e: "None \<noteq> (None :: u64 option) \<longleftrightarrow> 128 \<in> set isr_err" by (simp add: isr_err_def)
  note fr = int_call_frame(1,2,5,6) [OF e assms(4), where h = "gate_offset (idt s 128)" and m = "mem s", folded d_def f_def]
  have fld: "frame_field i (snd d) f = interrupt_frame 128 None r ! i" if "i < 20" for i
    using int_call_fields [OF e assms(4) that, where h = "gate_offset (idt s 128)" and m = "mem s", folded d_def] fr(2) by simp
  define t where "t = s\<lparr>mem := snd d\<rparr>"
  have "fr_vector (snd d) f = 128" using fld [of 15] by (simp add: interrupt_frame_def)
  then have disp: "interrupt_dispatch p 0 f t = Returned (syscall_print f t)"
    by (simp add: interrupt_dispatch_def t_def Let_def)
  have "isr_leave (clobber (fst d), snd d) = (r, snd d)"
    using fr(1,3) assms(5) int_call_frame(4) [OF e assms(4), folded f_def] by (intro isr_leave_restores [where err = None and v = 128]) simp_all
  then have run: "software_int clobber p 128 (r, s) = Returned (r, syscall_print f t\<lparr>mem := snd d\<rparr>)"
    using assms(1,2,3,6) disp fr(2) by (simp add: software_int_def deliver_def d_def [symmetric] t_def [symmetric] Let_def) (simp add: t_def)
  have "mem (syscall_print f t) = snd d" by (simp add: t_def)
  then have "syscall_print f t\<lparr>mem := snd d\<rparr> = syscall_print f t" by (metis kmem.surjective kmem.update_convs(1))
  with run show thesis by (intro that [of "snd d"]) (simp_all add: t_def fld fr(4))
qed

lemma print_call_step:
  fixes r :: int_regs and s :: "'a idt_state_scheme"
  assumes "gate_present (idt s 128)" "gate_dpl (idt s 128) = 3" "gate_type (idt s 128) = 0xE"
    and "176 \<le> unat (int_stack (interrupt_stack0 p s) r)" "\<forall>x. r_rsp (clobber x) = r_rsp x" "r_cs r AND 3 = 3"
    and "r_rax r = 1" "char_of (unat (r_rdi r AND 0xFF)) = c" "c \<noteq> CHR 0x00"
    and "call_count s = of_nat n" "shown s \<longleftrightarrow> 0 < n" "Suc n < 4294967296"
  defines "f \<equiv> unat (int_stack (interrupt_stack0 p s) r) - 176"
  obtains u where "software_int clobber p 128 (r, s) = Returned (r, u)" "call_count u = of_nat (Suc n)" "shown u"
    "mmio_log u = mmio_log s" "current u = current s" "uart_log u = uart_log s @ serial (syscall_text c (Suc n))"
    "\<And>x. x < f \<or> f + 176 \<le> x \<Longrightarrow> mem u x = mem s x" "idt u = idt s" "interrupt_stack0 p u = interrupt_stack0 p s"
proof -
  obtain m where m: "software_int clobber p 128 (r, s) = Returned (r, syscall_print f (s\<lparr>mem := m\<rparr>))"
      "\<And>i. i < 20 \<Longrightarrow> frame_field i m f = interrupt_frame 128 None r ! i" "\<And>x. x < f \<or> f + 176 \<le> x \<Longrightarrow> m x = mem s x"
    using syscall_returns [OF assms(1-6), folded f_def] by metis
  define t where "t = s\<lparr>mem := m\<rparr>"
  have "print_frame (mem t) f c"
    using m(2) [of 14] m(2) [of 18] m(2) [of 9] assms(6,7,8) by (simp add: print_frame_def t_def interrupt_frame_def)
  from syscall_print_step [OF this assms(9), of n]
  have "call_count (syscall_print f t) = of_nat (Suc n)" "shown (syscall_print f t)"
    "mmio_log (syscall_print f t) = mmio_log s" "current (syscall_print f t) = current s"
    "uart_log (syscall_print f t) = uart_log s @ serial (syscall_text c (Suc n))"
    using assms(10,11,12) by (simp_all add: t_def del: of_nat_Suc)
  then show thesis
    by (intro that [of "syscall_print f t"]) (use m(1,3) in \<open>simp_all add: t_def interrupt_stack0_def\<close>)
qed

text \<open>Any other call number has no effect.\<close>

lemma other_call:
  fixes r :: int_regs and s :: "'a idt_state_scheme"
  assumes "gate_present (idt s 128)" "gate_dpl (idt s 128) = 3" "gate_type (idt s 128) = 0xE"
    and "176 \<le> unat (int_stack (interrupt_stack0 p s) r)" "\<forall>x. r_rsp (clobber x) = r_rsp x" "r_cs r AND 3 = 3" "r_rax r \<noteq> 1"
  shows "\<exists>m. software_int clobber p 128 (r, s) = Returned (r, s\<lparr>mem := m\<rparr>)"
proof -
  define f where "f = unat (int_stack (interrupt_stack0 p s) r) - 176"
  obtain m where m: "software_int clobber p 128 (r, s) = Returned (r, syscall_print f (s\<lparr>mem := m\<rparr>))"
      "\<And>i. i < 20 \<Longrightarrow> frame_field i m f = interrupt_frame 128 None r ! i"
    using syscall_returns [OF assms(1-6), folded f_def] by metis
  have "syscall_print f (s\<lparr>mem := m\<rparr>) = s\<lparr>mem := m\<rparr>"
    using m(2) [of 14] assms(7) by (simp add: syscall_print_def interrupt_frame_def)
  with m(1) show ?thesis by auto
qed

text \<open>C36. System calls from user code are counted and throttled, and the caller does not notice them. User code in
  ring 3 that executes \<open>int 0x80\<close> for system call 1 over and over, through the gate, the stub and the
  handler, gets every 300000th call reported with its number, from the first on, and the first confirmed as coming
  from privilege 3, once; the count is exact below \<open>2 ^ 32\<close> calls. Each call returns with every register of the caller as it was,
  whatever the compiled handler did to them, writes no memory but the top 176 bytes of the processor's
  interrupt stack, is never acknowledged to the interrupt controller and switches no thread. Any other call
  number has no effect at all.\<close>

theorem user_syscalls_counted:
  fixes r :: int_regs and s :: "'a idt_state_scheme" and z :: "'b idt_state_scheme"
  assumes "idt s = idt (idt_init q isr z)" "idt z = (\<lambda>_. zero_gate)"
    and "176 \<le> unat (int_stack (interrupt_stack0 p s) r)" "\<forall>x. r_rsp (clobber x) = r_rsp x"
    and "r_cs r AND 3 = 3" "r_rax r = 1" "char_of (unat (r_rdi r AND 0xFF)) = c" "c \<noteq> CHR 0x00"
    and "call_count s = 0" "\<not> shown s" "n < 4294967296" "k \<noteq> 1"
  defines "x \<equiv> ((\<lambda>x. after (software_int clobber p 128 x)) ^^ n) (r, s)" and "f \<equiv> unat (int_stack (interrupt_stack0 p s) r) - 176"
  shows "fst x = r \<and> uart_log (snd x) = uart_log s @ serial (concat (map (syscall_text c) [1..<Suc n])) \<and>
    call_count (snd x) = of_nat n \<and> mmio_log (snd x) = mmio_log s \<and> current (snd x) = current s \<and>
    (\<forall>a. a < f \<or> f + 176 \<le> a \<longrightarrow> mem (snd x) a = mem s a) \<and>
    (\<exists>m. software_int clobber p 128 (r\<lparr>r_rax := k\<rparr>, s) = Returned (r\<lparr>r_rax := k\<rparr>, s\<lparr>mem := m\<rparr>))"
proof -
  let ?run = "\<lambda>n. ((\<lambda>x. after (software_int clobber p 128 x)) ^^ n) (r, s)"
  let ?inv = "\<lambda>n u. ?run n = (r, u) \<and> uart_log u = uart_log s @ serial (concat (map (syscall_text c) [1..<Suc n])) \<and>
    call_count u = of_nat n \<and> (shown u \<longleftrightarrow> 0 < n) \<and> mmio_log u = mmio_log s \<and> current u = current s \<and> idt u = idt s \<and>
    interrupt_stack0 p u = interrupt_stack0 p s \<and> (\<forall>a. a < f \<or> f + 176 \<le> a \<longrightarrow> mem u a = mem s a)"
  have "\<exists>u. ?inv n u" using assms(11)
  proof (induction n)
    case (Suc n)
    then obtain u where IH: "?inv n u" by auto
    then have u: "interrupt_stack0 p u = interrupt_stack0 p s" "gate_present (idt u 128)" "gate_dpl (idt u 128) = 3"
      "gate_type (idt u 128) = 0xE" "call_count u = of_nat n" "shown u \<longleftrightarrow> 0 < n"
      using idt_gates(1,2,3) [OF assms(1,2)] by simp_all
    note step = print_call_step [OF u(2-4) _ assms(4-8) u(5,6) Suc.prems, where p = p, unfolded u(1), OF assms(3), folded f_def]
    obtain w where w: "software_int clobber p 128 (r, u) = Returned (r, w)" "call_count w = of_nat (Suc n)" "shown w"
      "mmio_log w = mmio_log u" "current w = current u" "uart_log w = uart_log u @ serial (syscall_text c (Suc n))"
      "\<And>a. a < f \<or> f + 176 \<le> a \<Longrightarrow> mem w a = mem u a" "idt w = idt u" "interrupt_stack0 p w = interrupt_stack0 p s"
      by (rule step) (rule that)
    have "[1..<Suc (Suc n)] = [1..<Suc n] @ [Suc n]" by simp
    then have "?inv (Suc n) w" using IH w by (simp add: serial_def del: of_nat_Suc upt_Suc)
    then show ?case by blast
  qed (use assms(9,10) in simp)
  moreover have "int_stack (interrupt_stack0 p s) (r\<lparr>r_rax := k\<rparr>) = int_stack (interrupt_stack0 p s) r"
    by (simp add: int_stack_def)
  then have "\<exists>m. software_int clobber p 128 (r\<lparr>r_rax := k\<rparr>, s) = Returned (r\<lparr>r_rax := k\<rparr>, s\<lparr>mem := m\<rparr>)"
    using assms(3,5,12) idt_gates(1,2,3) [OF assms(1,2)] by (intro other_call [OF _ _ _ _ assms(4)]) simp_all
  ultimately show ?thesis by (auto simp: x_def)
qed

text \<open>Two calls by a handler that spoils a register.\<close>

theorem user_syscalls_counted_witness:
  "let x = ((\<lambda>x. after (software_int (r_rax_update (\<lambda>_. 0)) 0 128 x)) ^^ 2) (user_regs, demo_ring3)
   in fst x = user_regs \<and> call_count (snd x) = 2 \<and> uart_log (snd x) =
     serial (''[ring3] X (syscall #'' @ hex64_buf 1 @ '')'' @ [nl] @ ''[syscall] confirmed genuine CPL3 caller (CS&3==3)'' @ [nl])"
proof -
  have X: "char_of (unat (r_rdi user_regs AND 0xFF)) = CHR ''X''"
  proof -
    have "char_of (88 :: nat) = CHR ''X''" by code_simp
    then show ?thesis by (simp add: user_regs_def)
  qed
  have rsp: "\<forall>x. r_rsp (r_rax_update (\<lambda>_. 0) x) = r_rsp (x :: int_regs)" by simp
  have "r_cs user_regs AND 3 = 3" "r_rax user_regs = 1" by (simp_all add: user_regs_def)
  from user_syscalls_counted [OF demo_ring3_facts(1,2) _ rsp this X _ demo_ring3_facts(4,5), of 0 2 7]
  show ?thesis
    by (simp add: demo_ring3_facts Let_def syscall_text_def syscall_line_def confirm_line_def upt_rec)
qed

section \<open>Exceptions with an error code and a stub that expects none\<close>

text \<open>
  The processor also pushes an error code for vectors 21, 29 and 30, whose stubs push a 0 of their own. The
  frame of such an exception is one word off: the report shows error code 0, the error code as the instruction
  pointer and the instruction pointer as the code segment.
\<close>

lemma isr_stub_shifts_frame:
  fixes r :: int_regs and m :: memory and h e :: u64
  assumes "v \<in> {21, 29, 30}" "184 \<le> unat (int_stack kstack r)"
  defines "c \<equiv> int_call kstack h (Some e) v (r, m)"
  defines "f \<equiv> unat (r_rdi (fst c))"
  shows "fr_error_code (snd c) f = 0 \<and> fr_rip (snd c) f = e \<and> fr_cs (snd c) f = r_rip r \<and> f mod 16 = 8"
proof -
  let ?t = "int_stack kstack r" and ?ws = "processor_words (Some e) r @ stub_words v @ saved_regs r"
  have v: "v \<notin> set isr_err" using assms(1) by (auto simp: isr_err_def)
  have ws: "?ws = [r_ss r, r_rsp r, r_rflags r, r_cs r, r_rip r, e, 0, of_nat v] @ saved_regs r" and len: "length ?ws = 23"
    using v by (simp_all add: processor_words_def stub_words_def saved_regs_def)
  have "c = int_call kstack h (Some e) v (r, m)" by (simp add: c_def)
  then have c: "f = unat (?t - 184)" "snd c = pushed (unat ?t) ?ws m"
    using int_call_eq [of "Some e" r v kstack h m] assms(2) unfolding len by (simp_all add: f_def)
  have f: "f = unat ?t - 184" using sub_unat [of 184 ?t] assms(2) c(1) by (simp add: word_le_nat_alt)
  have "read64 (snd c) (unat ?t - 8 * Suc i) = ?ws ! i" if "i < 23" for i
    unfolding c(2) using that assms(2) len by (intro pushed_read) simp_all
  from this [of 4] this [of 5] this [of 6]
  have "fr_error_code (snd c) f = 0 \<and> fr_rip (snd c) f = e \<and> fr_cs (snd c) f = r_rip r"
    using assms(2) unfolding ws by (simp add: frame_field_def f)
  moreover have "f mod 16 = 8"
  proof -
    obtain k where "unat ?t = 16 * k" using int_stack_range(1) by (rule dvdE)
    with assms(2) have "f = 8 + (k - 12) * 16" by (simp add: f)
    then show ?thesis by simp
  qed
  ultimately show ?thesis by simp
qed

end
