(* ===== verification/Terminal32.thy ===== *)
theory Terminal32
  imports Console
begin

text \<open>
  The console of the 32-bit kernel (\<open>src/terminal.c\<close>) and its timer set-up (\<open>src/timer.c\<close>, and
  the unused 64-bit twin \<open>src/timer64.c\<close>). The file has its own copies of the static variables and
  device routines of the 64-bit console, on the same two devices, so the state is again the
  record \<open>console\<close>. \<open>term_color\<close> is never assigned, so it is its initial value. Writes to the
  interrupt controller and the timer go to the same log of port writes.
\<close>

abbreviation (input) VGA_WIDTH :: nat where "VGA_WIDTH \<equiv> 80"
abbreviation (input) VGA_HEIGHT :: nat where "VGA_HEIGHT \<equiv> 25"
abbreviation (input) term_color :: u8 where "term_color \<equiv> 0x0A"

section \<open>The console\<close>

definition vga_entry :: "char \<Rightarrow> u8 \<Rightarrow> u16" where
  "vga_entry c color = scast (of_char c :: u8) OR push_bit 8 (ucast color)"

definition serial_init32 :: "'a console_scheme \<Rightarrow> 'a console_scheme" where
  "serial_init32 k =
     (let k = uart_out (COM1 + 1) 0x00 k; k = uart_out (COM1 + 3) 0x80 k;
          k = uart_out (COM1 + 0) 0x03 k; k = uart_out (COM1 + 1) 0x00 k;
          k = uart_out (COM1 + 3) 0x03 k; k = uart_out (COM1 + 2) 0xC7 k
      in uart_out (COM1 + 4) 0x0B k)"

function serial_wait32 :: "'a console_scheme \<Rightarrow> 'a console_scheme" where
  "serial_wait32 k =
     (case inb_lsr k of (r, k') \<Rightarrow> if r AND 0x20 = 0 then serial_wait32 k' else k')"
  by pat_completeness auto
termination
  by (relation "measure tx_busy") (auto simp: inb_lsr_def split: if_splits)

declare serial_wait32.simps [simp del]

definition serial_putchar :: "char \<Rightarrow> 'a console_scheme \<Rightarrow> 'a console_scheme" where
  "serial_putchar c k = (let k = serial_wait32 k in
     (uart_out COM1 (of_char c) k)\<lparr>tx_busy := tx_time k\<rparr>)"

definition terminal_init :: "'a console_scheme \<Rightarrow> 'a console_scheme" where
  "terminal_init k =
     (let k = serial_init32 k;
          k = fold (\<lambda>y k. fold (\<lambda>x k. k\<lparr>vga := (vga k)(y * VGA_WIDTH + x :=
                 vga_entry (CHR '' '') term_color)\<rparr>) [0..<VGA_WIDTH] k) [0..<VGA_HEIGHT] k
      in k\<lparr>term_row := 0, term_col := 0\<rparr>)"

definition terminal_newline :: "'a console_scheme \<Rightarrow> 'a console_scheme" where
  "terminal_newline k =
     (let k = k\<lparr>term_col := 0, term_row := term_row k + 1\<rparr>
      in if term_row k \<ge> VGA_HEIGHT then k\<lparr>term_row := 0\<rparr> else k)"

definition terminal_putchar :: "char \<Rightarrow> 'a console_scheme \<Rightarrow> 'a console_scheme" where
  "terminal_putchar c k =
     (if c = nl then terminal_newline k
      else
        let k = k\<lparr>vga := (vga k)(term_row k * VGA_WIDTH + term_col k := vga_entry c term_color)\<rparr>;
            k = k\<lparr>term_col := term_col k + 1\<rparr>
        in if term_col k \<ge> VGA_WIDTH then terminal_newline k else k)"

fun terminal_writestring :: "string \<Rightarrow> 'a console_scheme \<Rightarrow> 'a console_scheme" where
  "terminal_writestring [] k = k"
| "terminal_writestring (c # s) k =
     (if c = CHR 0x00 then k else terminal_writestring s (serial_putchar c (terminal_putchar c k)))"

definition hex32_buf :: "u32 \<Rightarrow> string" where
  "hex32_buf val = fst (foldl (\<lambda>(buf, val) i. (buf[9 - i := hex_digits ! unat (val AND 0xF)], drop_bit 4 val))
     (''0x00000000'', val) [0..<8])"

definition terminal_write_hex :: "u32 \<Rightarrow> 'a console_scheme \<Rightarrow> 'a console_scheme" where
  "terminal_write_hex val k = terminal_writestring (hex32_buf val) k"

section \<open>The interrupt controller and the timer\<close>

definition pic_remap :: "'a console_scheme \<Rightarrow> 'a console_scheme" where
  "pic_remap k =
     (let k = uart_out 0x20 0x11 k; k = uart_out 0xA0 0x11 k;
          k = uart_out 0x21 0x20 k; k = uart_out 0xA1 0x28 k;
          k = uart_out 0x21 0x04 k; k = uart_out 0xA1 0x02 k;
          k = uart_out 0x21 0x01 k; k = uart_out 0xA1 0x01 k;
          k = uart_out 0x21 0x0 k
      in uart_out 0xA1 0x0 k)"

text \<open>A frequency of 0 divides by zero, which stops the machine: \<open>None\<close>.\<close>

definition timer_init :: "u32 \<Rightarrow> 'a console_scheme \<Rightarrow> 'a console_scheme option" where
  "timer_init freq k =
     (if freq = 0 then None
      else let divisor = 1193180 div freq;
               k = uart_out 0x43 0x36 k;
               k = uart_out 0x40 (ucast (divisor AND 0xFF)) k
           in Some (uart_out 0x40 (ucast (drop_bit 8 divisor AND 0xFF)) k))"

definition pic_remap64 :: "'a console_scheme \<Rightarrow> 'a console_scheme" where
  "pic_remap64 k =
     (let k = uart_out 0x20 0x11 k; k = uart_out 0xA0 0x11 k;
          k = uart_out 0x21 0x20 k; k = uart_out 0xA1 0x28 k;
          k = uart_out 0x21 0x04 k; k = uart_out 0xA1 0x02 k;
          k = uart_out 0x21 0x01 k; k = uart_out 0xA1 0x01 k;
          k = uart_out 0x21 0x0 k
      in uart_out 0xA1 0x0 k)"

definition pit_init :: "u32 \<Rightarrow> 'a console_scheme \<Rightarrow> 'a console_scheme option" where
  "pit_init freq k =
     (if freq = 0 then None
      else let divisor = 1193180 div freq;
               k = uart_out 0x43 0x36 k;
               k = uart_out 0x40 (ucast (divisor AND 0xFF)) k
           in Some (uart_out 0x40 (ucast (drop_bit 8 divisor AND 0xFF)) k))"

section \<open>The two consoles agree\<close>

lemma vga_entry_green: "vga_entry c term_color = scast (of_char c :: u8) OR 0x0A00"
  by (simp add: vga_entry_def)

lemma terminal_putchar_eq: "terminal_putchar c k = putc_vga c k"
  by (auto simp: terminal_putchar_def terminal_newline_def putc_vga_def Let_def vga_entry_green)

lemma serial_wait32_eq: "serial_wait32 k = serial_wait k"
  by (induction k rule: serial_wait.induct)
    (subst serial_wait32.simps, subst serial_wait.simps, simp split: prod.splits)

lemma serial_putchar_eq: "serial_putchar c k = serial_putc c k"
  by (simp add: serial_putchar_def serial_putc_def serial_wait32_eq)

lemma terminal_writestring_eq: "terminal_writestring s k = kprint s k"
  by (induction s k rule: terminal_writestring.induct)
    (simp_all add: kprint.simps serial_putchar_eq terminal_putchar_eq)

declare terminal_writestring.simps [simp del]

section \<open>Hexadecimal output\<close>

lemma hex32_loop:
  assumes "n \<le> 8" "length buf = 10"
  shows "foldl (\<lambda>(buf, val) i. (buf[9 - i := hex_digits ! unat (val AND 0xF)], drop_bit 4 val)) (buf, v) [0..<n] =
    (take (10 - n) buf @ rev (map (\<lambda>i. hex_digits ! unat (drop_bit (4 * i) v AND 0xF)) [0..<n]), drop_bit (4 * n) (v :: u32))"
  using assms
proof (induction n)
  case (Suc n)
  let ?xs = "take (10 - n) buf" and ?d = "hex_digits ! unat (drop_bit (4 * n) v AND 0xF)"
  have "?xs[9 - n := ?d] = take (9 - n) buf @ [?d]"
    using Suc.prems by (intro nth_equalityI) (auto simp: nth_list_update nth_append)
  then show ?case using Suc by (simp add: list_update_append)
qed simp

lemma hex32_buf_eq:
  "hex32_buf v = ''0x'' @ rev (map (\<lambda>i. hex_digits ! unat (drop_bit (4 * i) v AND 0xF)) [0..<8])"
  unfolding hex32_buf_def by (subst hex32_loop) simp_all

end
