(* ===== verification/Sched32.thy ===== *)
theory Sched32
  imports Terminal32 Memory Ready_Rings
begin

text \<open>
  The cooperative scheduler of the 32-bit kernel (\<open>src/sched.c\<close>, types in \<open>src/kernel.h\<close>, the
  switch itself in \<open>src/context_switch.s\<close>) and the program that runs on it (\<open>src/main.c\<close>). As in
  theory \<open>Sched64\<close> the thread array is a function from indices to records, a pointer into it
  an index or \<open>None\<close>, and the stacks are in memory. There is one processor and no lock. The
  two schedulers share the contract \<open>ready_scheduler\<close> of theory \<open>Ready_Rings\<close>.
\<close>

datatype thread_state = THREAD_UNUSED | THREAD_READY | THREAD_RUNNING | THREAD_SUSPENDED

record thread32 =
  esp :: u32
  priority32 :: nat
  state32 :: thread_state
  time_slice32 :: u32
  name32 :: string
  next32 :: "nat option"

record sched32 = console +
  mem32 :: memory
  threads :: "nat \<Rightarrow> thread32"
  threads_addr :: nat
  thread_count :: nat
  ready_bitmap32 :: u32
  ready_queue32 :: "nat \<Rightarrow> nat option"
  current32 :: "nat option"
  dummy_esp :: u32
  esp_reg :: u32

abbreviation (input) MAX_THREADS :: nat where "MAX_THREADS \<equiv> 16"
abbreviation (input) NUM_PRIORITIES :: nat where "NUM_PRIORITIES \<equiv> 8"
abbreviation (input) STACK_SIZE :: nat where "STACK_SIZE \<equiv> 4096"

text \<open>A \<open>thread_t\<close> takes 4120 bytes, its stack starts at offset 16.\<close>

definition stack_top32 :: "'a sched32_scheme \<Rightarrow> nat \<Rightarrow> nat" where
  "stack_top32 s i = threads_addr s + 4120 * i + 16 + STACK_SIZE"

abbreviation set_thread32 :: "nat \<Rightarrow> (thread32 \<Rightarrow> thread32) \<Rightarrow> 'a sched32_scheme \<Rightarrow> 'a sched32_scheme" where
  "set_thread32 i f s \<equiv> s\<lparr>threads := (threads s)(i := f (threads s i))\<rparr>"

abbreviation nexts32 :: "'a sched32_scheme \<Rightarrow> nat \<Rightarrow> nat option" where
  "nexts32 s \<equiv> (\<lambda>i. next32 (threads s i))"

section \<open>The operations\<close>

definition find_highest_bit :: "u32 \<Rightarrow> int" where
  "find_highest_bit bitmap = (if bitmap = 0 then - 1 else int (highest_from bitmap 31))"

definition sched_init :: "'a sched32_scheme \<Rightarrow> 'a sched32_scheme" where
  "sched_init s =
     (let s = s\<lparr>ready_bitmap32 := 0\<rparr>;
          s = foldl (\<lambda>s i. s\<lparr>ready_queue32 := (ready_queue32 s)(i := None)\<rparr>) s [0..<NUM_PRIORITIES]
      in s\<lparr>current32 := None, thread_count := 0\<rparr>)"

definition initial_stack32 :: "u32 \<Rightarrow> nat \<Rightarrow> memory \<Rightarrow> memory \<times> nat" where
  "initial_stack32 entry_point stop m =
     (let sp = stop - 4; m = write32 m sp entry_point;
          sp = sp - 5 * 4;
          m = foldl (\<lambda>m i. write32 m (sp + 4 * i) 0) m [0..<5]
      in (m, sp))"

text \<open>The search for the tail of the ring may not end (\<open>None\<close>).\<close>

definition sched_create_thread ::
    "u32 \<Rightarrow> nat \<Rightarrow> string \<Rightarrow> 'a sched32_scheme \<Rightarrow> (nat option \<times> 'a sched32_scheme) option" where
  "sched_create_thread entry_point prio name s =
     (if MAX_THREADS \<le> thread_count s \<or> NUM_PRIORITIES \<le> prio then Some (None, s)
      else
        let t = thread_count s;
            s = s\<lparr>thread_count := thread_count s + 1\<rparr>;
            s = set_thread32 t (\<lambda>th. th\<lparr>priority32 := prio, state32 := THREAD_READY, time_slice32 := 5,
                                        name32 := name\<rparr>) s;
            (m, sp) = initial_stack32 entry_point (stack_top32 s t) (mem32 s);
            s = set_thread32 t (\<lambda>th. th\<lparr>esp := of_nat sp\<rparr>) (s\<lparr>mem32 := m\<rparr>)
        in case ready_queue32 s prio of
             None \<Rightarrow>
               let s = set_thread32 t (\<lambda>th. th\<lparr>next32 := Some t\<rparr>) s;
                   s = s\<lparr>ready_queue32 := (ready_queue32 s)(prio := Some t)\<rparr>
               in Some (Some t, s\<lparr>ready_bitmap32 := ready_bitmap32 s OR push_bit prio 1\<rparr>)
           | Some head \<Rightarrow>
               (case ring_tail (nexts32 s) head head of
                  None \<Rightarrow> None
                | Some tail \<Rightarrow>
                    let s = set_thread32 tail (\<lambda>th. th\<lparr>next32 := Some t\<rparr>) s;
                        s = set_thread32 t (\<lambda>th. th\<lparr>next32 := Some head\<rparr>) s
                    in Some (Some t, s\<lparr>ready_bitmap32 := ready_bitmap32 s OR push_bit prio 1\<rparr>)))"

text \<open>
  \<open>context_switch\<close>: the call and the five pushes take 24 bytes, the five pops and the \<open>ret\<close> give
  back 24 on the other stack.
\<close>

definition context_switch :: "nat option \<Rightarrow> u32 \<Rightarrow> 'a sched32_scheme \<Rightarrow> 'a sched32_scheme" where
  "context_switch prev new_esp s =
     (let saved = esp_reg s - 24;
          s = (case prev of
                 Some t \<Rightarrow> set_thread32 t (\<lambda>th. th\<lparr>esp := saved\<rparr>) s
               | None \<Rightarrow> s\<lparr>dummy_esp := saved\<rparr>)
      in s\<lparr>esp_reg := new_esp + 24\<rparr>)"

text \<open>As in the 64-bit scheduler, a set bit without a queue does not occur under \<open>sched32_rep\<close>.\<close>

definition sched_reschedule :: "'a sched32_scheme \<Rightarrow> 'a sched32_scheme" where
  "sched_reschedule s =
     (let prio = find_highest_bit (ready_bitmap32 s)
      in if prio < 0 then s
         else case ready_queue32 s (nat prio) of
                None \<Rightarrow> s
              | Some head \<Rightarrow>
                  let prev = current32 s;
                      (next, s) =
                        (if Some head = prev \<and> next32 (threads s head) \<noteq> Some head
                         then (next32 (threads s head),
                               s\<lparr>ready_queue32 := (ready_queue32 s)(nat prio := next32 (threads s head))\<rparr>)
                         else (Some head, s))
                  in if next = prev then s
                     else
                       let t = the next;
                           s = s\<lparr>current32 := next\<rparr>;
                           s = set_thread32 t (\<lambda>th. th\<lparr>state32 := THREAD_RUNNING\<rparr>) s;
                           s = (case prev of None \<Rightarrow> s
                                | Some q \<Rightarrow> set_thread32 q (\<lambda>th. th\<lparr>state32 := THREAD_READY\<rparr>) s)
                       in context_switch prev (esp (threads s t)) s)"

definition sched_yield :: "'a sched32_scheme \<Rightarrow> 'a sched32_scheme" where
  "sched_yield s = sched_reschedule s"

definition sched_current :: "'a sched32_scheme \<Rightarrow> nat option" where
  "sched_current s = current32 s"

definition sched_timer_tick :: "'a sched32_scheme \<Rightarrow> 'a sched32_scheme" where
  "sched_timer_tick s =
     (case current32 s of
        None \<Rightarrow> s
      | Some c \<Rightarrow>
          if time_slice32 (threads s c) > 0
          then let s = set_thread32 c (\<lambda>th. th\<lparr>time_slice32 := time_slice32 th - 1\<rparr>) s
               in if time_slice32 (threads s c) = 0
                  then sched_reschedule (set_thread32 c (\<lambda>th. th\<lparr>time_slice32 := 5\<rparr>) s)
                  else s
          else s)"

section \<open>The queues\<close>

definition sched32_rep :: "'a sched32_scheme \<Rightarrow> (nat \<Rightarrow> nat list) \<Rightarrow> bool" where
  "sched32_rep s R \<longleftrightarrow>
     queues_rep (ready_bitmap32 s) (ready_queue32 s) (nexts32 s) (\<lambda>x. priority32 (threads s x)) (thread_count s) R"

lemma sched32_rep_cong:
  assumes "sched32_rep s R" "ready_bitmap32 t = ready_bitmap32 s" "ready_queue32 t = ready_queue32 s"
    "\<And>x. next32 (threads t x) = next32 (threads s x)"
    "\<And>x. priority32 (threads t x) = priority32 (threads s x)"
    "thread_count t = thread_count s"
  shows "sched32_rep t R"
  using assms unfolding sched32_rep_def by simp

lemma sched32_rep_top:
  assumes "sched32_rep s R" "top_queue R q" "R q = x # xs"
  shows "find_highest_bit (ready_bitmap32 s) = int q" "ready_queue32 s q = Some x"
    "next32 (threads s x) = Some (hd (xs @ [x]))" "q < NUM_PRIORITIES" "distinct (x # xs)"
  using queues_rep_top [OF assms(1) [unfolded sched32_rep_def] assms(2,3)] by (simp_all add: find_highest_bit_def)

lemma context_switch_fields [simp, frame_simps]:
  "ready_bitmap32 (context_switch prev r s) = ready_bitmap32 s"
  "ready_queue32 (context_switch prev r s) = ready_queue32 s"
  "current32 (context_switch prev r s) = current32 s" "thread_count (context_switch prev r s) = thread_count s"
  "mem32 (context_switch prev r s) = mem32 s" "esp_reg (context_switch prev r s) = r + 24"
  "threads (context_switch prev r s) =
    (case prev of None \<Rightarrow> threads s | Some t \<Rightarrow> (threads s)(t := (threads s t)\<lparr>esp := esp_reg s - 24\<rparr>))"
  by (simp_all add: context_switch_def Let_def split: option.splits)

text \<open>The three outcomes of \<open>sched_reschedule\<close>.\<close>

lemma reschedule32_pick:
  assumes "sched32_rep s R" "top_queue R q" "R q = x # xs" "current32 s \<noteq> Some x"
  defines "u \<equiv> sched_reschedule s"
  shows "ready_bitmap32 u = ready_bitmap32 s" "ready_queue32 u = ready_queue32 s"
    "\<And>i. next32 (threads u i) = next32 (threads s i)" "\<And>i. priority32 (threads u i) = priority32 (threads s i)"
    "thread_count u = thread_count s" "current32 u = Some x" "state32 (threads u x) = THREAD_RUNNING"
    "esp_reg u = esp (threads s x) + 24"
  using sched32_rep_top [OF assms(1-3)] assms(4) unfolding u_def sched_reschedule_def
  by (simp_all add: Let_def split: option.splits)

lemma reschedule32_alone:
  assumes "sched32_rep s R" "top_queue R q" "R q = [x]" "current32 s = Some x"
  shows "sched_reschedule s = s"
  using sched32_rep_top [OF assms(1-3)] assms(4) unfolding sched_reschedule_def by (simp add: Let_def)

lemma reschedule32_empty: "ready_bitmap32 s = 0 \<Longrightarrow> sched_reschedule s = s"
  by (simp add: sched_reschedule_def Let_def find_highest_bit_def)

lemma reschedule32_rotate:
  assumes "sched32_rep s R" "top_queue R q" "R q = x # y # ys" "current32 s = Some x"
  defines "u \<equiv> sched_reschedule s"
  shows "ready_bitmap32 u = ready_bitmap32 s" "ready_queue32 u = (ready_queue32 s)(q \<mapsto> y)"
    "\<And>i. next32 (threads u i) = next32 (threads s i)" "\<And>i. priority32 (threads u i) = priority32 (threads s i)"
    "thread_count u = thread_count s" "current32 u = Some y" "state32 (threads u y) = THREAD_RUNNING"
    "state32 (threads u x) = THREAD_READY" "esp_reg u = esp (threads s y) + 24"
    "esp (threads u x) = esp_reg s - 24"
proof -
  have xy: "x \<noteq> y" using sched32_rep_top(5) [OF assms(1-3)] by simp
  show "ready_bitmap32 u = ready_bitmap32 s" "ready_queue32 u = (ready_queue32 s)(q \<mapsto> y)"
    "\<And>i. next32 (threads u i) = next32 (threads s i)" "\<And>i. priority32 (threads u i) = priority32 (threads s i)"
    "thread_count u = thread_count s" "current32 u = Some y" "state32 (threads u y) = THREAD_RUNNING"
    "state32 (threads u x) = THREAD_READY" "esp_reg u = esp (threads s y) + 24"
    "esp (threads u x) = esp_reg s - 24"
    using sched32_rep_top [OF assms(1-3)] assms(4) xy
    unfolding u_def sched_reschedule_def by (simp_all add: Let_def)
qed

lemma sched32_rep_rotate:
  assumes rep: "sched32_rep s R" and x: "R q = x # y # ys" and t: "ready_bitmap32 t = ready_bitmap32 s"
    "ready_queue32 t = (ready_queue32 s)(q \<mapsto> y)" "\<And>i. next32 (threads t i) = next32 (threads s i)"
    "\<And>i. priority32 (threads t i) = priority32 (threads s i)" "thread_count t = thread_count s"
  shows "sched32_rep t (R(q := y # ys @ [x]))"
  using queues_rep_rotate [OF rep [unfolded sched32_rep_def] x] by (simp add: sched32_rep_def t)

interpretation rr32: ready_scheduler sched32_rep current32 sched_reschedule
proof
  fix s :: "'a sched32_scheme" and R q x xs
  assume rep: "sched32_rep s R"
  show "sched32_rep (sched_reschedule s) R \<and> current32 (sched_reschedule s) = current32 s" if "\<And>q. R q = []"
  proof -
    have "ready_bitmap32 s = 0" using rep that unfolding sched32_rep_def by (rule queues_rep_empty)
    then show ?thesis using rep by (simp add: reschedule32_empty)
  qed
  assume top: "top_queue R q" and x: "R q = x # xs"
  show "sched32_rep (sched_reschedule s) R \<and> current32 (sched_reschedule s) = Some x"
    if "current32 s \<noteq> Some x"
    using reschedule32_pick [OF rep top x that] by (auto intro: sched32_rep_cong [OF rep])
  show "sched32_rep (sched_reschedule s) (R(q := xs @ [x])) \<and>
      current32 (sched_reschedule s) = Some (hd (xs @ [x]))"
    if cur: "current32 s = Some x"
  proof (cases xs)
    case Nil
    then have "R(q := xs @ [x]) = R" using x by auto
    then show ?thesis using reschedule32_alone [OF rep top _ cur] x Nil cur rep by simp
  next
    case (Cons y ys)
    note r = reschedule32_rotate [OF rep top x [unfolded Cons] cur]
    show ?thesis using sched32_rep_rotate [OF rep x [unfolded Cons] r(1-5)] r(6) by (simp add: Cons)
  qed
qed

end
