(* ===== verification/Kernel32.thy ===== *)
theory Kernel32
  imports Sched32
begin

text \<open>
  The 32-bit kernel as a whole (\<open>src/main.c\<close>). Interrupts are never enabled in it, so its
  execution is a sequence: \<open>kernel_main\<close> sets up the console, the timer and three threads and
  makes the first \<open>sched_reschedule\<close>, which does not return; from then on the current thread makes
  one pass through its loop and yields. \<open>pass_a\<close>, \<open>pass_b\<close> and \<open>pass_c\<close> are the loop bodies up to the
  call of \<open>sched_yield\<close>, without the empty delay loop. A thread runs the function whose address
  \<open>sched_create_thread\<close> put on its stack; \<open>kernel_main\<close> creates them in the order A, B, C.
\<close>

record kernel32 = sched32 +
  counter_a :: u32
  counter_b :: u32
  counter_c :: u32

definition pass_a :: "'a kernel32_scheme \<Rightarrow> 'a kernel32_scheme" where
  "pass_a s =
     (let s = s\<lparr>counter_a := counter_a s + 1\<rparr>;
          s = terminal_writestring ''[A] tick '' s;
          s = terminal_write_hex (counter_a s) s
      in terminal_writestring [nl] s)"

definition pass_b :: "'a kernel32_scheme \<Rightarrow> 'a kernel32_scheme" where
  "pass_b s =
     (let s = s\<lparr>counter_b := counter_b s + 1\<rparr>;
          s = terminal_writestring ''  [B] tick '' s;
          s = terminal_write_hex (counter_b s) s
      in terminal_writestring [nl] s)"

definition pass_c :: "'a kernel32_scheme \<Rightarrow> 'a kernel32_scheme" where
  "pass_c s =
     (let s = s\<lparr>counter_c := counter_c s + 1\<rparr>;
          s = terminal_writestring ''    [C low-prio] tick '' s;
          s = terminal_write_hex (counter_c s) s
      in terminal_writestring [nl] s)"

definition run_slice :: "'a kernel32_scheme \<Rightarrow> 'a kernel32_scheme" where
  "run_slice s =
     (case current32 s of
        None \<Rightarrow> s
      | Some t \<Rightarrow> if t = 0 then sched_yield (pass_a s) else if t = 1 then sched_yield (pass_b s)
                 else sched_yield (pass_c s))"

text \<open>The arguments are the addresses of the thread functions and the boot loader's magic number.\<close>

definition kernel_main :: "u32 \<Rightarrow> u32 \<Rightarrow> u32 \<Rightarrow> u32 \<Rightarrow> 'a kernel32_scheme \<Rightarrow> 'a kernel32_scheme option" where
  "kernel_main fn_a fn_b fn_c magic s =
     (let s = terminal_init s;
          s = terminal_writestring (''========================================'' @ [nl]) s;
          s = terminal_writestring (''   NEKA '' @ [CHR 0xE2, CHR 0x80, CHR 0x94] @ '' New EKA (bitmap scheduler)   '' @ [nl]) s;
          s = terminal_writestring (''========================================'' @ [nl]) s;
          s = (if magic \<noteq> 0x2BADB002
               then terminal_writestring (''WARNING: not booted by multiboot loader!'' @ [nl]) s else s);
          s = pic_remap s
      in Option.bind (timer_init 100 s) (\<lambda>s.
         Option.bind (sched_create_thread fn_a 5 ''ThreadA'' (sched_init s)) (\<lambda>(_, s).
         Option.bind (sched_create_thread fn_b 5 ''ThreadB'' s) (\<lambda>(_, s).
         Option.bind (sched_create_thread fn_c 2 ''ThreadC-low'' s) (\<lambda>(_, s).
           Some (sched_reschedule (terminal_writestring (''Starting scheduler...'' @ [nl, nl]) s)))))))"

section \<open>Output leaves the scheduler alone\<close>

lemma writestring_sched [simp, frame_simps]:
  "threads (terminal_writestring t s) = threads s" "thread_count (terminal_writestring t s) = thread_count s"
  "ready_bitmap32 (terminal_writestring t s) = ready_bitmap32 s"
  "ready_queue32 (terminal_writestring t s) = ready_queue32 s" "current32 (terminal_writestring t s) = current32 s"
  "mem32 (terminal_writestring t s) = mem32 s" "threads_addr (terminal_writestring t s) = threads_addr s"
  using kprint_frame [of t s] by (auto simp: terminal_writestring_eq)

lemma writestring_counters [simp, frame_simps]:
  "counter_a (terminal_writestring t s) = counter_a s" "counter_b (terminal_writestring t s) = counter_b s"
  "counter_c (terminal_writestring t s) = counter_c s"
  using kprint_frame [of t s] by (auto simp: terminal_writestring_eq)

lemma sched32_rep_writestring [simp]: "sched32_rep (terminal_writestring t s) R = sched32_rep s R"
  by (simp add: sched32_rep_def)

lemma counters_reschedule [simp, frame_simps]:
  "counter_a (sched_reschedule s) = counter_a s" "counter_b (sched_reschedule s) = counter_b s"
  "counter_c (sched_reschedule s) = counter_c s"
  by (simp_all add: sched_reschedule_def context_switch_def Let_def split: option.splits)

lemma uart_reschedule [simp, frame_simps]: "uart_log (sched_reschedule s) = uart_log s"
  by (simp add: sched_reschedule_def context_switch_def Let_def split: option.splits)

section \<open>Creating threads\<close>

lemma initial_stack32_words:
  assumes "24 \<le> stop" "initial_stack32 e stop m = (m', sp)"
  shows "sp = stop - 24" "read32 m' (sp + 20) = e" "\<And>i. i < 5 \<Longrightarrow> read32 m' (sp + 4 * i) = 0"
    "\<And>x. x < stop - 24 \<or> stop \<le> x \<Longrightarrow> m' x = m x"
proof -
  define b where "b = stop - 24"
  have b: "stop = b + 24" using assms(1) by (simp add: b_def)
  have run: "initial_stack32 e stop m = (foldl (\<lambda>m i. write32 m (b + 4 * i) 0) (write32 m (b + 20) e) [0..<5], b)"
    by (simp add: initial_stack32_def Let_def b add.commute)
  have fold: "[0..<5] = [0, 1, 2, 3, 4]" by (simp add: upt_rec)
  note m' = assms(2) [unfolded run fold, simplified]
  show "sp = stop - 24" using m' b by simp
  show "read32 m' (sp + 4 * i) = 0" if "i < 5" for i
  proof -
    have "i = 0 \<or> i = 1 \<or> i = 2 \<or> i = 3 \<or> i = 4" using that by auto
    then show ?thesis using m' by (elim disjE) (auto simp: mem_simps)
  qed
  show "read32 m' (sp + 20) = e" using m' by (auto simp: mem_simps)
  show "m' x = m x" if "x < stop - 24 \<or> stop \<le> x" for x
    using m' that b by (auto simp: mem_simps)
qed

lemma create_thread32_ok:
  assumes rep: "sched32_rep s R" and t: "t = thread_count s" "t < MAX_THREADS" and q: "q < NUM_PRIORITIES"
  obtains s' where "sched_create_thread e q name s = Some (Some t, s')"
    "sched32_rep s' (R(q := R q @ [t]))" "thread_count s' = Suc t" "current32 s' = current32 s"
    "state32 (threads s' t) = THREAD_READY" "esp (threads s' t) = of_nat (stack_top32 s t - 24)"
    "read32 (mem32 s') (stack_top32 s t - 4) = e" "uart_log s' = uart_log s"
proof -
  let ?top = "stack_top32 s t"
  have top: "24 \<le> ?top" by (simp add: stack_top32_def)
  obtain m sp where st: "initial_stack32 e ?top (mem32 s) = (m, sp)" by fastforce
  note words = initial_stack32_words [OF top st]
  define th where "th = (threads s t)\<lparr>priority32 := q, state32 := THREAD_READY, time_slice32 := 5, name32 := name,
      esp := of_nat sp\<rparr>"
  define u where "u = s\<lparr>thread_count := Suc t, threads := (threads s)(t := th), mem32 := m\<rparr>"
  define w where "w = (if R q = []
      then (set_thread32 t (\<lambda>th. th\<lparr>next32 := Some t\<rparr>) u)
         \<lparr>ready_queue32 := (ready_queue32 u)(q \<mapsto> t), ready_bitmap32 := ready_bitmap32 u OR push_bit q 1\<rparr>
      else (set_thread32 t (\<lambda>th. th\<lparr>next32 := Some (hd (R q))\<rparr>)
              (set_thread32 (last (R q)) (\<lambda>th. th\<lparr>next32 := Some t\<rparr>) u))
             \<lparr>ready_bitmap32 := ready_bitmap32 u OR push_bit q 1\<rparr>)"
  note rep' = rep [unfolded sched32_rep_def]
  have rq: "ready_queue32 s q = (case R q of [] \<Rightarrow> None | x # _ \<Rightarrow> Some x)"
    using rep' q by (rule queues_rep_head)
  have nu: "nexts32 u = nexts32 s" by (auto simp: u_def th_def)
  have tail: "ring_tail (nexts32 u) (hd (R q)) (hd (R q)) = Some (last (R q))" if "R q \<noteq> []"
    unfolding nu using rep' that by (rule queues_rep_tail)
  have lt: "R q \<noteq> [] \<Longrightarrow> last (R q) \<noteq> t" using queues_rep_new [OF rep', of q] t(1) by (metis last_in_set)
  have run: "sched_create_thread e q name s =
      (case ready_queue32 u q of
         None \<Rightarrow> Some (Some t, (set_thread32 t (\<lambda>th. th\<lparr>next32 := Some t\<rparr>) u)
             \<lparr>ready_queue32 := (ready_queue32 u)(q \<mapsto> t), ready_bitmap32 := ready_bitmap32 u OR push_bit q 1\<rparr>)
       | Some head \<Rightarrow>
           (case ring_tail (nexts32 u) head head of None \<Rightarrow> None
            | Some tail \<Rightarrow> Some (Some t,
                (set_thread32 t (\<lambda>th. th\<lparr>next32 := Some head\<rparr>)
                  (set_thread32 tail (\<lambda>th. th\<lparr>next32 := Some t\<rparr>) u))\<lparr>ready_bitmap32 := ready_bitmap32 u OR push_bit q 1\<rparr>)))"
    unfolding sched_create_thread_def using t q st
    by (simp add: Let_def u_def th_def stack_top32_def split: option.splits)
  have go: "sched_create_thread e q name s = Some (Some t, w)"
    using run rq tail by (cases "R q") (simp_all add: u_def w_def)
  show ?thesis
  proof (rule that [OF go])
    have nx: "nexts32 w = (if R q = [] then (nexts32 s)(t \<mapsto> t) else (nexts32 s)(last (R q) \<mapsto> t, t \<mapsto> hd (R q)))"
      using lt by (auto simp: w_def u_def th_def fun_eq_iff)
    have qu: "ready_queue32 w = (ready_queue32 s)(q \<mapsto> hd (R q @ [t]))"
      using rq by (cases "R q") (auto simp: w_def u_def)
    have pr: "priority32 (threads w t) = q" "\<And>i. i \<noteq> t \<Longrightarrow> priority32 (threads w i) = priority32 (threads s i)"
      using lt by (auto simp: w_def u_def th_def)
    have bc: "ready_bitmap32 w = ready_bitmap32 s OR push_bit q 1" "thread_count w = Suc t"
      by (simp_all add: w_def u_def)
    show "sched32_rep w (R(q := R q @ [t]))"
      unfolding sched32_rep_def bc qu by (rule queues_rep_append [OF rep' [folded t(1)] q t(2) pr(2,1) nx])
    show "read32 (mem32 w) (?top - 4) = e" using words(1,2) top by (simp add: w_def u_def)
    show "esp (threads w t) = of_nat (?top - 24)" using lt words(1) by (auto simp: w_def u_def th_def)
  qed (use lt in \<open>auto simp: w_def u_def th_def\<close>)
qed

section \<open>The run\<close>

lemma writestring_uart: "CHR 0x00 \<notin> set t \<Longrightarrow> uart_log (terminal_writestring t s) = uart_log s @ serial t"
  unfolding terminal_writestring_eq by (rule kprint_plain)

lemma hex32_no_nul: "CHR 0x00 \<notin> set (hex32_buf v)"
proof -
  have "hex_digits ! unat (x AND 0xF) \<in> set hex_digits" for x :: u32
  proof -
    have "unat (x AND 0xF) < 16" using word_and_le1 [of x "0xF"] by (simp add: word_le_nat_alt)
    then show ?thesis by (intro nth_mem) simp
  qed
  then have "set (rev (map (\<lambda>i. hex_digits ! unat (drop_bit (4 * i) v AND 0xF)) [0..<8])) \<subseteq> set hex_digits"
    by (simp only: set_rev set_map image_subset_iff) blast
  then show ?thesis unfolding hex32_buf_eq by auto
qed

definition line_a :: "u32 \<Rightarrow> string" where "line_a n = ''[A] tick '' @ hex32_buf n @ [nl]"
definition line_b :: "u32 \<Rightarrow> string" where "line_b n = ''  [B] tick '' @ hex32_buf n @ [nl]"

lemma pass_uart:
  "uart_log (pass_a s) = uart_log s @ serial (line_a (counter_a s + 1))"
  "uart_log (pass_b s) = uart_log s @ serial (line_b (counter_b s + 1))"
  by (simp_all add: pass_a_def pass_b_def Let_def terminal_write_hex_def writestring_uart hex32_no_nul
      line_a_def line_b_def serial_def)

lemma pass_fields [simp]:
  "current32 (pass_a s) = current32 s" "current32 (pass_b s) = current32 s"
  "sched32_rep (pass_a s) R = sched32_rep s R" "sched32_rep (pass_b s) R = sched32_rep s R"
  "counter_a (pass_a s) = counter_a s + 1" "counter_b (pass_a s) = counter_b s" "counter_c (pass_a s) = counter_c s"
  "counter_a (pass_b s) = counter_a s" "counter_b (pass_b s) = counter_b s + 1" "counter_c (pass_b s) = counter_c s"
  by (simp_all add: pass_a_def pass_b_def Let_def terminal_write_hex_def)
    (simp_all add: sched32_rep_def)

text \<open>Two slices: A, then B, and the queue is back where it was.\<close>

lemma two_slices:
  assumes rep: "sched32_rep s R" and q: "top_queue R q" "R q = [0, 1]" and cur: "current32 s = Some 0"
  defines "u \<equiv> run_slice (run_slice s)"
  shows "sched32_rep u R" "current32 u = Some 0" "current32 (run_slice s) = Some 1"
    "counter_a u = counter_a s + 1" "counter_b u = counter_b s + 1" "counter_c u = counter_c s"
    "uart_log u = uart_log s @ serial (line_a (counter_a s + 1)) @ serial (line_b (counter_b s + 1))"
proof -
  have 1: "run_slice s = sched_reschedule (pass_a s)" using cur by (simp add: run_slice_def sched_yield_def)
  have "sched32_rep (sched_reschedule (pass_a s)) (R(q := [1] @ [0])) \<and>
      current32 (sched_reschedule (pass_a s)) = Some (hd ([1] @ [0]))"
    by (rule rr32.resched_rotate [OF _ q(1)]) (use rep q cur in simp_all)
  then have s1: "sched32_rep (run_slice s) (R(q := [1, 0]))" "current32 (run_slice s) = Some 1" by (simp_all add: 1)
  then have 2: "u = sched_reschedule (pass_b (run_slice s))" by (simp add: u_def run_slice_def sched_yield_def)
  have "sched32_rep u ((R(q := [1, 0]))(q := [0] @ [1])) \<and> current32 u = Some (hd ([0] @ [1]))"
    unfolding 2 by (rule rr32.resched_rotate) (use s1 q in \<open>simp_all add: top_queue_def\<close>)
  moreover have "(R(q := [1, 0]))(q := [0] @ [1]) = R" using q(2) by auto
  ultimately show "sched32_rep u R" "current32 u = Some 0" by simp_all
  show "current32 (run_slice s) = Some 1" by (rule s1(2))
  show "counter_a u = counter_a s + 1" "counter_b u = counter_b s + 1" "counter_c u = counter_c s"
    by (simp_all add: 2 1)
  show "uart_log u = uart_log s @ serial (line_a (counter_a s + 1)) @ serial (line_b (counter_b s + 1))"
    by (simp add: 2 1 pass_uart)
qed

section \<open>Set-up\<close>

lemma terminal_init_frame:
  "\<exists>v l. terminal_init k = k\<lparr>uart_log := l, vga := v, term_row := 0, term_col := 0\<rparr>"
  by (simp add: terminal_init_def fold_vga2 Let_def serial_init32_def uart_out_def) blast

lemma pic_timer_frame:
  "\<exists>l u. timer_init 100 (pic_remap k) = Some u \<and> u = k\<lparr>uart_log := l\<rparr>"
  by (simp add: timer_init_def pic_remap_def uart_out_def Let_def) blast

lemma create_counters:
  "sched_create_thread e q name s = Some (r, u) \<Longrightarrow>
     counter_a u = counter_a s \<and> counter_b u = counter_b s \<and> counter_c u = counter_c s"
  by (auto simp: sched_create_thread_def Let_def split: if_splits prod.splits option.splits)

lemma sched_init_eq:
  "sched_init s = s\<lparr>ready_bitmap32 := 0, ready_queue32 := (\<lambda>i. if i < 8 then None else ready_queue32 s i),
     current32 := None, thread_count := 0\<rparr>"
proof -
  have clear: "foldl (\<lambda>s i. s\<lparr>ready_queue32 := (ready_queue32 s)(i := None)\<rparr>) s is =
      s\<lparr>ready_queue32 := (\<lambda>i. if i \<in> set is then None else ready_queue32 s i)\<rparr>" for s :: "'a sched32_scheme" and "is"
    by (induction "is" arbitrary: s) (auto simp: fun_eq_iff)
  have "ready_queue32 (s\<lparr>ready_bitmap32 := 0\<rparr>) = ready_queue32 s" by simp
  then show ?thesis unfolding sched_init_def Let_def clear by (simp only:) simp
qed

lemma sched_init_rep: "sched32_rep (sched_init s) (\<lambda>_. [])" "current32 (sched_init s) = None"
    "thread_count (sched_init s) = 0"
  unfolding sched32_rep_def by (rule queues_rep_none; simp add: sched_init_eq) (simp_all add: sched_init_eq)

lemma kernel_main_boots:
  obtains s0 where "kernel_main fn_a fn_b fn_c magic s = Some s0"
    "sched32_rep s0 ((\<lambda>_. [])(5 := [0, 1], 2 := [2]))" "current32 s0 = Some 0"
    "counter_a s0 = counter_a s" "counter_b s0 = counter_b s" "counter_c s0 = counter_c s"
proof -
  let ?w = terminal_writestring
  define s1 where "s1 = ?w (''========================================'' @ [nl])
    (?w (''   NEKA '' @ [CHR 0xE2, CHR 0x80, CHR 0x94] @ '' New EKA (bitmap scheduler)   '' @ [nl])
      (?w (''========================================'' @ [nl]) (terminal_init s)))"
  define s2 where "s2 = (if magic \<noteq> 0x2BADB002
      then ?w (''WARNING: not booted by multiboot loader!'' @ [nl]) s1 else s1)"
  have c2: "counter_a s2 = counter_a s" "counter_b s2 = counter_b s" "counter_c s2 = counter_c s"
    using terminal_init_frame [of s] by (auto simp: s2_def s1_def)
  obtain l s3 where 3: "timer_init 100 (pic_remap s2) = Some s3" "s3 = s2\<lparr>uart_log := l\<rparr>"
    using pic_timer_frame by blast
  let ?s = "sched_init s3"
  have cs: "counter_a ?s = counter_a s" "counter_b ?s = counter_b s" "counter_c ?s = counter_c s"
    using c2 by (simp_all add: sched_init_eq 3(2))
  obtain a where a: "sched_create_thread fn_a 5 ''ThreadA'' ?s = Some (Some 0, a)"
      "sched32_rep a ((\<lambda>_. [])(5 := [] @ [0]))" "thread_count a = 1" "current32 a = None"
    by (rule create_thread32_ok [OF sched_init_rep(1), of 0 s3 5 fn_a "''ThreadA''"]) (simp_all add: sched_init_rep)
  obtain b where b: "sched_create_thread fn_b 5 ''ThreadB'' a = Some (Some 1, b)"
      "sched32_rep b ((\<lambda>_. [])(5 := [0, 1]))" "thread_count b = 2" "current32 b = None"
    by (rule create_thread32_ok [OF a(2), of 1 5 fn_b "''ThreadB''"]) (use a in simp_all)
  obtain c where c: "sched_create_thread fn_c 2 ''ThreadC-low'' b = Some (Some 2, c)"
      "sched32_rep c ((\<lambda>_. [])(5 := [0, 1], 2 := [2]))" "current32 c = None"
    by (rule create_thread32_ok [OF b(2), of 2 2 fn_c "''ThreadC-low''"]) (use b in simp_all)
  let ?c = "?w (''Starting scheduler...'' @ [nl, nl]) c"
  have top: "top_queue ((\<lambda>_. [])(5 := [0, 1], 2 := [2])) 5" by (simp add: top_queue_def)
  have go: "sched32_rep (sched_reschedule ?c) ((\<lambda>_. [])(5 := [0, 1], 2 := [2])) \<and> current32 (sched_reschedule ?c) = Some 0"
    by (rule rr32.resched_pick [OF _ top]) (use c in simp_all)
  have run: "kernel_main fn_a fn_b fn_c magic s = Some (sched_reschedule ?c)"
    unfolding kernel_main_def Let_def s1_def [symmetric] s2_def [symmetric] using 3(1) a(1) b(1) c(1) by simp
  show ?thesis
    by (rule that [OF run]) (use go cs create_counters [OF a(1)] create_counters [OF b(1)] create_counters [OF c(1)] in simp_all)
qed

section \<open>Properties\<close>

text \<open>C28. The 32-bit console is the 64-bit one: \<open>terminal_writestring\<close> has exactly the effect of
  \<open>kprint\<close>, on the screen, the cursor and the serial port, for every string and in every state.\<close>

theorem terminal_writestring_is_kprint: "terminal_writestring t s = kprint t s"
  by (rule terminal_writestring_eq)

text \<open>C11. The 32-bit kernel runs as it was meant to. \<open>kernel_main\<close> sets everything up and starts
  thread A; from then on A and B take turns for ever: after \<open>2 * n\<close> passes it is A's turn, then B's,
  both counters are at \<open>n\<close> (modulo their width), the serial port has carried the lines of A and B
  in alternation, numbered from 1, and the thread of low priority has never run.\<close>

theorem kernel32_alternates:
  assumes "counter_a s = 0" "counter_b s = 0" "counter_c s = 0"
  shows "\<exists>s0. kernel_main fn_a fn_b fn_c magic s = Some s0 \<and>
    (\<forall>n. let u = (run_slice ^^ (2 * n)) s0 in
       current32 u = Some 0 \<and> current32 (run_slice u) = Some 1 \<and>
       counter_a u = of_nat n \<and> counter_b u = of_nat n \<and> counter_c u = 0 \<and>
       uart_log u = uart_log s0 @
         concat (map (\<lambda>i. serial (line_a (of_nat (Suc i))) @ serial (line_b (of_nat (Suc i)))) [0..<n]))"
proof -
  obtain s0 where s0: "kernel_main fn_a fn_b fn_c magic s = Some s0"
      "sched32_rep s0 ((\<lambda>_. [])(5 := [0, 1], 2 := [2]))" "current32 s0 = Some 0"
      "counter_a s0 = 0" "counter_b s0 = 0" "counter_c s0 = 0"
    using kernel_main_boots [of fn_a fn_b fn_c magic s] assms by metis
  define R where "R = (\<lambda>_ :: nat. [])(5 := [0, 1], 2 := [2 :: nat])"
  have top: "top_queue R 5" "R 5 = [0, 1]" by (simp_all add: top_queue_def R_def)
  note s0 = s0(1) s0(2) [folded R_def] s0(3-6)
  have inv: "sched32_rep ((run_slice ^^ (2 * n)) s0) R \<and> current32 ((run_slice ^^ (2 * n)) s0) = Some 0 \<and>
      counter_a ((run_slice ^^ (2 * n)) s0) = of_nat n \<and> counter_b ((run_slice ^^ (2 * n)) s0) = of_nat n \<and>
      counter_c ((run_slice ^^ (2 * n)) s0) = 0 \<and> uart_log ((run_slice ^^ (2 * n)) s0) = uart_log s0 @
         concat (map (\<lambda>i. serial (line_a (of_nat (Suc i))) @ serial (line_b (of_nat (Suc i)))) [0..<n])" for n
  proof (induction n)
    case 0
    then show ?case using s0 by simp
  next
    case (Suc n)
    let ?u = "(run_slice ^^ (2 * n)) s0"
    have u: "(run_slice ^^ (2 * Suc n)) s0 = run_slice (run_slice ?u)" by simp
    note two = two_slices [OF conjunct1 [OF Suc] top conjunct1 [OF conjunct2 [OF Suc]]]
    show ?case unfolding u using two Suc by (simp add: add.commute)
  qed
  have "current32 (run_slice ((run_slice ^^ (2 * n)) s0)) = Some 1" for n
    using two_slices(3) [OF conjunct1 [OF inv] top conjunct1 [OF conjunct2 [OF inv]]] .
  then show ?thesis using s0(1) inv by (simp add: Let_def)
qed

definition blank_kernel32 :: kernel32 where
  "blank_kernel32 = console.extend blank_console
     \<lparr>mem32 = (\<lambda>_. 0), threads = (\<lambda>_. \<lparr>esp = 0, priority32 = 0, state32 = THREAD_UNUSED, time_slice32 = 0,
        name32 = '''', next32 = None\<rparr>), threads_addr = 0x100000, thread_count = 0, ready_bitmap32 = 0,
      ready_queue32 = (\<lambda>_. None), current32 = None, dummy_esp = 0, esp_reg = 0x90000,
      counter_a = 0, counter_b = 0, counter_c = 0\<rparr>"

theorem kernel32_alternates_witness:
  "\<exists>s0. kernel_main 0x1000 0x2000 0x3000 0x2BADB002 blank_kernel32 = Some s0 \<and>
     counter_a ((run_slice ^^ 6) s0) = 3 \<and> counter_c ((run_slice ^^ 6) s0) = 0"
proof -
  have z: "counter_a blank_kernel32 = 0" "counter_b blank_kernel32 = 0" "counter_c blank_kernel32 = 0"
    by (simp_all add: blank_kernel32_def console.defs)
  obtain s0 where s0: "kernel_main 0x1000 0x2000 0x3000 0x2BADB002 blank_kernel32 = Some s0"
      "\<forall>n. counter_a ((run_slice ^^ (2 * n)) s0) = of_nat n \<and> counter_c ((run_slice ^^ (2 * n)) s0) = 0"
    using kernel32_alternates [OF z, of "0x1000" "0x2000" "0x3000" "0x2BADB002"] by (auto simp: Let_def)
  then show ?thesis using s0(2) [THEN spec, of 3] by (intro exI [of _ s0]) simp
qed

end
