(* ===== verification/Context_Switch32.thy ===== *)
theory Context_Switch32
  imports Kernel32
begin

text \<open>
  The 32-bit context switch (\<open>src/context_switch.s\<close>) instruction by instruction: the frame pointer, the five pushes, the
  two arguments read from the caller's stack, the exchange of stack pointers, the five pops and the \<open>ret\<close>. Theory \<open>Sched32\<close>
  uses only the movement of the stack pointers; here the saved context is followed, and the stack that
  \<open>sched_create_thread\<close> prepares is executed.
\<close>

record regs32 =
  e_eip :: u32
  e_esp :: u32
  e_ebp :: u32
  e_ebx :: u32
  e_esi :: u32
  e_edi :: u32
  e_eax :: u32

type_synonym machine32 = "regs32 \<times> memory"

section \<open>The routine\<close>

definition push32 :: "u32 \<Rightarrow> machine32 \<Rightarrow> machine32" where
  "push32 v = (\<lambda>(r, m). let sp = e_esp r - 4 in (r\<lparr>e_esp := sp\<rparr>, write32 m (unat sp) v))"

definition pop32 :: "((u32 \<Rightarrow> u32) \<Rightarrow> regs32 \<Rightarrow> regs32) \<Rightarrow> machine32 \<Rightarrow> machine32" where
  "pop32 upd = (\<lambda>(r, m). (upd (\<lambda>_. read32 m (unat (e_esp r))) (r\<lparr>e_esp := e_esp r + 4\<rparr>), m))"

definition switch32_pops :: "machine32 \<Rightarrow> machine32" where
  "switch32_pops c =
     (let c = pop32 e_ebp_update c;
          c = pop32 e_edi_update c;
          c = pop32 e_esi_update c;
          c = pop32 e_ebx_update c;
          c = pop32 e_ebp_update c
      in pop32 e_eip_update c)"

definition context_switch_code :: "machine32 \<Rightarrow> machine32" where
  "context_switch_code c =
     (let c = push32 (e_ebp (fst c)) c;
          c = ((fst c)\<lparr>e_ebp := e_esp (fst c)\<rparr>, snd c);
          c = push32 (e_ebx (fst c)) c;
          c = push32 (e_esi (fst c)) c;
          c = push32 (e_edi (fst c)) c;
          c = push32 (e_ebp (fst c)) c;
          c = ((fst c)\<lparr>e_eax := read32 (snd c) (unat (e_ebp (fst c) + 8))\<rparr>, snd c);
          c = (fst c, write32 (snd c) (unat (e_eax (fst c))) (e_esp (fst c)));
          c = ((fst c)\<lparr>e_esp := read32 (snd c) (unat (e_ebp (fst c) + 12))\<rparr>, snd c)
      in switch32_pops c)"

section \<open>Effect of the two halves\<close>

lemma sub_unat32: "k \<le> unat sp \<Longrightarrow> unat (sp - of_nat k) = unat (sp :: u32) - k"
proof -
  assume k: "k \<le> unat sp"
  then have "k < 4294967296" using unat_bound32 [of sp] by linarith
  then show ?thesis using k by (subst unat_sub) (simp_all add: word_le_nat_alt unat_of_nat take_bit_nat_eq_self)
qed

lemma add_unat32: "unat sp + k < 4294967296 \<Longrightarrow> unat (sp + of_nat k) = unat (sp :: u32) + k"
  by (simp add: unat_word_ariths unat_of_nat)

text \<open>The context saved below the return address at \<open>a + 20\<close>.\<close>

definition saved_context32 :: "memory \<Rightarrow> nat \<Rightarrow> regs32 \<Rightarrow> bool" where
  "saved_context32 m a r \<longleftrightarrow> read32 m (a + 4) = e_edi r \<and> read32 m (a + 8) = e_esi r \<and> read32 m (a + 12) = e_ebx r \<and>
     read32 m (a + 16) = e_ebp r"

text \<open>
  \<open>old_ptr\<close> and \<open>new\<close> are the arguments on the caller's stack, above the return address.
\<close>

lemma switch32_saves:
  fixes r :: regs32 and m :: memory and slot :: nat
  defines "E \<equiv> unat (e_esp r)"
  assumes "20 \<le> E" "E + 12 < 4294967296" "slot = unat (read32 m (E + 4))" "slot + 4 \<le> E - 20 \<or> E + 12 \<le> slot"
  obtains r' m' where "context_switch_code (r, m) = switch32_pops (r', m')" "e_esp r' = read32 m (E + 8)"
    "saved_context32 m' (E - 20) r" "read32 m' slot = e_esp r - 20"
    "\<And>x. (x < E - 20 \<or> E \<le> x) \<Longrightarrow> (x < slot \<or> slot + 4 \<le> x) \<Longrightarrow> m' x = m x"
proof -
  define a where "a = E - 20"
  have u: "unat (e_esp r - 4) = a + 16" "unat (e_esp r - 8) = a + 12" "unat (e_esp r - 12) = a + 8" "unat (e_esp r - 16) = a + 4"
    "unat (e_esp r - 20) = a" "unat (4 + e_esp r) = a + 24" "unat (8 + e_esp r) = a + 28"
    using assms(2,3) sub_unat32 [of 4 "e_esp r"] sub_unat32 [of 8 "e_esp r"] sub_unat32 [of 12 "e_esp r"] sub_unat32 [of 16 "e_esp r"]
      sub_unat32 [of 20 "e_esp r"] add_unat32 [of "e_esp r" 4] add_unat32 [of "e_esp r" 8]
    by (simp_all add: a_def E_def add.commute)
  define m1 where "m1 = write32 (write32 (write32 (write32 (write32 m (a + 16) (e_ebp r)) (a + 12) (e_ebx r)) (a + 8) (e_esi r))
      (a + 4) (e_edi r)) a (e_esp r - 4)"
  define m' where "m' = write32 m1 slot (e_esp r - 20)"
  have E: "E + 4 = a + 24" "E + 8 = a + 28" using assms(2) by (simp_all add: a_def)
  have slot: "slot + 4 \<le> a \<or> a + 32 \<le> slot" using assms(2,5) by (auto simp: a_def)
  have args: "read32 m1 (a + 24) = read32 m (a + 24)" "read32 m' (a + 28) = read32 m (a + 28)"
    using slot by (auto simp: m1_def m'_def mem_simps)
  have "context_switch_code (r, m) = switch32_pops (r\<lparr>e_ebp := e_esp r - 4, e_eax := read32 m (a + 24), e_esp := read32 m (a + 28)\<rparr>, m')"
    using u args assms(4) [unfolded E] by (simp add: context_switch_code_def push32_def Let_def diff_diff_eq m1_def [symmetric] m'_def)
  then show thesis
  proof (rule that)
    show "saved_context32 m' (E - 20) r" "read32 m' slot = e_esp r - 20"
      using slot by (auto simp: saved_context32_def m'_def m1_def mem_simps a_def [symmetric])
    show "m' x = m x" if "x < E - 20 \<or> E \<le> x" "x < slot \<or> slot + 4 \<le> x" for x
    proof -
      have "x < a \<or> a + 20 \<le> x" using that(1) assms(2) by (auto simp: a_def)
      then show ?thesis using that(2) by (auto simp: m'_def m1_def mem_simps)
    qed
  qed (simp add: E)
qed

lemma switch32_restores:
  assumes "unat (e_esp r) + 24 < 4294967296"
  defines "a \<equiv> unat (e_esp r)"
  shows "switch32_pops (r, m) =
    (r\<lparr>e_esp := e_esp r + 24, e_edi := read32 m (a + 4), e_esi := read32 m (a + 8), e_ebx := read32 m (a + 12),
       e_ebp := read32 m (a + 16), e_eip := read32 m (a + 20)\<rparr>, m)"
proof -
  have "unat (e_esp r + of_nat k) = a + k" if "k \<le> 24" for k
    using that assms by (simp add: add_unat32)
  from this [of 4] this [of 8] this [of 12] this [of 16] this [of 20]
  show ?thesis by (simp add: switch32_pops_def pop32_def Let_def add.assoc a_def [symmetric])
qed

lemma switch32_pops_mem: "snd (switch32_pops c) = snd c"
  by (cases c) (simp add: switch32_pops_def pop32_def Let_def)

section \<open>Properties\<close>

text \<open>A context survives the 32-bit switch: a thread that calls \<open>context_switch\<close> and is switched back to, its saved
  stack left alone in between, returns from its call with its callee-saved registers and its stack pointer as they were.\<close>

lemma context_switch32_roundtrip:
  fixes r :: regs32 and m :: memory
  defines "E \<equiv> unat (e_esp r)"
  assumes "20 \<le> E" "E + 12 < 4294967296" "slot = unat (read32 m (E + 4))" "slot + 4 \<le> E - 20 \<or> E + 12 \<le> slot"
    and "context_switch_code (r, m) = (r1, m1)" "\<forall>x. E - 20 \<le> x \<and> x < E + 4 \<longrightarrow> m2 x = m1 x"
    and "unat (e_esp r2) = F" "20 \<le> F" "F + 12 < 4294967296" "slot2 = unat (read32 m2 (F + 4))"
    and "slot2 + 4 \<le> F - 20 \<or> F + 12 \<le> slot2" "slot2 + 4 \<le> E - 20 \<or> E + 4 \<le> slot2" "F \<le> E - 20 \<or> E + 24 \<le> F"
    and "read32 m2 (F + 8) = read32 m1 slot" "context_switch_code (r2, m2) = (r3, m3)"
  shows "e_eip r3 = read32 m E \<and> e_esp r3 = e_esp r + 4 \<and> e_ebx r3 = e_ebx r \<and> e_esi r3 = e_esi r \<and> e_edi r3 = e_edi r \<and>
    e_ebp r3 = e_ebp r"
proof -
  obtain r' n where n: "context_switch_code (r, m) = switch32_pops (r', n)" "saved_context32 n (E - 20) r" "read32 n slot = e_esp r - 20"
      "\<And>x. (x < E - 20 \<or> E \<le> x) \<Longrightarrow> (x < slot \<or> slot + 4 \<le> x) \<Longrightarrow> n x = m x"
    using switch32_saves [OF assms(2-5) [unfolded E_def], folded E_def] by metis
  have "m1 = n" using n(1) assms(6) switch32_pops_mem by (metis snd_conv)
  note n1 = n(2-4) [folded this]
  obtain r'' n3 where n3: "context_switch_code (r2, m2) = switch32_pops (r'', n3)" "e_esp r'' = read32 m2 (F + 8)"
      "\<And>x. (x < F - 20 \<or> F \<le> x) \<Longrightarrow> (x < slot2 \<or> slot2 + 4 \<le> x) \<Longrightarrow> n3 x = m2 x"
    using switch32_saves [of r2 slot2 m2] assms(8-12) by metis
  have sp: "e_esp r'' = e_esp r - 20" using n3(2) assms(15) n1(2) by simp
  then have a: "unat (e_esp r'') = E - 20" using sub_unat32 [of 20 "e_esp r"] assms(2) by (simp add: E_def)
  have keep: "read32 n3 (E - 20 + k) = read32 m1 (E - 20 + k)" if "k \<le> 20" for k
  proof (rule read32_cong)
    fix x assume "E - 20 + k \<le> x" "x < E - 20 + k + 4"
    then have x: "E - 20 \<le> x" "x < E + 4" using that assms(2) by auto
    then have "n3 x = m2 x" using assms(13,14,9) by (intro n3(3)) auto
    also have "\<dots> = m1 x" using assms(7) x by simp
    finally show "n3 x = m1 x" .
  qed
  have ret: "read32 m1 (E - 20 + 20) = read32 m E" using assms(2,5) by (auto intro!: read32_cong n1(3))
  have "unat (e_esp r'') + 24 < 4294967296" using a assms(2,3) by simp
  note pops = switch32_restores [OF this, of n3, unfolded a]
  show ?thesis
    using n1(1) keep [of 4] keep [of 8] keep [of 12] keep [of 16] keep [of 20] ret n3(1) assms(16) pops
    by (auto simp: sp saved_context32_def)
qed

text \<open>A new thread starts: the switch to the stack \<open>sched_create_thread\<close> prepared ends in the thread's function, with the stack
  pointer at the top of its stack and the callee-saved registers zero.\<close>

lemma new_thread32_enters_entry:
  fixes r :: regs32 and m :: memory
  defines "E \<equiv> unat (e_esp r)"
  assumes "initial_stack32 e stop m0 = (m, sp)" "24 \<le> stop" "stop < 4294967296"
    and "20 \<le> E" "E + 12 < 4294967296" "slot = unat (read32 m (E + 4))" "slot + 4 \<le> E - 20 \<or> E + 12 \<le> slot"
    and "read32 m (E + 8) = of_nat sp" "E \<le> sp \<or> stop + 20 \<le> E" "slot + 4 \<le> sp \<or> stop \<le> slot"
    and "context_switch_code (r, m) = (r1, m1)"
  shows "e_eip r1 = e \<and> unat (e_esp r1) = stop \<and> e_ebx r1 = 0 \<and> e_esi r1 = 0 \<and> e_edi r1 = 0 \<and> e_ebp r1 = 0"
proof -
  note w = initial_stack32_words [OF assms(3,2)]
  obtain r' n where n: "context_switch_code (r, m) = switch32_pops (r', n)" "e_esp r' = read32 m (E + 8)"
      "\<And>x. (x < E - 20 \<or> E \<le> x) \<Longrightarrow> (x < slot \<or> slot + 4 \<le> x) \<Longrightarrow> n x = m x"
    using switch32_saves [OF assms(5-8) [unfolded E_def], folded E_def] by metis
  have sp: "unat (e_esp r') = sp" using n(2) assms(4,9) w(1) by (simp add: unat_of_nat)
  have keep: "read32 n (sp + k) = read32 m (sp + k)" if "k \<le> 20" for k
    using that assms(3,5,10,11) w(1) by (intro read32_cong n(3)) auto
  have z: "read32 m (sp + 4) = 0" "read32 m (sp + 8) = 0" "read32 m (sp + 12) = 0" "read32 m (sp + 16) = 0"
    using w(3) [of 1] w(3) [of 2] w(3) [of 3] w(3) [of 4] by simp_all
  have top: "unat (e_esp r' + 24) = stop" using add_unat32 [of "e_esp r'" 24] sp w(1) assms(3,4) by simp
  have "unat (e_esp r') + 24 < 4294967296" using sp w(1) assms(3,4) by simp
  from switch32_restores [OF this, of n] n(1) assms(12)
  show ?thesis
    using keep [of 4] keep [of 8] keep [of 12] keep [of 16] keep [of 20] z w(2) top by (simp add: sp)
qed

end
