(* ===== verification/Boot_Asm.thy ===== *)
theory Boot_Asm
  imports Paging_Correct
begin

text \<open>
  The way into 64-bit mode: \<open>_start\<close> and \<open>long_mode_start\<close> of \<open>src/boot64.s\<close>, from the boot loader's jump to the
  call of \<open>kernel_main64\<close>. The addresses of the symbols in \<open>.bss\<close> and \<open>.text\<close>, which the linker chooses, are
  parameters. Once \<open>CR0.PG\<close> is set every access goes through the page tables the code has just built: an
  instruction or operand that they do not map is a fault, \<open>None\<close>.
\<close>

record boot_cpu =
  b_cr0 :: u32
  b_cr3 :: u32
  b_cr4 :: u32
  b_efer :: u64
  b_cs :: u16
  b_ds :: u16
  b_rsp :: u64
  b_rdi :: u64

record boot_symbols =
  pml4_sym :: u32
  pdpt_sym :: u32
  pd_sym :: u32
  stack_top_sym :: u32
  mbi_ptr_sym :: u32
  long_mode_start_sym :: u32

section \<open>The code\<close>

definition fill_pd :: "u32 \<Rightarrow> nat \<Rightarrow> memory \<Rightarrow> memory" where
  "fill_pd pd n m = foldl (\<lambda>m i. write32 m (unat pd + 8 * i) (push_bit 21 (of_nat i) OR 0x83)) m [0..<n]"

definition boot_tables :: "boot_symbols \<Rightarrow> memory \<Rightarrow> memory" where
  "boot_tables y m =
     (let m = write32 m (unat (pml4_sym y)) (pdpt_sym y OR 0x03);
          m = write32 m (unat (pdpt_sym y)) (pd_sym y OR 0x03)
      in fill_pd (pd_sym y) 512 m)"

definition start32 :: "boot_symbols \<Rightarrow> u32 \<Rightarrow> boot_cpu \<times> memory \<Rightarrow> boot_cpu \<times> memory" where
  "start32 y ebx = (\<lambda>(c, m).
     let c = c\<lparr>b_rsp := ucast (stack_top_sym y)\<rparr>;
         m = write32 m (unat (mbi_ptr_sym y)) ebx;
         m = boot_tables y m;
         c = c\<lparr>b_cr4 := b_cr4 c OR push_bit 5 1\<rparr>;
         c = c\<lparr>b_cr3 := pml4_sym y\<rparr>;
         c = c\<lparr>b_efer := b_efer c OR push_bit 8 1\<rparr>;
         c = c\<lparr>b_cr0 := b_cr0 c OR push_bit 31 1\<rparr>
     in (c, m))"

text \<open>The far jump and the 64-bit half; \<open>fetch\<close> and the load of \<open>mbi_ptr\<close> use the new tables.\<close>

definition long_mode :: "boot_symbols \<Rightarrow> boot_cpu \<times> memory \<Rightarrow> (boot_cpu \<times> memory) option" where
  "long_mode y = (\<lambda>(c, m).
     let tr = (\<lambda>va. walk m (ucast (b_cr3 c)) (ucast (va :: u32)))
     in case tr (long_mode_start_sym y) of
          None \<Rightarrow> None
        | Some _ \<Rightarrow>
            let c = c\<lparr>b_cs := 0x08\<rparr>;
                c = c\<lparr>b_ds := 0x10\<rparr>;
                c = c\<lparr>b_rsp := ucast (stack_top_sym y)\<rparr>
            in (case tr (mbi_ptr_sym y) of
                  None \<Rightarrow> None
                | Some (pa, _) \<Rightarrow> Some (c\<lparr>b_rdi := ucast (read32 m pa)\<rparr>, m)))"

definition boot64_start :: "boot_symbols \<Rightarrow> u32 \<Rightarrow> boot_cpu \<times> memory \<Rightarrow> (boot_cpu \<times> memory) option" where
  "boot64_start y ebx cm = long_mode y (start32 y ebx cm)"

section \<open>Entries written by halves\<close>

text \<open>The code writes the low 32 bits of an entry; the high ones are zero in \<open>.bss\<close>.\<close>

lemma read_le_zero: "\<forall>x. a \<le> x \<and> x < a + n \<longrightarrow> m x = 0 \<Longrightarrow> read_le m a n = 0"
  by (induction n arbitrary: a) auto

lemma read_le_split: "read_le m a (n + k) = read_le m a n + 256 ^ n * read_le m (a + n) k"
  by (induction n arbitrary: a) (simp_all add: algebra_simps)

lemma read64_write32_low:
  assumes "\<forall>x. a + 4 \<le> x \<and> x < a + 8 \<longrightarrow> m x = 0"
  shows "read64 (write32 m a v) a = ucast v"
proof -
  have "read_le (write32 m a v) (a + 4) 4 = 0"
    by (rule read_le_zero) (use assms in \<open>simp add: write32_outside\<close>)
  then have "read_le (write32 m a v) a 8 = unat v"
    using read_le_split [of "write32 m a v" a 4 4] by (simp add: write32_def read_le_write_same)
  then show ?thesis by (simp add: read64_def unsigned_ucast_eq word_unat_eq_iff unat_of_nat take_bit_nat_eq_self)
qed

lemma big_page_half: "i < 512 \<Longrightarrow> ucast (push_bit 21 (of_nat i) OR 0x83 :: u32) = (push_bit 21 (of_nat i) OR 0x83 :: u64)"
proof -
  assume i: "i < 512"
  then have "unat (push_bit 21 (of_nat i) :: u32) = i * 2097152" "unat (push_bit 21 (of_nat i) :: u64) = i * 2097152"
    by (simp_all add: push_bit_eq_mult unat_word_ariths unat_of_nat)
  then have "(ucast (push_bit 21 (of_nat i) :: u32) :: u64) = push_bit 21 (of_nat i)"
    using i by (simp add: word_unat_eq_iff unsigned_ucast_eq take_bit_nat_eq_self)
  then show ?thesis by (simp add: unsigned_or_eq)
qed

lemma fill_pd_step: "fill_pd pd (Suc n) m = write32 (fill_pd pd n m) (unat pd + 8 * n) (push_bit 21 (of_nat n) OR 0x83)"
  by (simp add: fill_pd_def)

lemma fill_pd_outside: "x < unat pd \<or> unat pd + 8 * n \<le> x \<Longrightarrow> fill_pd pd n m x = m x"
proof (induction n)
  case (Suc n)
  then have "fill_pd pd (Suc n) m x = fill_pd pd n m x" unfolding fill_pd_step by (intro write32_outside) auto
  with Suc show ?case by auto
qed (simp add: fill_pd_def)

lemma fill_pd_entry:
  assumes "\<forall>x. unat pd \<le> x \<and> x < unat pd + 4096 \<longrightarrow> m x = 0" "n \<le> 512" "i < n"
  shows "read64 (fill_pd pd n m) (unat pd + 8 * i) = push_bit 21 (of_nat i) OR 0x83"
  using assms(2,3)
proof (induction n)
  case (Suc n)
  show ?case
  proof (cases "i = n")
    case True
    have "\<forall>x. unat pd + 8 * n + 4 \<le> x \<and> x < unat pd + 8 * n + 8 \<longrightarrow> fill_pd pd n m x = 0"
      using assms(1) Suc.prems(1) by (auto simp: fill_pd_outside)
    then show ?thesis
      unfolding fill_pd_step True using Suc.prems(1) by (simp add: read64_write32_low big_page_half)
  next
    case False
    then have "read64 (fill_pd pd (Suc n) m) (unat pd + 8 * i) = read64 (fill_pd pd n m) (unat pd + 8 * i)"
      unfolding fill_pd_step using Suc.prems(2) by (intro read64_write32_disjoint) auto
    with Suc False show ?thesis by simp
  qed
qed simp

section \<open>The tables\<close>

text \<open>The symbols as the linker places them: three pages of zeros below one gigabyte, the rest outside them.\<close>

definition page_zero :: "u32 \<Rightarrow> memory \<Rightarrow> bool" where
  "page_zero t m \<longleftrightarrow> 4096 dvd unat t \<and> unat t < 1073741824 \<and> (\<forall>x. unat t \<le> x \<and> x < unat t + 4096 \<longrightarrow> m x = 0)"

definition linked :: "boot_symbols \<Rightarrow> memory \<Rightarrow> bool" where
  "linked y m \<longleftrightarrow> (\<forall>t \<in> {pml4_sym y, pdpt_sym y, pd_sym y}. page_zero t m \<and>
       (unat (mbi_ptr_sym y) + 4 \<le> unat t \<or> unat t + 4096 \<le> unat (mbi_ptr_sym y))) \<and>
     distinct [pml4_sym y, pdpt_sym y, pd_sym y] \<and> unat (mbi_ptr_sym y) < 1073741824 \<and>
     unat (long_mode_start_sym y) < 1073741824 \<and> 16 dvd unat (stack_top_sym y)"

lemma pages_apart32: "4096 dvd unat a \<Longrightarrow> 4096 dvd unat b \<Longrightarrow> a \<noteq> (b :: u32) \<Longrightarrow> unat a + 4096 \<le> unat b \<or> unat b + 4096 \<le> unat a"
  by (auto elim!: dvdE simp: word_unat_eq_iff)

lemma unat_ucast32 [simp]: "unat (ucast (x :: u32) :: u64) = unat x"
proof -
  have "unat x < 2 ^ 64" by (rule order.strict_trans [OF unat_bound32]) simp
  then show ?thesis by (simp add: unsigned_ucast_eq take_bit_nat_eq_self)
qed

lemma page_table: "page_zero t m \<Longrightarrow> table (ucast t)"
  by (simp add: page_zero_def table_def)

lemma boot_tables_map:
  assumes "linked y m0" "m = write32 m0 (unat (mbi_ptr_sym y)) ebx"
  shows "kernel_map (boot_tables y m) (ucast (pml4_sym y)) (ucast (pdpt_sym y)) (ucast (pd_sym y))"
    "0 < i \<Longrightarrow> i < 512 \<Longrightarrow> entry (boot_tables y m) (ucast (pdpt_sym y)) i = 0"
    "read32 (boot_tables y m) (unat (mbi_ptr_sym y)) = ebx"
proof -
  let ?a = "pml4_sym y" and ?b = "pdpt_sym y" and ?d = "pd_sym y"
  define m1 where "m1 = write32 m (unat ?a) (?b OR 3)"
  define m2 where "m2 = write32 m1 (unat ?b) (?d OR 3)"
  have t: "boot_tables y m = fill_pd ?d 512 m2" by (simp add: boot_tables_def m1_def m2_def Let_def)
  have z: "page_zero ?a m0" "page_zero ?b m0" "page_zero ?d m0" and ne: "?a \<noteq> ?b" "?a \<noteq> ?d" "?b \<noteq> ?d"
    using assms(1) by (auto simp: linked_def)
  have ap: "unat ?a + 4096 \<le> unat ?b \<or> unat ?b + 4096 \<le> unat ?a" "unat ?a + 4096 \<le> unat ?d \<or> unat ?d + 4096 \<le> unat ?a"
      "unat ?b + 4096 \<le> unat ?d \<or> unat ?d + 4096 \<le> unat ?b"
    using z ne by (intro pages_apart32; simp add: page_zero_def)+
  have m: "m x = 0" if "t \<in> {?a, ?b, ?d}" "unat t \<le> x" "x < unat t + 4096" for t x
  proof -
    have "x < unat (mbi_ptr_sym y) \<or> unat (mbi_ptr_sym y) + 4 \<le> x" "m0 x = 0"
      using assms(1) that unfolding linked_def page_zero_def by auto
    then show ?thesis by (simp add: assms(2) write32_outside)
  qed
  have m1: "m1 x = m x" if "x < unat ?a \<or> unat ?a + 4 \<le> x" for x
    unfolding m1_def using that by (rule write32_outside)
  have m2: "m2 x = m1 x" if "x < unat ?b \<or> unat ?b + 4 \<le> x" for x
    unfolding m2_def using that by (rule write32_outside)
  have out: "read64 (boot_tables y m) a = read64 m2 a" if "a + 8 \<le> unat ?d \<or> unat ?d + 4096 \<le> a" for a
    unfolding t using that by (intro read64_cong fill_pd_outside) auto
  have "read64 m2 (unat ?a) = read64 m1 (unat ?a)" by (rule read64_cong) (use ap(1) m2 in auto)
  also have "\<dots> = ucast ?b OR 3"
    unfolding m1_def using m [of ?a] by (subst read64_write32_low) (auto simp: unsigned_or_eq)
  finally have ea: "entry (boot_tables y m) (ucast ?a) 0 = ucast ?b OR 3" using out [of "unat ?a"] ap(2) by (auto simp: entry_def)
  have "\<forall>x. unat ?b + 4 \<le> x \<and> x < unat ?b + 8 \<longrightarrow> m1 x = 0" using ap(1) m [of ?b] by (auto simp: m1)
  then have "read64 m2 (unat ?b) = ucast ?d OR 3"
    unfolding m2_def by (subst read64_write32_low) (auto simp: unsigned_or_eq)
  then have eb: "entry (boot_tables y m) (ucast ?b) 0 = ucast ?d OR 3" using out [of "unat ?b"] ap(3) by (auto simp: entry_def)
  have zd: "\<forall>x. unat ?d \<le> x \<and> x < unat ?d + 4096 \<longrightarrow> m2 x = 0" using ap m [of ?d] by (auto simp: m1 m2)
  have ed: "entry (boot_tables y m) (ucast ?d) i = push_bit 21 (of_nat i) OR 0x83" if "i < 512" for i
    using fill_pd_entry [OF zd, of 512 i] that by (simp add: entry_def t)
  show "kernel_map (boot_tables y m) (ucast ?a) (ucast ?b) (ucast ?d)"
    using ea eb ed z ne by (auto simp: kernel_map_def page_table word_unat_eq_iff)
  show "entry (boot_tables y m) (ucast ?b) i = 0" if "0 < i" "i < 512"
  proof -
    have "read_le m2 (unat ?b + 8 * i) 8 = 0"
      by (rule read_le_zero) (use that ap(1) m [of ?b] in \<open>auto simp: m1 m2\<close>)
    then show ?thesis using out [of "unat ?b + 8 * i"] that ap(3) by (auto simp: entry_def read64_def)
  qed
  have mb: "unat (mbi_ptr_sym y) + 4 \<le> unat t \<or> unat t + 4096 \<le> unat (mbi_ptr_sym y)" if "t \<in> {?a, ?b, ?d}" for t
    using assms(1) that by (auto simp: linked_def)
  have "read32 (boot_tables y m) (unat (mbi_ptr_sym y)) = read32 m (unat (mbi_ptr_sym y))"
    unfolding t using mb [of ?a] mb [of ?b] mb [of ?d] by (intro read32_cong) (auto simp: fill_pd_outside m1 m2)
  then show "read32 (boot_tables y m) (unat (mbi_ptr_sym y)) = ebx" by (simp add: assms(2))
qed

section \<open>Properties\<close>


definition demo_symbols :: boot_symbols where
  "demo_symbols = \<lparr>pml4_sym = 0x110000, pdpt_sym = 0x111000, pd_sym = 0x112000, stack_top_sym = 0x117000, mbi_ptr_sym = 0x117000,
     long_mode_start_sym = 0x1000C0\<rparr>"


end
