(* ===== verification/Smp.thy ===== *)
theory Smp
  imports Idt Heap_Props
begin

text \<open>
  Starting the other processors (\<open>src/smp.c\<close>, and of \<open>src/ap_trampoline.s\<close> what it reads from the
  mailbox and leaves in the processor). The boot processor \<open>p\<close> prepares the trampoline and sends the
  start-up messages; it then only waits, so the started processor's way through the trampoline and
  \<open>ap_entry64\<close> to its \<open>sti\<close> is one step of the model between the messages and the test of \<open>ap_ready\<close>.
  Parameters: \<open>alive\<close>, which processors answer the messages; \<open>blob\<close>, the bytes of the assembled
  trampoline; \<open>ap_entry_addr\<close>, the address of \<open>ap_entry64\<close>. A busy-wait delay changes nothing and the wait for
  the answer is bounded. Once started, a processor repeats \<open>sched64_reschedule\<close>.
\<close>

record smp = idt_state +
  ap_ready :: "nat \<Rightarrow> bool"
  g_ap_index_starting :: int

abbreviation (input) TRAMPOLINE_ADDR :: nat where "TRAMPOLINE_ADDR \<equiv> 0x8000"
abbreviation (input) MBOX_OFFSET :: nat where "MBOX_OFFSET \<equiv> 0x100"
abbreviation (input) AP_STACK_SIZE :: nat where "AP_STACK_SIZE \<equiv> 16384"
abbreviation (input) MAX_AP_CPUS :: nat where "MAX_AP_CPUS \<equiv> 8"
abbreviation (input) LAPIC_SMP :: u64 where "LAPIC_SMP \<equiv> 0xFEE00000"
abbreviation (input) LAPIC_ICR_LOW :: u64 where "LAPIC_ICR_LOW \<equiv> 0x300"
abbreviation (input) LAPIC_ICR_HIGH :: u64 where "LAPIC_ICR_HIGH \<equiv> 0x310"

section \<open>The operations\<close>

definition send_init_sipi_sipi :: "nat \<Rightarrow> u8 \<Rightarrow> 'a smp_scheme \<Rightarrow> 'a smp_scheme" where
  "send_init_sipi_sipi p apic_id s =
     (let vector = ucast (drop_bit 12 (of_nat TRAMPOLINE_ADDR :: u64)) :: u32;
          s = mmio_write p (LAPIC_SMP + LAPIC_ICR_HIGH) (push_bit 24 (ucast apic_id)) s;
          s = mmio_write p (LAPIC_SMP + LAPIC_ICR_LOW) 0x4500 s;
          s = mmio_write p (LAPIC_SMP + LAPIC_ICR_HIGH) (push_bit 24 (ucast apic_id)) s;
          s = mmio_write p (LAPIC_SMP + LAPIC_ICR_LOW) (0x4600 OR vector) s;
          s = mmio_write p (LAPIC_SMP + LAPIC_ICR_HIGH) (push_bit 24 (ucast apic_id)) s
      in mmio_write p (LAPIC_SMP + LAPIC_ICR_LOW) (0x4600 OR vector) s)"

text \<open>
  The trampoline reads four words: the page tables and the address of the descriptor table pointer (32 bits
  of each), the stack and the function to call. Where it would load another descriptor table
  or call another function the model gives up (\<open>None\<close>).
\<close>

definition ap_trampoline :: "nat \<Rightarrow> u64 \<Rightarrow> 'a smp_scheme \<Rightarrow> 'a smp_scheme option" where
  "ap_trampoline q ap_entry_addr s =
     (let mbox = TRAMPOLINE_ADDR + MBOX_OFFSET; m = mem s
      in if unat (read32 m (mbox + 8)) = gdt_ptr_addr s \<and> read64 m (mbox + 24) = ap_entry_addr
         then Some (s\<lparr>cr3 := (cr3 s)(q := ucast (read32 m mbox)), gdtr := (gdtr s)(q := gdt_ptr s),
                      cs_reg := (cs_reg s)(q := SEL_KCODE), ds_reg := (ds_reg s)(q := SEL_KDATA),
                      rsp_reg := (rsp_reg s)(q := read64 m (mbox + 16) - 8), iflag := (iflag s)(q := False)\<rparr>)
         else None)"

definition ap_entry64 :: "nat \<Rightarrow> 'a smp_scheme \<Rightarrow> ('a smp_scheme, unit) presult" where
  "ap_entry64 q s =
     (let s = fpu_init q s;
          s = idt_load_current_cpu q s
      in case gdt_setup_cpu_tss q (int (get_cpu_index q)) s of
           None \<Rightarrow> None
         | Some s \<Rightarrow>
           let s = kprint (''[smp] AP TSS configured'' @ [nl]) s;
               s = kprint (''[smp] ap_entry64 reached'' @ [nl]) s
           in bind_p (lapic_enable q s) (\<lambda>_ s.
             let s = kprint (''[smp] lapic_enable done'' @ [nl]) s;
                 id = lapic_get_id q;
                 s = kprint (''[smp] got id'' @ [nl]) s;
                 s = kprint_hex64 (ucast id) s;
                 s = kprint [nl] s
             in case apic_timer_init q 32 100 s of
                  None \<Rightarrow> None
                | Some s \<Rightarrow>
                    let s = kprint (''[smp] apic_timer_init done'' @ [nl]) s;
                        s = (if g_ap_index_starting s \<ge> 0
                             then s\<lparr>ap_ready := (ap_ready s)(nat (g_ap_index_starting s) := True)\<rparr> else s);
                        s = kprint (''[smp] ap_ready set'' @ [nl]) s
                    in Some (Inr ((), sti q s))))"

text \<open>A processor that answers runs the two; a panic stops that processor only.\<close>

definition ap_runs :: "nat \<Rightarrow> u64 \<Rightarrow> 'a smp_scheme \<Rightarrow> 'a smp_scheme option" where
  "ap_runs q ap_entry_addr s =
     (case ap_trampoline q ap_entry_addr s of
        None \<Rightarrow> None
      | Some s \<Rightarrow>
          (case ap_entry64 q s of
             None \<Rightarrow> None
           | Some (Inl (Panic _ _ s)) \<Rightarrow> Some s
           | Some (Inr (_, s)) \<Rightarrow> Some s))"

definition copy_bytes :: "nat \<Rightarrow> u8 list \<Rightarrow> memory \<Rightarrow> memory" where
  "copy_bytes dst src m = foldl (\<lambda>m b. m(dst + b := src ! b)) m [0..<length src]"

definition mbox_line :: "string \<Rightarrow> nat \<Rightarrow> 'a smp_scheme \<Rightarrow> 'a smp_scheme" where
  "mbox_line t i s = kprint [nl] (kprint_hex64 (read64 (mem s) (TRAMPOLINE_ADDR + MBOX_OFFSET + 8 * i)) (kprint t s))"

text \<open>One pass of the loop of \<open>smp_start_aps\<close> for a processor that is not the boot processor.\<close>

definition start_ap ::
    "nat \<Rightarrow> (u8 \<Rightarrow> bool) \<Rightarrow> u8 list \<Rightarrow> u64 \<Rightarrow> u64 \<Rightarrow> u64 \<Rightarrow> u8 \<Rightarrow> nat \<Rightarrow> 'a smp_scheme \<Rightarrow> ('a smp_scheme, nat) presult" where
  "start_ap p alive blob ap_entry_addr kernel_cr3 gdt_ptr_address apic_id started s =
     (let s = (if \<not> memmap_region_is_safe (of_nat TRAMPOLINE_ADDR) (of_nat (length blob)) s
               then kprint (''[smp] WARNING: trampoline address 0x8000 not confirmed safe by memory map!'' @ [nl]) s else s);
          s = s\<lparr>mem := copy_bytes TRAMPOLINE_ADDR blob (mem s)\<rparr>;
          mbox = TRAMPOLINE_ADDR + MBOX_OFFSET
      in bind_p (kmalloc (sched64_reschedule p) p (of_nat AP_STACK_SIZE) s) (\<lambda>ap_stack s.
         let s = s\<lparr>mem := write64 (mem s) mbox kernel_cr3\<rparr>;
             s = s\<lparr>mem := write64 (mem s) (mbox + 8) gdt_ptr_address\<rparr>;
             stack_top = (of_nat ap_stack + of_nat AP_STACK_SIZE) AND NOT 0xF;
             s = s\<lparr>mem := write64 (mem s) (mbox + 16) stack_top\<rparr>;
             s = s\<lparr>mem := write64 (mem s) (mbox + 24) ap_entry_addr\<rparr>;
             s = mbox_line ''[smp diag] mbox[0] kernel_cr3   = '' 0 s;
             s = mbox_line ''[smp diag] mbox[1] gdt_ptr_addr = '' 1 s;
             s = mbox_line ''[smp diag] mbox[2] stack_top    = '' 2 s;
             s = mbox_line ''[smp diag] mbox[3] ap_entry64   = '' 3 s;
             s = kprint [nl] (kprint_hex64 (of_nat ap_stack) (kprint ''[smp diag] ap_stack (raw kmalloc) = '' s));
             s = s\<lparr>ap_ready := (ap_ready s)(started := False)\<rparr>;
             s = s\<lparr>g_ap_index_starting := int started\<rparr>;
             s = kprint (''...'' @ [nl]) (kprint_hex64 (ucast apic_id) (kprint ''[smp] starting AP, APIC ID='' s));
             s = send_init_sipi_sipi p apic_id s
         in case (if alive apic_id then ap_runs (unat apic_id) ap_entry_addr s else Some s) of
              None \<Rightarrow> None
            | Some s \<Rightarrow>
                if ap_ready s started
                then Some (Inr (started + 1, kprint (''[smp] AP confirmed alive.'' @ [nl]) s))
                else Some (Inr (started, kprint (''[smp] WARNING: AP did not respond within timeout.'' @ [nl]) s))))"

fun start_aps ::
    "nat \<Rightarrow> (u8 \<Rightarrow> bool) \<Rightarrow> u8 list \<Rightarrow> u64 \<Rightarrow> u8 \<Rightarrow> u64 \<Rightarrow> u64 \<Rightarrow> u8 list \<Rightarrow> nat \<Rightarrow> 'a smp_scheme \<Rightarrow> ('a smp_scheme, nat) presult" where
  "start_aps p alive blob ap_entry_addr bsp_id k g [] started s = Some (Inr (started, s))"
| "start_aps p alive blob ap_entry_addr bsp_id k g (apic_id # ids) started s =
     (if \<not> started < MAX_AP_CPUS then Some (Inr (started, s))
      else if apic_id = bsp_id then start_aps p alive blob ap_entry_addr bsp_id k g ids started s
      else bind_p (start_ap p alive blob ap_entry_addr k g apic_id started s) (\<lambda>started s.
             start_aps p alive blob ap_entry_addr bsp_id k g ids started s))"

definition smp_start_aps :: "nat \<Rightarrow> (u8 \<Rightarrow> bool) \<Rightarrow> u8 list \<Rightarrow> u64 \<Rightarrow> 'a smp_scheme \<Rightarrow> ('a smp_scheme, nat) presult" where
  "smp_start_aps p alive blob ap_entry_addr s =
     (case acpi_find_cpus MAX_AP_CPUS s of
        None \<Rightarrow> None
      | Some (apic_ids, s) \<Rightarrow>
          if length apic_ids \<le> 1
          then Some (Inr (0, kprint (''[smp] single-CPU system (or ACPI unavailable) '' @ [CHR 0xE2, CHR 0x80, CHR 0x94] @
                               '' skipping AP bringup'' @ [nl]) s))
          else start_aps p alive blob ap_entry_addr (lapic_get_id p) (paging_get_kernel_cr3 s) (gdt_get_ptr_address s) apic_ids 0 s)"

end
