(* ===== verification/Boot.thy ===== *)
theory Boot
  imports Smp
begin

text \<open>
  The 64-bit kernel program (\<open>src/main64.c\<close>): the heap's self-test, the demonstration threads and
  \<open>kernel_main64\<close>. A thread's access to \<open>DEMO_VA\<close> goes through the page tables of the processor it runs
  on; \<open>None\<close> is a page fault. A pass through a thread's loop is cut in two where the busy loop lets the
  timer preempt it: the part that writes the signature and the part that checks it. \<open>kernel_main64\<close>
  ends where interrupts are enabled and the first thread is chosen; from there the machine is driven by
  interrupts (theories \<open>Idt\<close> and \<open>Kernel_Run\<close>). Parameters: what \<open>smp_start_aps\<close> needs, the addresses of the interrupt stubs,
  of \<open>thread_start64\<close>, of the thread functions and of the end of the kernel image.
\<close>

record boot = smp +
  counter_a64 :: u32
  counter_b64 :: u32
  counter_c64 :: u32

section \<open>The self-test of the heap\<close>

definition fill :: "nat \<Rightarrow> nat \<Rightarrow> u8 \<Rightarrow> memory \<Rightarrow> memory" where
  "fill a n v m = foldl (\<lambda>m i. m(a + i := v)) m [0..<n]"

definition filled :: "nat \<Rightarrow> nat \<Rightarrow> u8 \<Rightarrow> memory \<Rightarrow> bool" where
  "filled a n v m \<longleftrightarrow> list_all (\<lambda>i. m (a + i) = v) [0..<n]"

text \<open>Statistics, and the two bytes counts the test compares, are walks of the block list.\<close>

definition print_stats :: "'a boot_scheme \<Rightarrow> ('a boot_scheme, unit) presult" where
  "print_stats s = map_option (\<lambda>s. Inr ((), s)) (heap_print_stats s)"

definition get_free_bytes :: "'a boot_scheme \<Rightarrow> ('a boot_scheme, u64) presult" where
  "get_free_bytes s = map_option (\<lambda>n. Inr (n, s)) (heap_free_bytes s)"

definition heap_self_test :: "nat \<Rightarrow> 'a boot_scheme \<Rightarrow> ('a boot_scheme, unit) presult" where
  "heap_self_test p s =
     (let malloc = kmalloc (sched64_reschedule p) p; free = (\<lambda>q s. Some (kfree (sched64_reschedule p) p q s));
          s = kprint (''[heap] self-test starting...'' @ [nl]) s
      in bind_p (print_stats s) (\<lambda>_ s.
         bind_p (get_free_bytes s) (\<lambda>initial_free s.
         bind_p (malloc 100 s) (\<lambda>p1 s.
         bind_p (malloc 4000 s) (\<lambda>p2 s.
         bind_p (malloc 50 s) (\<lambda>p3 s.
         bind_p (malloc 20000 s) (\<lambda>p4 s.
         bind_p (malloc 16 s) (\<lambda>p5 s.
         let s = mem_update (fill p1 100 0xAA) s;
             s = mem_update (fill p3 50 0xBB) s;
             s = mem_update (fill p5 16 0xCC) s;
             corrupted = (\<not> filled p1 100 0xAA (mem s) \<or> \<not> filled p3 50 0xBB (mem s) \<or> \<not> filled p5 16 0xCC (mem s));
             s = kprint (if corrupted then ''[heap] OVERLAP DETECTED after alloc!'' @ [nl]
                         else ''[heap] no overlap after alloc, OK'' @ [nl]) s
         in bind_p (print_stats s) (\<lambda>_ s.
            bind_p (free p3 s) (\<lambda>_ s.
            bind_p (free p1 s) (\<lambda>_ s.
            bind_p (free p4 s) (\<lambda>_ s.
            bind_p (free p2 s) (\<lambda>_ s.
            bind_p (free p5 s) (\<lambda>_ s.
            bind_p (get_free_bytes s) (\<lambda>final_free s.
            bind_p (print_stats (kprint ''[heap] after freeing everything: '' s)) (\<lambda>_ s.
              Some (Inr ((), kprint
                (if final_free = initial_free
                 then ''[heap] self-test PASSED (free bytes fully recovered)'' @ [nl, nl]
                 else ''[heap] self-test FAILED: free bytes mismatch (leak or bad coalesce)'' @ [nl, nl]) s))))))))))))))))))"

section \<open>The threads\<close>

text \<open>A byte at a virtual address, as the processor translates it for the kernel.\<close>

definition store_va :: "nat \<Rightarrow> nat \<Rightarrow> u8 \<Rightarrow> 'a boot_scheme \<Rightarrow> 'a boot_scheme option" where
  "store_va p va v s =
     (case walk (mem s) (cr3 s p) (of_nat va) of
        Some (pa, True, _) \<Rightarrow> Some (s\<lparr>mem := (mem s)(pa := v)\<rparr>)
      | _ \<Rightarrow> None)"

definition load_va :: "nat \<Rightarrow> nat \<Rightarrow> 'a boot_scheme \<Rightarrow> u8 option" where
  "load_va p va s = map_option (\<lambda>(pa, _). mem s pa) (walk (mem s) (cr3 s p) (of_nat va))"

definition write_signature :: "nat \<Rightarrow> char \<Rightarrow> 'a boot_scheme \<Rightarrow> 'a boot_scheme option" where
  "write_signature p c s =
     foldl (\<lambda>r i. Option.bind r (store_va p (DEMO_VA + i) (of_char c))) (Some s) [0..<4]"

fun verify_from :: "nat \<Rightarrow> nat list \<Rightarrow> char \<Rightarrow> 'a boot_scheme \<Rightarrow> bool option" where
  "verify_from p [] expected s = Some True"
| "verify_from p (i # is) expected s =
     Option.bind (load_va p (DEMO_VA + i) s) (\<lambda>v.
       if v \<noteq> of_char expected then Some False else verify_from p is expected s)"

definition verify_signature :: "nat \<Rightarrow> char \<Rightarrow> 'a boot_scheme \<Rightarrow> bool option" where
  "verify_signature p expected s = verify_from p [0..<4] expected s"

definition thread_a_write :: "nat \<Rightarrow> 'a boot_scheme \<Rightarrow> 'a boot_scheme option" where
  "thread_a_write p s = write_signature p (CHR ''A'') (s\<lparr>counter_a64 := counter_a64 s + 1\<rparr>)"

definition thread_a_check :: "nat \<Rightarrow> 'a boot_scheme \<Rightarrow> 'a boot_scheme option" where
  "thread_a_check p s =
     (case verify_signature p (CHR ''A'') s of
        None \<Rightarrow> None
      | Some ok \<Rightarrow>
          let s = kprint ''[A cpu'' s;
              s = kprint_hex64 (ucast (lapic_get_id p)) s;
              s = kprint ''] tick '' s;
              s = kprint_hex64 (ucast (counter_a64 s)) s;
              s = kprint (if ok then '' AS=OK'' @ [nl] else '' AS=CORRUPTED!'' @ [nl]) s
          in Some (if counter_a64 s mod 5 = 0
                   then let s = kprint (''[A] --- entering critical section (NKern_Lock) ---'' @ [nl]) s;
                            s = NKern_Lock p s;
                            s = kprint (''[A] --- still holding lock, about to unlock ---'' @ [nl]) s;
                            s = NKern_Unlock (sched64_reschedule p) p s
                        in kprint (''[A] --- critical section released (NKern_Unlock) ---'' @ [nl]) s
                   else s))"

definition thread_b_write :: "nat \<Rightarrow> 'a boot_scheme \<Rightarrow> 'a boot_scheme option" where
  "thread_b_write p s = write_signature p (CHR ''B'') (s\<lparr>counter_b64 := counter_b64 s + 1\<rparr>)"

definition thread_b_check :: "nat \<Rightarrow> 'a boot_scheme \<Rightarrow> 'a boot_scheme option" where
  "thread_b_check p s =
     (case verify_signature p (CHR ''B'') s of
        None \<Rightarrow> None
      | Some ok \<Rightarrow>
          let s = kprint ''  [B cpu'' s;
              s = kprint_hex64 (ucast (lapic_get_id p)) s;
              s = kprint ''] tick '' s;
              s = kprint_hex64 (ucast (counter_b64 s)) s
          in Some (kprint (if ok then '' AS=OK'' @ [nl] else '' AS=CORRUPTED!'' @ [nl]) s))"

definition thread_c_low_priority :: "'a boot_scheme \<Rightarrow> 'a boot_scheme" where
  "thread_c_low_priority s =
     (let s = s\<lparr>counter_c64 := counter_c64 s + 1\<rparr>;
          s = kprint ''    [C low-prio] tick '' s;
          s = kprint_hex64 (ucast (counter_c64 s)) s
      in kprint [nl] s)"

text \<open>
  \<open>enter_usermode\<close> (\<open>src/usermode.s\<close>): the data segments, then \<open>iretq\<close> with the user selectors, a stack
  and flags that enable interrupts. The first component is the address execution continues at.
\<close>

definition enter_usermode :: "nat \<Rightarrow> u64 \<Rightarrow> u64 \<Rightarrow> 'a boot_scheme \<Rightarrow> u64 \<times> 'a boot_scheme" where
  "enter_usermode p entry_point user_stack_top s =
     (let s = s\<lparr>ds_reg := (ds_reg s)(p := SEL_UDATA OR 3)\<rparr>
      in (entry_point, s\<lparr>cs_reg := (cs_reg s)(p := SEL_UCODE OR 3), rsp_reg := (rsp_reg s)(p := user_stack_top),
                       iflag := (iflag s)(p := bit (0x202 :: u64) 9)\<rparr>))"

definition thread_ring3_launcher :: "nat \<Rightarrow> 'a boot_scheme \<Rightarrow> u64 \<times> 'a boot_scheme" where
  "thread_ring3_launcher p s =
     enter_usermode p USER_CODE_VA USER_STACK_TOP (kprint (''[launcher] jumping into ring3...'' @ [nl]) s)"

section \<open>The boot sequence\<close>

text \<open>What the linker and the boot loader fix: addresses in the kernel image and the trampoline's bytes.\<close>

record image =
  isr_addr :: "nat \<Rightarrow> u64"
  thread_start64_addr :: u64
  thread_a_addr :: u64
  thread_b_addr :: u64
  thread_c_addr :: u64
  launcher_addr :: u64
  kernel_main64_addr :: u64
  kernel_end :: u64
  ap_entry64_addr :: u64
  ap_blob :: "u8 list"

abbreviation (input) PANIC_THREAD_CREATE_FAILED :: u64 where "PANIC_THREAD_CREATE_FAILED \<equiv> 1"

definition create_or_panic ::
    "u64 \<Rightarrow> u64 \<Rightarrow> nat \<Rightarrow> string \<Rightarrow> 'a boot_scheme \<Rightarrow> ('a boot_scheme, nat) presult" where
  "create_or_panic thread_start entry_point prio name s =
     bind_p (sched64_create_thread thread_start entry_point prio name s) (\<lambda>t s.
       case t of None \<Rightarrow> Some (Inl (neka_panic ''SCHED'' PANIC_THREAD_CREATE_FAILED s))
       | Some t \<Rightarrow> Some (Inr (t, s)))"

definition start_devices :: "nat \<Rightarrow> 'a boot_scheme \<Rightarrow> ('a boot_scheme, unit) presult" where
  "start_devices p s =
     (let s = acpi_find_rsdp_bios s
      in bind_p (Some (apic_check_supported s)) (\<lambda>_ s.
         Option.bind (apic_apply_acpi_bases s) (\<lambda>s.
         bind_p (lapic_enable p (disable_legacy_pic s)) (\<lambda>_ s.
         bind_p (ioapic_set_redirect p 1 33 s) (\<lambda>_ s.
         Option.bind (apic_timer_init p 32 100 s) (\<lambda>s.
           Some (Inr ((), kprint (''Legacy PIC disabled, LAPIC+IOAPIC online'' @ [nl]) s))))))))"

definition create_threads :: "image \<Rightarrow> 'a boot_scheme \<Rightarrow> ('a boot_scheme, unit) presult" where
  "create_threads img s =
     (let create = create_or_panic (thread_start64_addr img)
      in bind_p (create (thread_a_addr img) 5 ''ThreadA'' (sched64_init s)) (\<lambda>_ s.
         bind_p (create (thread_b_addr img) 5 ''ThreadB'' s) (\<lambda>_ s.
         bind_p (create (thread_c_addr img) 2 ''ThreadC-low'' s) (\<lambda>_ s.
         bind_p (create (launcher_addr img) 5 ''Ring3Launcher'' s) (\<lambda>ring3_thread s.
         bind_p (create_user_process s) (\<lambda>root s.
         let s = set_thread ring3_thread (\<lambda>th. th\<lparr>thread_cr3 := root\<rparr>) s
         in Some (Inr ((), kprint (''4 threads created (A,B,Ring3Launcher prio=5, C prio=2)'' @ [nl]) s))))))))"

definition kernel_main64 :: "image \<Rightarrow> (u8 \<Rightarrow> bool) \<Rightarrow> nat \<Rightarrow> u64 \<Rightarrow> 'a boot_scheme \<Rightarrow> ('a boot_scheme, unit) presult" where
  "kernel_main64 img alive p mbi_addr s =
     (let s = fpu_init p s
      in bind_p (paging_init_kernel_map p s) (\<lambda>_ s.
         let s = terminal64_init s;
             s = kprint ''[diag] kernel_main64 runtime address = '' s;
             s = kprint_hex64 (kernel_main64_addr img) s;
             s = kprint [nl] s;
             s = kprint (''========================================'' @ [nl]) s;
             s = kprint ('' NEKA64 -- preemptive scheduler online'' @ [nl]) s;
             s = kprint (''========================================'' @ [nl]) s;
             s = kprint (''FPU/SSE initialized (CR0.EM=0, CR4.OSFXSR=1)'' @ [nl]) s
         in Option.bind (gdt_init p s) (\<lambda>s.
         let s = kprint (''GDT rebuilt: kernel+user segments, TSS loaded (ring3 ready)'' @ [nl]) s;
             s = kprint ''[diag] TSS.RSP0 (cpu0) = '' s;
             s = kprint_hex64 (gdt_get_tss_rsp0 0 s) s;
             s = kprint [nl] s;
             s = idt_init p (isr_addr img) s;
             s = kprint (''IDT installed (32 exceptions + IRQ0/IRQ1)'' @ [nl]) s
         in bind_p (start_devices p s) (\<lambda>_ s.
         let s = memmap_parse_multiboot mbi_addr s;
             s = memmap_activate 0x100000 (kernel_end img) s;
             s = heap_init s
         in bind_p (heap_self_test p s) (\<lambda>_ s.
         bind_p (create_threads img s) (\<lambda>_ s.
         bind_p (smp_start_aps p alive (ap_blob img) (ap_entry64_addr img) s) (\<lambda>aps_started s.
         let s = kprint ''[smp] Application Processors started: '' s;
             s = kprint_hex64 (of_nat aps_started) s;
             s = kprint [nl] s;
             s = kprint (''Enabling interrupts -- preemption starts now.'' @ [nl, nl]) s;
             s = sti p s
         in Some (Inr ((), sched64_reschedule p s)))))))))"

end
