(* ===== verification/Smp_Props.thy ===== *)
theory Smp_Props
  imports Smp
begin

text \<open>
  Properties of the start of the other processors: what allocation, the page tables and the devices leave
  alone, what a started processor leaves of the machine, and the processors that are up at the end.
\<close>

section \<open>Allocating from the last block\<close>

lemma kmalloc_tail:
  fixes s :: "'a sched64_scheme"
  assumes ok: "heap_ok s (xs @ [(n, True)])" and taken: "\<forall>(m, f) \<in> set xs. \<not> f"
    and sz: "sz \<noteq> 0" "unat sz \<le> 2 ^ 64 - 32" and k: "unat (align16 sz) + 4 = k" "k + 48 < n"
  obtains s' where "kmalloc (sched64_reschedule p) p sz s = Some (Inr (heap_arena s + span xs + 36, s'))"
    "heap_ok s' (xs @ [(k, False), (n - k - 32, True)])" "heap_arena s' = heap_arena s"
    "\<forall>x \<in> live (heap_arena s) xs. mem s' x = mem s x"
proof -
  have "first_fit k a (xs @ [(n, True)]) = Some (a + span xs)" for a
    using taken k(2) by (induction xs arbitrary: a) (auto simp: add.assoc)
  then have fit: "first_fit (unat (align16 sz) + 4) (heap_arena s) (xs @ [(n, True)]) = Some (heap_arena s + span xs)"
    by (simp add: k(1))
  obtain us i ys s' where 1: "xs @ [(n, True)] = us @ (i, True) # ys" "heap_arena s + span xs = heap_arena s + span us"
      "kmalloc (sched64_reschedule p) p sz s = Some (Inr (heap_arena s + span xs + 36, s'))"
      "heap_ok s' (us @ carve (unat (align16 sz) + 4) i @ ys)" "heap_arena s' = heap_arena s"
      "\<forall>x \<in> live (heap_arena s) (xs @ [(n, True)]). mem s' x = mem s x"
    by (rule kheap.kmalloc_fits [OF ok sz fit, of p]) blast
  have "ys = []"
  proof (rule ccontr)
    assume "ys \<noteq> []"
    then obtain zs where "xs = us @ (i, True) # zs" using 1(1) by (cases ys rule: rev_cases) auto
    then show False using taken by auto
  qed
  then have "us = xs" "i = n" using 1(1) by auto
  moreover have "carve (unat (align16 sz) + 4) n = [(k, False), (n - k - 32, True)]" using k by (simp add: carve_def)
  ultimately show ?thesis
    using that [OF 1(3) _ 1(5)] 1(4,6) \<open>ys = []\<close> by (simp add: live_append)
qed

section \<open>What allocation and release leave alone\<close>

lemma reschedule_uart [simp, frame_simps]: "uart_log (sched64_reschedule p s) = uart_log s"
proof -
  have l: "uart_log (NKern_LockForSwitch p s) = uart_log s" "uart_log (NKern_UnlockAfterSwitch p s) = uart_log s"
    for s :: "'a sched64_scheme" using NKern_LockForSwitch_frame [of p s] NKern_UnlockAfterSwitch_frame [of p s] by auto
  have c: "uart_log (context_switch64 p prev r s) = uart_log s" for prev r and s :: "'a sched64_scheme"
    by (simp add: context_switch64_def Let_def split: option.splits)
  show ?thesis by (simp add: sched64_reschedule_def Let_def l c split: option.splits)
qed

lemma lock_uart [simp, frame_simps]:
  "uart_log (NKern_Lock p s) = uart_log s" "uart_log (NKern_Unlock (sched64_reschedule p) p t) = uart_log t"
  using NKern_Lock_frame [of p s]
  by (auto simp: NKern_Unlock_def count_down_def spin_release_def sti_def Let_def)

lemma kmalloc_uart: "kmalloc (sched64_reschedule p) p sz s = Some (Inr (q, s')) \<Longrightarrow> uart_log s' = uart_log s"
  by (auto simp: kmalloc_def Let_def split: if_splits option.splits)

lemma kfree_uart: "kfree (sched64_reschedule p) p q s = Inr ((), s') \<Longrightarrow> uart_log s' = uart_log s"
  by (auto simp: kfree_def Let_def split: if_splits)

lemma heap_ok_kprint [simp]: "heap_ok (kprint t s) bs = heap_ok s bs" "heap_ok (kprint_hex64 v s) bs = heap_ok s bs"
  using kprint_frame [of t s] kprint_hex64_frame [of v s] by (auto simp: heap_ok_def)

lemma kprint_arena [simp]: "heap_arena (kprint t s) = heap_arena s" "heap_arena (kprint_hex64 v s) = heap_arena s"
  using kprint_frame [of t s] kprint_hex64_frame [of v s] by auto

lemma align16_small:
  "unat (align16 100) = 112" "unat (align16 4000) = 4000" "unat (align16 50) = 64" "unat (align16 20000) = 20000"
  "unat (align16 16) = 16" "unat (align16 16384) = 16384"
  by (simp_all add: align16_unat)


section \<open>Allocation outside critical sections\<close>

definition quiet :: "nat \<Rightarrow> 'a nkern_scheme \<Rightarrow> bool" where
  "quiet p s \<longleftrightarrow> preempt_disable_count s (get_cpu_index p) = 0 \<and> \<not> big_kernel_lock s \<and>
     \<not> reschedule_pending s (get_cpu_index p)"

lemma lock_unlock_quiet:
  assumes "quiet p s"
  shows "NKern_Unlock resched p (mem_update f (NKern_Lock p s)) =
    (mem_update f s)\<lparr>saved_if := (saved_if s)(get_cpu_index p := iflag s p)\<rparr>"
proof -
  have "preempt_disable_count s = (preempt_disable_count s)(get_cpu_index p := 0)"
    using assms by (simp add: quiet_def fun_upd_idem)
  moreover have "(iflag s)(p := iflag s p) = iflag s" by simp
  ultimately show ?thesis
    using assms by (cases "iflag s p") (simp_all add: quiet_def nkern_defs)
qed

lemma kmalloc_state:
  assumes "kmalloc (sched64_reschedule p) p sz s = Some (Inr (q, s'))" "sz \<noteq> 0" "quiet p s"
  shows "\<exists>b. q = b + 36 \<and> s' = (s\<lparr>mem := write32 (set_free b 0 (split_block b (align16 sz + 4) (mem s))) (b + 32) BLOCK_MAGIC\<rparr>)
    \<lparr>saved_if := (saved_if s)(get_cpu_index p := iflag s p)\<rparr>"
proof -
  obtain b where b: "q = b + 36" "s' = NKern_Unlock (sched64_reschedule p) p
      (mem_update (\<lambda>_. write32 (set_free b 0 (split_block b (align16 sz + 4) (mem s))) (b + 32) BLOCK_MAGIC) (NKern_Lock p s))"
    using assms(1,2) by (auto simp: kmalloc_def Let_def split: option.splits if_splits)
  then show ?thesis using lock_unlock_quiet [OF assms(3)] by auto
qed

lemma kmalloc_tail_quiet:
  fixes s :: "'a sched64_scheme"
  assumes ok: "heap_ok s (xs @ [(n, True)])" and taken: "\<forall>(m, f) \<in> set xs. \<not> f"
    and sz: "sz \<noteq> 0" "unat sz \<le> 2 ^ 64 - 32" and k: "unat (align16 sz) + 4 = k" "k + 48 < n" and q: "quiet p s"
  obtains m' where
    "kmalloc (sched64_reschedule p) p sz s =
       Some (Inr (heap_arena s + span xs + 36, s\<lparr>mem := m', saved_if := (saved_if s)(get_cpu_index p := iflag s p)\<rparr>))"
    "heap_ok (s\<lparr>mem := m'\<rparr>) (xs @ [(k, False), (n - k - 32, True)])"
    "\<And>x. x < heap_arena s \<or> heap_arena s + HEAP_SIZE \<le> x \<Longrightarrow> m' x = mem s x"
proof -
  let ?b = "heap_arena s + span xs"
  obtain s' where s': "kmalloc (sched64_reschedule p) p sz s = Some (Inr (?b + 36, s'))"
      "heap_ok s' (xs @ [(k, False), (n - k - 32, True)])"
    by (rule kmalloc_tail [OF ok taken sz k])
  define m' where "m' = write32 (set_free ?b 0 (split_block ?b (align16 sz + 4) (mem s))) (?b + 32) BLOCK_MAGIC"
  have st: "s' = s\<lparr>mem := m', saved_if := (saved_if s)(get_cpu_index p := iflag s p)\<rparr>"
    using kmalloc_state [OF s'(1) sz(1) q] by (auto simp: m'_def)
  note h = heap_okD [OF ok]
  have hd: "hdr (mem s) ?b n True (last_addr (heap_arena s) 0 xs) 0" using seg_splitD(2) [OF h(1)] by simp
  have sp: "span xs + 32 + n = HEAP_SIZE" using h(5) by simp
  have k': "unat (align16 sz + 4) = k" using align16_bounds(2) [OF sz(2)] k(1) by simp
  have b64: "?b + 64 + n < 2 ^ 64" "0 < ?b" using h(2,6) sp by simp_all
  have "m' x = mem s x" if x: "x < heap_arena s \<or> heap_arena s + HEAP_SIZE \<le> x" for x
  proof -
    have "x < ?b \<or> ?b + 32 + n \<le> x" using x sp by auto
    then have "split_block ?b (align16 sz + 4) (mem s) x = mem s x"
      using split_block_effect(10) [OF hd k' _ _ _ b64, of x] k(2) by auto
    moreover have "m' x = split_block ?b (align16 sz + 4) (mem s) x"
      unfolding m'_def by (rule mark_outside [of _ _ n]) (use x sp k(2) in auto)
    ultimately show ?thesis by simp
  qed
  moreover have "heap_ok (s\<lparr>mem := m'\<rparr>) (xs @ [(k, False), (n - k - 32, True)])" using s'(2) by (simp add: st heap_ok_def)
  ultimately show ?thesis using that s'(1) st by blast
qed

section \<open>Reading the low half of a word\<close>

lemma read_le_write_prefix: "k \<le> n \<Longrightarrow> read_le (write_le m a n v) a k = v mod 256 ^ k"
proof (induction n arbitrary: m a v k)
  case (Suc n)
  show ?case
  proof (cases k)
    case (Suc j)
    then have "read_le (write_le (m(a := of_nat v)) (Suc a) n (v div 256)) (Suc a) j = v div 256 mod 256 ^ j"
      using Suc.IH Suc.prems by simp
    then show ?thesis using Suc by (simp add: write_le_first unat_of_nat mod_mult2_eq)
  qed simp
qed simp

lemma read32_write64_same [simp, mem_simps]: "read32 (write64 m a v) a = ucast v"
  by (simp add: read32_def write64_def read_le_write_prefix word_unat_eq_iff unat_of_nat unsigned_ucast_eq take_bit_eq_mod)

section \<open>What a processor's own start-up leaves alone\<close>

text \<open>\<open>kview\<close>: variables of the kernel that no processor changes while it starts. \<open>cview r\<close>: the registers of
  processor \<open>r\<close> and its task state. \<open>log_of r\<close>: the device registers it wrote.\<close>

definition kview where
  "kview s = (kernel_pml4 s, kernel_pdpt s, heap_arena s, heap_list s, preempt_disable_count s, big_kernel_lock s,
     reschedule_pending s, gdt_ptr s, gdt_ptr_addr s, tss_addr s, kstack0_addr s, idt_ptr s, lapic_base_pa s,
     threads64 s, thread64_count s, ready_bitmap s, ready_queue s, current s)"

definition cview where
  "cview r s = (cr3 s r, gdtr s r, idtr s r, cs_reg s r, ds_reg s r, rsp_reg s r, iflag s r, apic_base_msr s r, cr0 s r,
     cr4 s r, task_reg s r, tss s r, gdt s (5 + 2 * r), gdt s (6 + 2 * r))"

definition log_of :: "nat \<Rightarrow> 'a apic_scheme \<Rightarrow> (u64 \<times> u32) list" where
  "log_of r s = map snd (filter (\<lambda>(r', _). r' = r) (mmio_log s))"

definition ap_frame :: "nat \<Rightarrow> 'a smp_scheme \<Rightarrow> 'a smp_scheme \<Rightarrow> bool" where
  "ap_frame q s s' \<longleftrightarrow> kview s' = kview s \<and> (\<forall>r. r \<noteq> q \<longrightarrow> cview r s' = cview r s \<and> log_of r s' = log_of r s)"

lemma ap_frame_refl: "ap_frame q s s"
  by (simp add: ap_frame_def)

lemma ap_frame_trans: "ap_frame q s s' \<Longrightarrow> ap_frame q s' s'' \<Longrightarrow> ap_frame q s s''"
  by (simp add: ap_frame_def)

lemmas view_defs = ap_frame_def kview_def cview_def log_of_def

lemma kprint_views:
  fixes s :: "'a smp_scheme"
  shows "kview (kprint t s) = kview s" "cview r (kprint t s) = cview r s" "log_of r (kprint t s) = log_of r s"
    "kview (kprint_hex64 v s) = kview s" "cview r (kprint_hex64 v s) = cview r s" "log_of r (kprint_hex64 v s) = log_of r s"
  using kprint_frame [of t s] kprint_hex64_frame [of v s] by (auto simp: view_defs)

lemma mmio_write_views:
  fixes s :: "'a smp_scheme"
  shows "kview (mmio_write q a v s) = kview s" "cview r (mmio_write q a v s) = cview r s"
    "log_of r (mmio_write q a v s) = log_of r s @ (if r = q then [(a, v)] else [])"
proof -
  have "mmio_log (mmio_write q a v s) = mmio_log s @ [(q, a, v)]" by simp
  then show "log_of r (mmio_write q a v s) = log_of r s @ (if r = q then [(a, v)] else [])" by (simp add: log_of_def)
  show "kview (mmio_write q a v s) = kview s" "cview r (mmio_write q a v s) = cview r s"
    using mmio_write_frame [of q a v s] by (auto simp: view_defs)
qed

lemma port_views:
  fixes s :: "'a smp_scheme"
  shows "kview (uart_out a v s) = kview s" "cview r (uart_out a v s) = cview r s" "log_of r (uart_out a v s) = log_of r s"
    "kview (snd (inb_61 s)) = kview s" "cview r (snd (inb_61 s)) = cview r s" "log_of r (snd (inb_61 s)) = log_of r s"
    "kview (pit_wait s) = kview s" "cview r (pit_wait s) = cview r s" "log_of r (pit_wait s) = log_of r s"
    "kview (port61_update f s) = kview s" "cview r (port61_update f s) = cview r s" "log_of r (port61_update f s) = log_of r s"
    "kview (pit_busy_update g s) = kview s" "cview r (pit_busy_update g s) = cview r s" "log_of r (pit_busy_update g s) = log_of r s"
  by (simp_all add: view_defs uart_out_def inb_61_def pit_wait_eq)

lemmas dev_views = kprint_views mmio_write_views port_views

text \<open>\<open>pview\<close>: memory, what the frame allocator has left, and the flags of \<open>smp.c\<close>.\<close>

definition pview where
  "pview s = (mem s, frames_avail s, alloc_ok s, ap_ready s, g_ap_index_starting s)"

lemma frames_console [simp]:
  "frames_avail (vga_update f1 s) = frames_avail s" "frames_avail (term_row_update f2 s) = frames_avail s"
  "frames_avail (term_col_update f3 s) = frames_avail s" "frames_avail (tx_busy_update f4 s) = frames_avail s"
  "frames_avail (uart_log_update f5 s) = frames_avail s" "alloc_ok (vga_update f1 s) = alloc_ok s"
  "alloc_ok (term_row_update f2 s) = alloc_ok s" "alloc_ok (term_col_update f3 s) = alloc_ok s"
  "alloc_ok (tx_busy_update f4 s) = alloc_ok s" "alloc_ok (uart_log_update f5 s) = alloc_ok s"
  by (simp_all add: frames_avail_def alloc_ok_def memmap_ok_def free_frames_def)

lemma frames_devices [simp]:
  "frames_avail (port61_update f1 s) = frames_avail s" "frames_avail (pit_busy_update f2 s) = frames_avail s"
  "alloc_ok (port61_update f1 s) = alloc_ok s" "alloc_ok (pit_busy_update f2 s) = alloc_ok s"
  "alloc_ok (mmio_log_update f3 s) = alloc_ok s" "alloc_ok (ioregsel_update f4 s) = alloc_ok s"
  "alloc_ok (ioapic_regs_update f5 s) = alloc_ok s"
  by (simp_all add: frames_avail_def alloc_ok_def memmap_ok_def free_frames_def)

lemma dev_pview:
  fixes s :: "'a smp_scheme"
  shows "pview (kprint t s) = pview s" "pview (kprint_hex64 v s) = pview s" "pview (mmio_write q a w s) = pview s"
    "pview (uart_out b x s) = pview s" "pview (snd (inb_61 s)) = pview s" "pview (pit_wait s) = pview s"
    "pview (port61_update f s) = pview s" "pview (pit_busy_update g s) = pview s"
proof -
  show "pview (kprint t s) = pview s" "pview (kprint_hex64 v s) = pview s"
    using kprint_frame [of t s] kprint_hex64_frame [of v s] by (auto simp: pview_def)
  show "pview (mmio_write q a w s) = pview s" using mmio_write_frame [of q a w s] by (auto simp: pview_def)
qed (simp_all add: pview_def uart_out_def inb_61_def pit_wait_eq)

lemma apic_timer_init_frame:
  fixes s :: "'a smp_scheme"
  obtains s' where "apic_timer_init q 32 100 s = Some s'" "ap_frame q s s'" "cview q s' = cview q s" "pview s' = pview s"
proof -
  have "\<exists>s'. apic_timer_init q 32 100 s = Some s' \<and> kview s' = kview s \<and> pview s' = pview s \<and>
      (\<forall>r. cview r s' = cview r s \<and> (r \<noteq> q \<longrightarrow> log_of r s' = log_of r s))"
    unfolding apic_timer_init_def lapic_calibrate_ticks_def Let_def case_prod_unfold lapic_write_def
    by (simp add: dev_views dev_pview)
  then show ?thesis using that by (auto simp: ap_frame_def)
qed

lemma lapic_enable_frame:
  fixes s :: "'a smp_scheme"
  assumes "mmio_within s (Suc n) F" "2097152 dvd unat (lapic_base_pa s)" "unat (lapic_base_pa s) < 0x8000000000"
  obtains s' where "lapic_enable q s = Some (Inr ((), s'))" "ap_frame q s s'" "mmio_within s' n F"
    "only_frames F (mem s) (mem s')" "ap_ready s' = ap_ready s" "g_ap_index_starting s' = g_ap_index_starting s"
    "cview q s' = cview q (s\<lparr>apic_base_msr := (apic_base_msr s)(q := apic_base_msr s q OR push_bit 11 1)\<rparr>)"
proof -
  obtain s1 where 1: "paging_map_mmio_2mb (lapic_base_pa s) s = Some (Inr ((), s1))" "strip s1 = strip s"
      "mmio_within s1 n F" "only_frames F (mem s) (mem s1)"
    by (rule map_mmio_within [OF assms]) blast
  let ?s2 = "s1\<lparr>apic_base_msr := (apic_base_msr s1)(q := apic_base_msr s1 q OR push_bit 11 1)\<rparr>"
  define u where "u = mmio_write q (lapic_base_pa ?s2 + LAPIC_SPURIOUS) 0x1FF ?s2"
  have run: "lapic_enable q s = Some (Inr ((), u))" by (simp add: lapic_enable_def 1(1) Let_def lapic_write_def u_def)
  have "kview (strip s1) = kview (strip s)" "\<And>r. cview r (strip s1) = cview r (strip s)" "\<And>r. log_of r (strip s1) = log_of r (strip s)"
    "ap_ready (strip s1) = ap_ready (strip s)" "g_ap_index_starting (strip s1) = g_ap_index_starting (strip s)"
    using 1(2) by simp_all
  then have v: "kview s1 = kview s" "\<And>r. cview r s1 = cview r s" "\<And>r. log_of r s1 = log_of r s" "ap_ready s1 = ap_ready s"
    "g_ap_index_starting s1 = g_ap_index_starting s"
    by (simp_all add: view_defs strip_def)
  have v2: "kview ?s2 = kview s1" "\<And>r. r \<noteq> q \<Longrightarrow> cview r ?s2 = cview r s1" "\<And>r. log_of r ?s2 = log_of r s1"
    by (simp_all add: view_defs)
  have c2: "cview q ?s2 = cview q (s\<lparr>apic_base_msr := (apic_base_msr s)(q := apic_base_msr s q OR push_bit 11 1)\<rparr>)"
    using v(2) [of q] by (simp add: view_defs)
  have "pview u = pview ?s2" unfolding u_def by (rule dev_pview)
  then have p: "mem u = mem s1" "ap_ready u = ap_ready s1" "g_ap_index_starting u = g_ap_index_starting s1"
    "frames_avail u = frames_avail s1" "alloc_ok u = alloc_ok s1"
    by (simp_all add: pview_def) (simp_all add: alloc_ok_def memmap_ok_def)
  have k: "kview u = kview s1" unfolding u_def mmio_write_views v2(1) by (rule refl)
  have w: "mmio_within u n F"
    by (rule mmio_within_cong [OF 1(3)]) (use p k in \<open>simp_all add: kview_def\<close>)
  show ?thesis
  proof (rule that [OF run _ w])
    show "ap_frame q s u" unfolding ap_frame_def using k v(1-3) v2(2,3) by (simp add: u_def mmio_write_views)
    show "cview q u = cview q (s\<lparr>apic_base_msr := (apic_base_msr s)(q := apic_base_msr s q OR push_bit 11 1)\<rparr>)"
      unfolding u_def mmio_write_views by (rule c2)
  qed (use p 1(4) v in simp_all)
qed

section \<open>A processor that is up\<close>

definition ap_up :: "nat \<Rightarrow> u64 \<Rightarrow> 'a smp_scheme \<Rightarrow> bool" where
  "ap_up q stk s \<longleftrightarrow> cr3 s q = kernel_pml4 s \<and> gdtr s q = gdt_ptr s \<and> idtr s q = idt_ptr s \<and> cs_reg s q = SEL_KCODE \<and>
     ds_reg s q = SEL_KDATA \<and> rsp_reg s q = stk - 8 \<and> iflag s q \<and> bit (apic_base_msr s q) 11 \<and>
     \<not> bit (cr0 s q) 2 \<and> bit (cr4 s q) 9 \<and> (q < MAX_TSS_CPUS \<longrightarrow> tss_loaded s q q)"

lemma ap_up_views:
  assumes "ap_up r stk s" "kview s' = kview s" "cview r s' = cview r s"
  shows "ap_up r stk s'"
proof -
  have k: "kernel_pml4 s' = kernel_pml4 s" "gdt_ptr s' = gdt_ptr s" "idt_ptr s' = idt_ptr s" "tss_addr s' = tss_addr s"
    "kstack0_addr s' = kstack0_addr s" using assms(2) by (simp_all add: kview_def)
  have c: "cr3 s' r = cr3 s r" "gdtr s' r = gdtr s r" "idtr s' r = idtr s r" "cs_reg s' r = cs_reg s r" "ds_reg s' r = ds_reg s r"
    "rsp_reg s' r = rsp_reg s r" "iflag s' r = iflag s r" "apic_base_msr s' r = apic_base_msr s r" "cr0 s' r = cr0 s r"
    "cr4 s' r = cr4 s r" "task_reg s' r = task_reg s r" "tss s' r = tss s r" "gdt s' (5 + 2 * r) = gdt s (5 + 2 * r)"
    "gdt s' (6 + 2 * r) = gdt s (6 + 2 * r)" using assms(3) by (simp_all add: cview_def)
  show ?thesis using assms(1) unfolding ap_up_def tss_loaded_def k c .
qed

lemma gdt_setup_shape:
  assumes "gdt_setup_cpu_tss q i s = Some u"
  shows "\<exists>X G T. u = s\<lparr>tss := X, gdt := G, task_reg := T\<rparr>"
proof (cases "i < 0 \<or> i \<ge> int MAX_TSS_CPUS")
  case True
  then have "u = s\<lparr>tss := tss s, gdt := gdt s, task_reg := task_reg s\<rparr>"
    using assms by (auto simp: gdt_setup_cpu_tss_def)
  then show ?thesis by blast
next
  case False
  then have "u = s\<lparr>tss := tss u, gdt := gdt u, task_reg := task_reg u\<rparr>"
    using assms by (auto simp: gdt_setup_cpu_tss_def ltr_def Let_def split: if_splits)
  then show ?thesis by blast
qed

text \<open>The registers other than the task register.\<close>

definition regs where
  "regs q s = (cr3 s q, gdtr s q, idtr s q, cs_reg s q, ds_reg s q, rsp_reg s q, iflag s q, apic_base_msr s q, cr0 s q, cr4 s q)"

lemma gdt_setup_frame:
  fixes s :: "'a smp_scheme"
  assumes "q < 16"
  obtains u where "gdt_setup_cpu_tss q (int (get_cpu_index q)) s = Some u" "ap_frame q s u" "pview u = pview s"
    "regs q u = regs q s" "q < MAX_TSS_CPUS \<longrightarrow> tss_loaded u q q"
proof -
  have i: "get_cpu_index q = q" using assms by (simp add: get_cpu_index_def)
  have "\<exists>u. gdt_setup_cpu_tss q (int q) s = Some u \<and> (q < MAX_TSS_CPUS \<longrightarrow> tss_loaded u q q) \<and>
      (\<forall>k. k \<noteq> 5 + 2 * q \<longrightarrow> k \<noteq> 6 + 2 * q \<longrightarrow> gdt u k = gdt s k) \<and> (\<forall>j. j \<noteq> q \<longrightarrow> tss u j = tss s j) \<and>
      (\<forall>r. r \<noteq> q \<longrightarrow> task_reg u r = task_reg s r)"
  proof (cases "q < MAX_TSS_CPUS")
    case True
    show ?thesis by (rule gdt_setup_ok [OF True, of q s]) blast
  qed (simp add: gdt_setup_cpu_tss_def)
  then obtain u where u: "gdt_setup_cpu_tss q (int q) s = Some u" "q < MAX_TSS_CPUS \<longrightarrow> tss_loaded u q q"
      "\<forall>k. k \<noteq> 5 + 2 * q \<longrightarrow> k \<noteq> 6 + 2 * q \<longrightarrow> gdt u k = gdt s k" "\<forall>j. j \<noteq> q \<longrightarrow> tss u j = tss s j"
      "\<forall>r. r \<noteq> q \<longrightarrow> task_reg u r = task_reg s r" by blast
  obtain X G T where sh: "u = s\<lparr>tss := X, gdt := G, task_reg := T\<rparr>" using gdt_setup_shape [OF u(1)] by blast
  have even: "5 + 2 * r \<noteq> 5 + 2 * q" "5 + 2 * r \<noteq> 6 + 2 * q" "6 + 2 * r \<noteq> 5 + 2 * q" "6 + 2 * r \<noteq> 6 + 2 * q" if "r \<noteq> q" for r
    by (use that in presburger)+
  have "cview r u = cview r s" if "r \<noteq> q" for r
    using u(3-5) even [OF that] that by (simp add: cview_def sh)
  moreover have "kview u = kview s" "\<And>r. log_of r u = log_of r s" by (simp_all add: view_defs sh)
  ultimately have f: "ap_frame q s u" by (simp add: ap_frame_def)
  have "pview u = pview s" by (simp add: pview_def sh frames_avail_def alloc_ok_def memmap_ok_def free_frames_def)
  then show ?thesis using that [of u] u(1,2) f by (simp add: i regs_def sh)
qed

abbreviation (input) MBOX :: nat where "MBOX \<equiv> TRAMPOLINE_ADDR + MBOX_OFFSET"

text \<open>The mailbox as the trampoline needs it.\<close>

definition mbox_for :: "u64 \<Rightarrow> u64 \<Rightarrow> 'a smp_scheme \<Rightarrow> bool" where
  "mbox_for stk ap_entry_addr s \<longleftrightarrow> ucast (read32 (mem s) MBOX) = kernel_pml4 s \<and>
     unat (read32 (mem s) (MBOX + 8)) = gdt_ptr_addr s \<and> read64 (mem s) (MBOX + 16) = stk \<and>
     read64 (mem s) (MBOX + 24) = ap_entry_addr"

lemma ap_first_steps:
  fixes s :: "'a smp_scheme"
  assumes "mbox_for stk e s"
  obtains t where "ap_trampoline q e s = Some t" "ap_frame q s (idt_load_current_cpu q (fpu_init q t))"
    "pview (idt_load_current_cpu q (fpu_init q t)) = pview s"
    "regs q (idt_load_current_cpu q (fpu_init q t)) =
       (kernel_pml4 s, gdt_ptr s, idt_ptr s, SEL_KCODE, SEL_KDATA, stk - 8, False, apic_base_msr s q,
        cr0 (fpu_init q t) q, cr4 (fpu_init q t) q)"
proof -
  define t where "t = s\<lparr>cr3 := (cr3 s)(q := kernel_pml4 s), gdtr := (gdtr s)(q := gdt_ptr s),
      cs_reg := (cs_reg s)(q := SEL_KCODE), ds_reg := (ds_reg s)(q := SEL_KDATA),
      rsp_reg := (rsp_reg s)(q := stk - 8), iflag := (iflag s)(q := False)\<rparr>"
  let ?u = "idt_load_current_cpu q (fpu_init q t)"
  have run: "ap_trampoline q e s = Some t"
    using assms unfolding mbox_for_def by (simp add: ap_trampoline_def Let_def t_def)
  have f: "ap_frame q s ?u"
    by (simp add: view_defs t_def fpu_init_def idt_load_current_cpu_def Let_def)
  have p: "pview ?u = pview s"
    by (simp add: pview_def t_def fpu_init_def idt_load_current_cpu_def Let_def frames_avail_def alloc_ok_def
        memmap_ok_def free_frames_def)
  have g: "regs q ?u = (kernel_pml4 s, gdt_ptr s, idt_ptr s, SEL_KCODE, SEL_KDATA, stk - 8, False, apic_base_msr s q,
        cr0 (fpu_init q t) q, cr4 (fpu_init q t) q)"
    by (simp add: regs_def t_def fpu_init_def idt_load_current_cpu_def Let_def)
  show ?thesis using that [OF run f p g] .
qed

lemma console_ap_frame:
  fixes s s' :: "'a smp_scheme"
  assumes "console_step s t s'"
  shows "ap_frame q s s'" "pview s' = pview s" "cview r s' = cview r s"
  using assms by (auto simp: console_step_def view_defs pview_def)

lemma pview_within:
  fixes s s' :: "'a smp_scheme"
  assumes "mmio_within s n F" "pview s' = pview s" "kview s' = kview s"
  shows "mmio_within s' n F"
  by (rule mmio_within_cong [OF assms(1)]) (use assms(2,3) in \<open>simp_all add: pview_def kview_def\<close>)

text \<open>The end of \<open>ap_entry64\<close>: the flag is set and interrupts are enabled.\<close>

definition ap_finish :: "nat \<Rightarrow> nat \<Rightarrow> 'a smp_scheme \<Rightarrow> 'a smp_scheme" where
  "ap_finish q k s =
     (let s = kprint (''[smp] apic_timer_init done'' @ [nl]) s;
          s = s\<lparr>ap_ready := (ap_ready s)(k := True)\<rparr>
      in sti q (kprint (''[smp] ap_ready set'' @ [nl]) s))"

lemma flag_views:
  fixes s :: "'a smp_scheme"
  shows "kview (ap_ready_update f s) = kview s" "cview r (ap_ready_update f s) = cview r s" "log_of r (ap_ready_update f s) = log_of r s"
    "kview (g_ap_index_starting_update g s) = kview s" "cview r (g_ap_index_starting_update g s) = cview r s"
    "log_of r (g_ap_index_starting_update g s) = log_of r s"
    "pview (ap_ready_update f s) = (case pview s of (m, fs, ok, rd, i) \<Rightarrow> (m, fs, ok, f rd, i))"
    "pview (g_ap_index_starting_update g s) = (case pview s of (m, fs, ok, rd, i) \<Rightarrow> (m, fs, ok, rd, g i))"
  by (simp_all add: view_defs pview_def frames_avail_def alloc_ok_def memmap_ok_def free_frames_def)

lemma sti_views:
  fixes s :: "'a smp_scheme"
  shows "kview (sti q s) = kview s" "r \<noteq> q \<Longrightarrow> cview r (sti q s) = cview r s" "log_of r (sti q s) = log_of r s" "pview (sti q s) = pview s"
    "cview q (sti q s) = cview q (s\<lparr>iflag := (iflag s)(q := True)\<rparr>)"
  by (simp_all add: sti_def view_defs pview_def frames_avail_def alloc_ok_def memmap_ok_def free_frames_def)

lemma cview_iflag: "cview q s = cview q t \<Longrightarrow> cview q (s\<lparr>iflag := (iflag s)(q := v)\<rparr>) = cview q (t\<lparr>iflag := (iflag t)(q := v)\<rparr>)"
  by (simp add: cview_def)

lemma ap_finish_views:
  fixes s :: "'a smp_scheme"
  shows "ap_frame q s (ap_finish q k s)"
    "pview (ap_finish q k s) = (mem s, frames_avail s, alloc_ok s, (ap_ready s)(k := True), g_ap_index_starting s)"
    "cview q (ap_finish q k s) = cview q (s\<lparr>iflag := (iflag s)(q := True)\<rparr>)"
proof -
  define z where "z = kprint (''[smp] apic_timer_init done'' @ [nl]) s"
  define y where "y = kprint (''[smp] ap_ready set'' @ [nl]) (z\<lparr>ap_ready := (ap_ready z)(k := True)\<rparr>)"
  have f: "ap_finish q k s = sti q y" by (simp only: ap_finish_def y_def z_def Let_def)
  have z: "kview z = kview s" "\<And>r. cview r z = cview r s" "\<And>r. log_of r z = log_of r s" "pview z = pview s"
    by (simp_all add: z_def kprint_views dev_pview)
  have y: "kview y = kview s" "\<And>r. cview r y = cview r s" "\<And>r. log_of r y = log_of r s"
    by (simp_all add: y_def kprint_views flag_views z)
  show "ap_frame q s (ap_finish q k s)" by (simp add: f ap_frame_def sti_views y)
  show "cview q (ap_finish q k s) = cview q (s\<lparr>iflag := (iflag s)(q := True)\<rparr>)" unfolding f sti_views by (rule cview_iflag [OF y(2)])
  show "pview (ap_finish q k s) = (mem s, frames_avail s, alloc_ok s, (ap_ready s)(k := True), g_ap_index_starting s)"
    using z(4) unfolding f sti_views y_def dev_pview flag_views by (simp add: pview_def)
qed

lemma ap_runs_ok:
  fixes s :: "'a smp_scheme"
  assumes q: "q < 16" and mm: "mmio_within s (Suc n) F" "2097152 dvd unat (lapic_base_pa s)" "unat (lapic_base_pa s) < 0x8000000000"
    and mb: "mbox_for stk e s" and k: "g_ap_index_starting s = int k"
  obtains s' where "ap_runs q e s = Some s'" "ap_frame q s s'" "mmio_within s' n F" "only_frames F (mem s) (mem s')"
    "ap_up q stk s'" "ap_ready s' = (ap_ready s)(k := True)"
proof -
  obtain t where t: "ap_trampoline q e s = Some t" "ap_frame q s (idt_load_current_cpu q (fpu_init q t))"
      "pview (idt_load_current_cpu q (fpu_init q t)) = pview s"
      "regs q (idt_load_current_cpu q (fpu_init q t)) = (kernel_pml4 s, gdt_ptr s, idt_ptr s, SEL_KCODE, SEL_KDATA, stk - 8,
        False, apic_base_msr s q, cr0 (fpu_init q t) q, cr4 (fpu_init q t) q)"
    by (rule ap_first_steps [OF mb])
  define c0 c4 where "c0 = cr0 (fpu_init q t) q" and "c4 = cr4 (fpu_init q t) q"
  have c: "\<not> bit c0 2" "bit c4 9" unfolding c0_def c4_def by (simp_all add: fpu_init_bits)
  obtain u where u: "gdt_setup_cpu_tss q (int (get_cpu_index q)) (idt_load_current_cpu q (fpu_init q t)) = Some u"
      "ap_frame q (idt_load_current_cpu q (fpu_init q t)) u" "pview u = pview (idt_load_current_cpu q (fpu_init q t))"
      "regs q u = regs q (idt_load_current_cpu q (fpu_init q t))" "q < MAX_TSS_CPUS \<longrightarrow> tss_loaded u q q"
    by (rule gdt_setup_frame [OF q])
  define w where "w = kprint (''[smp] ap_entry64 reached'' @ [nl]) (kprint (''[smp] AP TSS configured'' @ [nl]) u)"
  have w: "ap_frame q s w" "pview w = pview s" "cview q w = cview q u" "kview w = kview s"
    using t(2,3) u(2,3) by (simp_all add: w_def ap_frame_def kprint_views dev_pview)
  have lw: "lapic_base_pa w = lapic_base_pa s" using w(4) by (simp add: kview_def)
  define up where "up = (\<lambda>r :: 'a smp_scheme. r\<lparr>apic_base_msr := (apic_base_msr r)(q := apic_base_msr r q OR push_bit 11 1)\<rparr>)"
  obtain x where x: "lapic_enable q w = Some (Inr ((), x))" "ap_frame q w x" "mmio_within x n F" "only_frames F (mem w) (mem x)"
      "ap_ready x = ap_ready w" "g_ap_index_starting x = g_ap_index_starting w" "cview q x = cview q (up w)"
    unfolding up_def by (rule lapic_enable_frame [OF pview_within [OF mm(1) w(2,4)], of q]) (use mm(2,3) lw in simp_all)
  define y where "y = kprint [nl] (kprint_hex64 (ucast (lapic_get_id q)) (kprint (''[smp] got id'' @ [nl])
      (kprint (''[smp] lapic_enable done'' @ [nl]) x)))"
  have y: "ap_frame q x y" "pview y = pview x" "cview q y = cview q x"
    by (simp_all add: y_def ap_frame_def kprint_views dev_pview)
  obtain z where z: "apic_timer_init q 32 100 y = Some z" "ap_frame q y z" "cview q z = cview q y" "pview z = pview y"
    by (rule apic_timer_init_frame [of q y])
  define s' where "s' = ap_finish q k z"
  note fin = ap_finish_views [where q = q and s = z and k = k, folded s'_def]
  have g: "g_ap_index_starting (kprint (''[smp] apic_timer_init done'' @ [nl]) z) = int k"
    using dev_pview(1) [of "''[smp] apic_timer_init done'' @ [nl]" z] z(4) y(2) x(6) w(2) k by (simp add: pview_def)
  have run: "ap_runs q e s = Some s'"
    by (simp only: ap_runs_def t(1) ap_entry64_def Let_def option.case u(1) w_def [symmetric] x(1) bind_p_def sum.case prod.case
        y_def [symmetric] z(1) g of_nat_0_le_iff if_True nat_int s'_def ap_finish_def)
  have f: "ap_frame q s s'" "kview s' = kview x" using w(1) x(2) y(1) z(2) fin(1) by (simp_all add: ap_frame_def)
  have px: "mem s' = mem x" "frames_avail s' = frames_avail x" "alloc_ok s' = alloc_ok x" "ap_ready s' = (ap_ready s)(k := True)"
    using y(2) z(4) fin(2) x(5) w(2) by (simp_all add: pview_def)
  have within: "mmio_within s' n F"
    by (rule mmio_within_cong [OF x(3)]) (use px f(2) in \<open>simp_all add: kview_def\<close>)
  have only: "only_frames F (mem s) (mem s')" using x(4) w(2) px(1) by (simp add: pview_def)
  have "cview q s' = cview q ((up u)\<lparr>iflag := (iflag u)(q := True)\<rparr>)"
    using fin(3) x(7) y(3) z(3) w(3) by (simp add: cview_def up_def)
  moreover have "kview s' = kview u" "kview u = kview s" using f(1) t(2) u(2) by (simp_all add: ap_frame_def)
  moreover have "ap_up q stk ((up u)\<lparr>iflag := (iflag u)(q := True)\<rparr>)"
    using u(4,5) t(4) c \<open>kview u = kview s\<close> unfolding c0_def [symmetric] c4_def [symmetric]
    by (simp add: up_def ap_up_def regs_def kview_def tss_loaded_def bit_or_iff bit_push_bit_iff)
  ultimately have "ap_up q stk s'" by (intro ap_up_views [of q stk _ s']) (simp_all add: kview_def up_def)
  then show ?thesis using that [OF run f(1) within only _ px(4)] by blast
qed

section \<open>Before the messages are sent\<close>

text \<open>What the boot processor needs to start \<open>m\<close> more processors: page tables and frames (all in \<open>F\<close>) away from
  the trampoline's page and the heap, the heap's blocks taken except the last, and enough left of it.\<close>

definition smp_inv :: "nat \<Rightarrow> u64 set \<Rightarrow> nat \<Rightarrow> blocks \<Rightarrow> nat \<Rightarrow> 'a smp_scheme \<Rightarrow> bool" where
  "smp_inv p F m xs r s \<longleftrightarrow> mmio_within s m F \<and>
     (\<forall>t \<in> F. 0x9000 \<le> unat t \<and> (unat t + 4096 \<le> heap_arena s \<or> heap_arena s + HEAP_SIZE \<le> unat t)) \<and>
     0x9000 \<le> heap_arena s \<and> heap_ok s (xs @ [(r, True)]) \<and> (\<forall>(n, f) \<in> set xs. \<not> f) \<and> 16420 * m + 64 \<le> r \<and>
     quiet p s \<and> 2097152 dvd unat (lapic_base_pa s) \<and> unat (lapic_base_pa s) < 0x8000000000 \<and>
     unat (kernel_pml4 s) < 2 ^ 32 \<and> gdt_ptr_addr s < 2 ^ 32"

lemma heap_ok_cong:
  assumes "heap_ok s bs" "heap_list s' = heap_list s" "heap_arena s' = heap_arena s"
    "\<And>x. heap_arena s \<le> x \<Longrightarrow> x < heap_arena s + HEAP_SIZE \<Longrightarrow> mem s' x = mem s x"
  shows "heap_ok s' bs"
  using assms seg_cong [of "heap_arena s" bs "mem s'" "mem s"] by (auto simp: heap_ok_def)

lemma smp_inv_cong:
  fixes s s' :: "'a smp_scheme"
  assumes inv: "smp_inv p F m xs r s" and eq: "kview s' = kview s" "frames_avail s' = frames_avail s" "alloc_ok s' = alloc_ok s"
    and m: "\<And>x. 0x9000 \<le> x \<Longrightarrow> mem s' x = mem s x"
  shows "smp_inv p F m xs r s'"
proof -
  have k: "heap_arena s' = heap_arena s" "heap_list s' = heap_list s" "quiet p s' = quiet p s" "lapic_base_pa s' = lapic_base_pa s"
    "kernel_pml4 s' = kernel_pml4 s" "kernel_pdpt s' = kernel_pdpt s" "gdt_ptr_addr s' = gdt_ptr_addr s"
    using eq(1) by (simp_all add: kview_def quiet_def)
  have "mmio_within s' m F"
    by (rule mmio_within_cong [of s]) (use inv k eq m in \<open>auto simp: smp_inv_def\<close>)
  moreover have "heap_ok s' (xs @ [(r, True)])"
    by (rule heap_ok_cong [of s]) (use inv k m in \<open>auto simp: smp_inv_def\<close>)
  ultimately show ?thesis using inv by (simp add: smp_inv_def k)
qed

lemma copy_bytes_outside: "x < d \<or> d + length b \<le> x \<Longrightarrow> copy_bytes d b m x = m x"
proof -
  have "x \<notin> (+) d ` set js \<Longrightarrow> foldl (\<lambda>m i. m(d + i := b ! i)) m js x = m x" for js
    by (induction js arbitrary: m) auto
  then show "x < d \<or> d + length b \<le> x \<Longrightarrow> copy_bytes d b m x = m x" by (auto simp: copy_bytes_def)
qed

definition startup_ipis :: "u8 \<Rightarrow> (u64 \<times> u32) list" where
  "startup_ipis i = (let to = (0xFEE00310, push_bit 24 (ucast i))
     in [to, (0xFEE00300, 0x4500), to, (0xFEE00300, 0x4608), to, (0xFEE00300, 0x4608)])"

lemma send_views:
  fixes s :: "'a smp_scheme"
  shows "kview (send_init_sipi_sipi p i s) = kview s" "cview r (send_init_sipi_sipi p i s) = cview r s"
    "log_of r (send_init_sipi_sipi p i s) = log_of r s @ (if r = p then startup_ipis i else [])"
    "pview (send_init_sipi_sipi p i s) = pview s"
  by (simp_all add: send_init_sipi_sipi_def Let_def dev_views dev_pview startup_ipis_def)

definition stack_top :: "nat \<Rightarrow> u64" where
  "stack_top a = (of_nat a + of_nat AP_STACK_SIZE) AND NOT 0xF"

definition ap_outcome :: "(u8 \<Rightarrow> bool) \<Rightarrow> u64 \<Rightarrow> u8 \<Rightarrow> nat \<Rightarrow> 'a smp_scheme \<Rightarrow> ('a smp_scheme, nat) presult" where
  "ap_outcome alive e i k s =
     (case (if alive i then ap_runs (unat i) e s else Some s) of
        None \<Rightarrow> None
      | Some s \<Rightarrow>
          if ap_ready s k
          then Some (Inr (k + 1, kprint (''[smp] AP confirmed alive.'' @ [nl]) s))
          else Some (Inr (k, kprint (''[smp] WARNING: AP did not respond within timeout.'' @ [nl]) s)))"

definition ap_mailbox :: "u64 \<Rightarrow> u64 \<Rightarrow> u64 \<Rightarrow> nat \<Rightarrow> memory \<Rightarrow> memory" where
  "ap_mailbox e k4 g a m = write64 (write64 (write64 (write64 m MBOX k4) (MBOX + 8) g) (MBOX + 16) (stack_top a)) (MBOX + 24) e"

definition ap_told :: "nat \<Rightarrow> u8 \<Rightarrow> nat \<Rightarrow> nat \<Rightarrow> 'a smp_scheme \<Rightarrow> 'a smp_scheme" where
  "ap_told p i k a s =
     (let s = mbox_line ''[smp diag] mbox[0] kernel_cr3   = '' 0 s;
          s = mbox_line ''[smp diag] mbox[1] gdt_ptr_addr = '' 1 s;
          s = mbox_line ''[smp diag] mbox[2] stack_top    = '' 2 s;
          s = mbox_line ''[smp diag] mbox[3] ap_entry64   = '' 3 s;
          s = kprint [nl] (kprint_hex64 (of_nat a) (kprint ''[smp diag] ap_stack (raw kmalloc) = '' s));
          s = s\<lparr>ap_ready := (ap_ready s)(k := False)\<rparr>;
          s = s\<lparr>g_ap_index_starting := int k\<rparr>;
          s = kprint (''...'' @ [nl]) (kprint_hex64 (ucast i) (kprint ''[smp] starting AP, APIC ID='' s))
      in send_init_sipi_sipi p i s)"

lemma mbox_line_views:
  fixes s :: "'a smp_scheme"
  shows "kview (mbox_line t n s) = kview s" "cview r (mbox_line t n s) = cview r s" "log_of r (mbox_line t n s) = log_of r s"
    "pview (mbox_line t n s) = pview s"
  by (simp_all add: mbox_line_def kprint_views dev_pview)

lemma ap_told_views:
  fixes s :: "'a smp_scheme"
  shows "kview (ap_told p i k a s) = kview s" "cview r (ap_told p i k a s) = cview r s"
    "log_of r (ap_told p i k a s) = log_of r s @ (if r = p then startup_ipis i else [])"
    "pview (ap_told p i k a s) = (mem s, frames_avail s, alloc_ok s, (ap_ready s)(k := False), int k)"
proof -
  show "kview (ap_told p i k a s) = kview s" "cview r (ap_told p i k a s) = cview r s"
    "log_of r (ap_told p i k a s) = log_of r s @ (if r = p then startup_ipis i else [])"
    by (simp_all add: ap_told_def Let_def send_views kprint_views mbox_line_views flag_views)
  define t where "t = kprint [nl] (kprint_hex64 (of_nat a) (kprint ''[smp diag] ap_stack (raw kmalloc) = ''
    (mbox_line ''[smp diag] mbox[3] ap_entry64   = '' 3 (mbox_line ''[smp diag] mbox[2] stack_top    = '' 2
    (mbox_line ''[smp diag] mbox[1] gdt_ptr_addr = '' 1 (mbox_line ''[smp diag] mbox[0] kernel_cr3   = '' 0 s))))))"
  have "pview t = pview s" unfolding t_def dev_pview mbox_line_views by (rule refl)
  moreover have "pview (ap_told p i k a s) = pview (t\<lparr>ap_ready := (ap_ready t)(k := False), g_ap_index_starting := int k\<rparr>)"
    unfolding ap_told_def Let_def t_def [symmetric] send_views dev_pview by (rule refl)
  ultimately show "pview (ap_told p i k a s) = (mem s, frames_avail s, alloc_ok s, (ap_ready s)(k := False), int k)"
    unfolding flag_views by (simp add: pview_def)
qed

lemma start_ap_eq:
  "start_ap p alive blob e k4 g i k s =
     (let s = (if \<not> memmap_region_is_safe (of_nat TRAMPOLINE_ADDR) (of_nat (length blob)) s
               then kprint (''[smp] WARNING: trampoline address 0x8000 not confirmed safe by memory map!'' @ [nl]) s else s)
      in bind_p (kmalloc (sched64_reschedule p) p (of_nat AP_STACK_SIZE) (s\<lparr>mem := copy_bytes TRAMPOLINE_ADDR blob (mem s)\<rparr>))
           (\<lambda>a s. ap_outcome alive e i k (ap_told p i k a (s\<lparr>mem := ap_mailbox e k4 g a (mem s)\<rparr>))))"
proof -
  have mb: "t\<lparr>mem := ap_mailbox e k4 g a (mem t)\<rparr> =
     (let t = t\<lparr>mem := write64 (mem t) MBOX k4\<rparr>; t = t\<lparr>mem := write64 (mem t) (MBOX + 8) g\<rparr>;
          t = t\<lparr>mem := write64 (mem t) (MBOX + 16) (stack_top a)\<rparr> in t\<lparr>mem := write64 (mem t) (MBOX + 24) e\<rparr>)"
    for a and t :: "'a smp_scheme" by (simp add: ap_mailbox_def Let_def)
  show ?thesis unfolding mb by (simp only: start_ap_def Let_def ap_outcome_def ap_told_def stack_top_def)
qed

lemma ap_mailbox_holds:
  assumes "mem u = ap_mailbox e (kernel_pml4 u) (of_nat (gdt_ptr_addr u)) a m" "unat (kernel_pml4 u) < 2 ^ 32" "gdt_ptr_addr u < 2 ^ 32"
  shows "mbox_for (stack_top a) e u"
proof -
  have r: "read32 (mem u) MBOX = ucast (kernel_pml4 u)" "read32 (mem u) (MBOX + 8) = ucast (of_nat (gdt_ptr_addr u) :: u64)"
    "read64 (mem u) (MBOX + 16) = stack_top a" "read64 (mem u) (MBOX + 24) = e"
    unfolding assms(1) ap_mailbox_def by (simp_all add: mem_simps)
  have "ucast (ucast (kernel_pml4 u) :: u32) = kernel_pml4 u"
    using assms(2) by (simp add: word_unat_eq_iff unsigned_ucast_eq take_bit_eq_mod unat_mod_distrib)
  moreover have "unat (ucast (of_nat (gdt_ptr_addr u) :: u64) :: u32) = gdt_ptr_addr u"
    using assms(3) by (simp add: unsigned_ucast_eq unat_of_nat take_bit_eq_mod)
  ultimately show ?thesis unfolding mbox_for_def r by simp
qed

lemma ap_mailbox_outside: "0x9000 \<le> x \<Longrightarrow> ap_mailbox e k4 g a m x = m x"
  by (simp add: ap_mailbox_def mem_simps)

lemma mem_views:
  fixes s :: "'a smp_scheme"
  shows "kview (mem_update f s) = kview s" "cview q (mem_update f s) = cview q s" "log_of q (mem_update f s) = log_of q s"
    "frames_avail (mem_update f s) = frames_avail s" "alloc_ok (mem_update f s) = alloc_ok s" "ap_ready (mem_update f s) = ap_ready s"
    "kview (saved_if_update g s) = kview s" "cview q (saved_if_update g s) = cview q s" "log_of q (saved_if_update g s) = log_of q s"
    "frames_avail (saved_if_update g s) = frames_avail s" "alloc_ok (saved_if_update g s) = alloc_ok s"
  by (simp_all add: view_defs frames_avail_def alloc_ok_def memmap_ok_def free_frames_def)

lemma start_ap_prepares:
  fixes s :: "'a smp_scheme"
  assumes inv: "smp_inv p F (Suc n) xs r s" and blob: "length blob \<le> 0x1000"
  obtains u where
    "start_ap p alive blob e (kernel_pml4 s) (of_nat (gdt_ptr_addr s)) i k s = ap_outcome alive e i k u"
    "smp_inv p F n (xs @ [(16388, False)]) (r - 16420) u" "mmio_within u (Suc n) F"
    "mbox_for (stack_top (heap_arena s + span xs + 36)) e u" "kview u = kview s" "\<And>q. cview q u = cview q s"
    "\<And>q. log_of q u = log_of q s @ (if q = p then startup_ipis i else [])" "g_ap_index_starting u = int k"
    "\<not> ap_ready u k"
proof -
  define s0 where "s0 = (if \<not> memmap_region_is_safe (of_nat TRAMPOLINE_ADDR) (of_nat (length blob)) s
    then kprint (''[smp] WARNING: trampoline address 0x8000 not confirmed safe by memory map!'' @ [nl]) s else s)"
  define s1 where "s1 = s0\<lparr>mem := copy_bytes TRAMPOLINE_ADDR blob (mem s0)\<rparr>"
  have v0: "kview s0 = kview s" "pview s0 = pview s" "\<And>q. cview q s0 = cview q s" "\<And>q. log_of q s0 = log_of q s"
    by (simp_all add: s0_def dev_views dev_pview)
  have v1: "kview s1 = kview s" "frames_avail s1 = frames_avail s" "alloc_ok s1 = alloc_ok s" "\<And>q. cview q s1 = cview q s"
    "\<And>q. log_of q s1 = log_of q s"
    using v0 unfolding s1_def mem_views by (simp_all add: pview_def)
  have m1: "mem s1 x = mem s x" if "0x9000 \<le> x" for x
    using v0(2) that blob by (simp add: s1_def copy_bytes_outside pview_def)
  have inv1: "smp_inv p F (Suc n) xs r s1" by (rule smp_inv_cong [OF inv v1(1-3) m1])
  have r: "16388 + 48 < r" using inv by (simp add: smp_inv_def)
  have ar: "heap_arena s1 = heap_arena s" using v1(1) by (simp add: kview_def)
  let ?a = "heap_arena s + span xs + 36"
  have pre: "heap_ok s1 (xs @ [(r, True)])" "\<forall>(m, f) \<in> set xs. \<not> f" "quiet p s1" using inv1 by (simp_all add: smp_inv_def)
  have sz: "(16384 :: u64) \<noteq> 0" "unat (16384 :: u64) \<le> 2 ^ 64 - 32" "unat (align16 16384) + 4 = 16388"
    using align16_small by simp_all
  obtain m' where km: "kmalloc (sched64_reschedule p) p 16384 s1 =
        Some (Inr (?a, s1\<lparr>mem := m', saved_if := (saved_if s1)(get_cpu_index p := iflag s1 p)\<rparr>))"
      "heap_ok (s1\<lparr>mem := m'\<rparr>) (xs @ [(16388, False), (r - 16388 - 32, True)])"
      "\<And>x. x < heap_arena s \<or> heap_arena s + HEAP_SIZE \<le> x \<Longrightarrow> m' x = mem s1 x"
    by (rule kmalloc_tail_quiet [OF pre(1,2) sz r pre(3), unfolded ar]) blast
  define s2 where "s2 = s1\<lparr>mem := m', saved_if := (saved_if s1)(get_cpu_index p := iflag s1 p)\<rparr>"
  define s3 where "s3 = s2\<lparr>mem := ap_mailbox e (kernel_pml4 s) (of_nat (gdt_ptr_addr s)) ?a (mem s2)\<rparr>"
  define u where "u = ap_told p i k ?a s3"
  have ks2: "kmalloc (sched64_reschedule p) p (of_nat AP_STACK_SIZE) s1 = Some (Inr (?a, s2))"
    unfolding s2_def of_nat_numeral by (rule km(1))
  have run: "start_ap p alive blob e (kernel_pml4 s) (of_nat (gdt_ptr_addr s)) i k s = ap_outcome alive e i k u"
    unfolding start_ap_eq Let_def s0_def [symmetric] s1_def [symmetric] u_def s3_def ks2 bind_p_simps ..
  have v3: "kview s3 = kview s" "frames_avail s3 = frames_avail s" "alloc_ok s3 = alloc_ok s" "\<And>q. cview q s3 = cview q s"
    "\<And>q. log_of q s3 = log_of q s"
    unfolding s3_def s2_def mem_views by (rule v1)+
  have u: "kview u = kview s" "frames_avail u = frames_avail s" "alloc_ok u = alloc_ok s" "\<And>q. cview q u = cview q s"
    "mem u = mem s3" "g_ap_index_starting u = int k" "\<not> ap_ready u k"
    "\<And>q. log_of q u = log_of q s @ (if q = p then startup_ipis i else [])"
    using ap_told_views [where p = p and i = i and k = k and a = "?a" and s = s3] v3 by (simp_all add: u_def pview_def)
  have mu: "mem u x = m' x" if "0x9000 \<le> x" for x using that by (simp add: u(5) s3_def s2_def ap_mailbox_outside)
  have ku: "heap_arena u = heap_arena s" "heap_list u = heap_list s" "quiet p u = quiet p s" "lapic_base_pa u = lapic_base_pa s"
    "kernel_pml4 u = kernel_pml4 s" "kernel_pdpt u = kernel_pdpt s" "gdt_ptr_addr u = gdt_ptr_addr s" "heap_list s1 = heap_list s"
    using u(1) v1(1) by (simp_all add: kview_def quiet_def)
  have w: "mmio_within u (Suc n) F"
  proof (rule mmio_within_cong [of s])
    fix f x assume "f \<in> F" "unat f \<le> x" "x < unat f + 4096"
    then have "0x9000 \<le> x" "x < heap_arena s \<or> heap_arena s + HEAP_SIZE \<le> x" using inv by (auto simp: smp_inv_def)
    then show "mem u x = mem s x" using mu km(3) m1 by simp
  qed (use inv ku u in \<open>simp_all add: smp_inv_def\<close>)
  have "heap_ok u (xs @ [(16388, False), (r - 16388 - 32, True)])"
    by (rule heap_ok_cong [OF km(2)]) (use inv ku mu ar in \<open>simp_all add: smp_inv_def\<close>)
  then have "smp_inv p F n (xs @ [(16388, False)]) (r - 16420) u"
    using inv w by (auto simp: smp_inv_def ku mmio_within_def)
  moreover have "mbox_for (stack_top ?a) e u"
    by (rule ap_mailbox_holds) (use inv in \<open>simp_all add: u(5) s3_def ku smp_inv_def\<close>)
  ultimately show ?thesis using that [OF run _ w] u by blast
qed

lemma smp_inv_run:
  fixes u t :: "'a smp_scheme"
  assumes inv: "smp_inv p F n xs r u" and t: "kview t = kview u" "mmio_within t n F" "only_frames F (mem u) (mem t)"
  shows "smp_inv p F n xs r t"
proof -
  have k: "heap_arena t = heap_arena u" "heap_list t = heap_list u" "quiet p t = quiet p u" "lapic_base_pa t = lapic_base_pa u"
    "kernel_pml4 t = kernel_pml4 u" "gdt_ptr_addr t = gdt_ptr_addr u"
    using t(1) by (simp_all add: kview_def quiet_def)
  have "heap_ok t (xs @ [(r, True)])"
  proof (rule heap_ok_cong)
    fix x assume x: "heap_arena u \<le> x" "x < heap_arena u + HEAP_SIZE"
    have "x < unat f \<or> unat f + 4096 \<le> x" if "f \<in> F" for f
    proof -
      have "unat f + 4096 \<le> heap_arena u \<or> heap_arena u + HEAP_SIZE \<le> unat f" using inv that by (simp add: smp_inv_def)
      then show ?thesis using x by linarith
    qed
    then show "mem t x = mem u x" using t(3) by (simp add: only_frames_def)
  qed (use inv k in \<open>simp_all add: smp_inv_def\<close>)
  then show ?thesis using inv t(2) by (simp add: smp_inv_def k)
qed

lemma smp_inv_kprint: "smp_inv p F n xs r s \<Longrightarrow> smp_inv p F n xs r (kprint t s)"
  by (rule smp_inv_cong [of _ _ _ _ _ s]) (use dev_pview(1) [of t s] in \<open>simp_all add: kprint_views pview_def\<close>)

lemma smp_inv_mono: "smp_inv p F (Suc n) xs r s \<Longrightarrow> smp_inv p F n xs r s"
  by (auto simp: smp_inv_def mmio_within_def)

lemma start_ap_ok:
  fixes s :: "'a smp_scheme"
  assumes inv: "smp_inv p F (Suc n) xs r s" and blob: "length blob \<le> 0x1000" and i: "unat i < 16" "unat i \<noteq> p"
  obtains s' where
    "start_ap p alive blob e (kernel_pml4 s) (of_nat (gdt_ptr_addr s)) i k s = Some (Inr (if alive i then k + 1 else k, s'))"
    "smp_inv p F n (xs @ [(16388, False)]) (r - 16420) s'" "kview s' = kview s" "log_of p s' = log_of p s @ startup_ipis i"
    "alive i \<longrightarrow> ap_up (unat i) (stack_top (heap_arena s + span xs + 36)) s'"
    "\<forall>q. alive i \<longrightarrow> q \<noteq> unat i \<longrightarrow> cview q s' = cview q s" "\<not> alive i \<longrightarrow> (\<forall>q. cview q s' = cview q s)"
proof -
  let ?a = "heap_arena s + span xs + 36"
  obtain u where u: "start_ap p alive blob e (kernel_pml4 s) (of_nat (gdt_ptr_addr s)) i k s = ap_outcome alive e i k u"
    "smp_inv p F n (xs @ [(16388, False)]) (r - 16420) u" "mmio_within u (Suc n) F" "mbox_for (stack_top ?a) e u" "kview u = kview s"
    "\<And>q. cview q u = cview q s" "\<And>q. log_of q u = log_of q s @ (if q = p then startup_ipis i else [])"
    "g_ap_index_starting u = int k" "\<not> ap_ready u k"
    by (rule start_ap_prepares [OF inv blob, where alive = alive and e = e and i = i and k = k]) blast
  show ?thesis
  proof (cases "alive i")
    case False
    let ?s = "kprint (''[smp] WARNING: AP did not respond within timeout.'' @ [nl]) u"
    have "ap_outcome alive e i k u = Some (Inr (k, ?s))" using False u(9) by (simp add: ap_outcome_def)
    then show ?thesis using that [of ?s] False u smp_inv_kprint [OF u(2)] by (simp add: kprint_views)
  next
    case True
    have base: "2097152 dvd unat (lapic_base_pa u)" "unat (lapic_base_pa u) < 0x8000000000" using u(2) by (simp_all add: smp_inv_def)
    obtain t where t: "ap_runs (unat i) e u = Some t" "ap_frame (unat i) u t" "mmio_within t n F" "only_frames F (mem u) (mem t)"
        "ap_up (unat i) (stack_top ?a) t" "ap_ready t = (ap_ready u)(k := True)"
      by (rule ap_runs_ok [OF i(1) u(3) base u(4,8)])
    let ?s = "kprint (''[smp] AP confirmed alive.'' @ [nl]) t"
    have "ap_outcome alive e i k u = Some (Inr (k + 1, ?s))" using True t(1,6) by (simp add: ap_outcome_def)
    moreover have "smp_inv p F n (xs @ [(16388, False)]) (r - 16420) ?s"
      by (rule smp_inv_kprint [OF smp_inv_run [OF u(2) _ t(3,4)]]) (use t(2) in \<open>simp add: ap_frame_def\<close>)
    moreover have "ap_up (unat i) (stack_top ?a) ?s" by (rule ap_up_views [OF t(5)]) (simp_all add: kprint_views)
    ultimately show ?thesis using that [of ?s] True u t(2) i(2) by (simp add: kprint_views ap_frame_def)
  qed
qed

section \<open>The loop over the processors\<close>

definition aps_up :: "(u8 \<Rightarrow> bool) \<Rightarrow> nat \<Rightarrow> u8 list \<Rightarrow> 'a smp_scheme \<Rightarrow> bool" where
  "aps_up alive a js s \<longleftrightarrow>
     (\<forall>j < length js. alive (js ! j) \<longrightarrow> ap_up (unat (js ! j)) (stack_top (a + 16420 * j + 36)) s)"

lemma aps_up_Cons:
  "aps_up alive a (i # js) s \<longleftrightarrow> (alive i \<longrightarrow> ap_up (unat i) (stack_top (a + 36)) s) \<and> aps_up alive (a + 16420) js s"
  unfolding aps_up_def by (simp add: All_less_Suc2 add.assoc)

lemma start_aps_ok:
  fixes s :: "'a smp_scheme"
  assumes "smp_inv p F (length ids) xs r s" "length blob \<le> 0x1000" "\<forall>i \<in> set ids. unat i < 16" "distinct ids"
    "k + length ids \<le> MAX_AP_CPUS" "js = filter (\<lambda>i. i \<noteq> of_nat p) ids"
  shows "\<exists>s'. start_aps p alive blob e (of_nat p) (kernel_pml4 s) (of_nat (gdt_ptr_addr s)) ids k s =
       Some (Inr (k + length (filter alive js), s')) \<and> kview s' = kview s \<and>
     heap_ok s' (xs @ replicate (length js) (16388, False) @ [(r - 16420 * length js, True)]) \<and>
     log_of p s' = log_of p s @ concat (map startup_ipis js) \<and> aps_up alive (heap_arena s + span xs) js s' \<and>
     (\<forall>q. (\<forall>i \<in> set js. alive i \<longrightarrow> q \<noteq> unat i) \<longrightarrow> cview q s' = cview q s)"
  using assms
proof (induction ids arbitrary: xs r s k js)
  case Nil
  then show ?case by (simp add: smp_inv_def aps_up_def)
next
  case (Cons i ids)
  have inv: "smp_inv p F (Suc (length ids)) xs r s" using Cons.prems(1) by simp
  have k: "k < MAX_AP_CPUS" using Cons.prems(5) by simp
  show ?case
  proof (cases "i = of_nat p")
    case True
    then show ?thesis using Cons.IH [OF smp_inv_mono [OF inv] Cons.prems(2), of k js] Cons.prems(3-6) k by simp
  next
    case False
    then have ip: "unat i \<noteq> p" by auto
    define js' where "js' = filter (\<lambda>i. i \<noteq> of_nat p) ids"
    have js: "js = i # js'" using Cons.prems(6) False by (simp add: js'_def)
    obtain t where t:
        "start_ap p alive blob e (kernel_pml4 s) (of_nat (gdt_ptr_addr s)) i k s = Some (Inr (if alive i then k + 1 else k, t))"
        "smp_inv p F (length ids) (xs @ [(16388, False)]) (r - 16420) t" "kview t = kview s" "log_of p t = log_of p s @ startup_ipis i"
        "alive i \<longrightarrow> ap_up (unat i) (stack_top (heap_arena s + span xs + 36)) t"
        "\<forall>q. alive i \<longrightarrow> q \<noteq> unat i \<longrightarrow> cview q t = cview q s" "\<not> alive i \<longrightarrow> (\<forall>q. cview q t = cview q s)"
      by (rule start_ap_ok [OF inv Cons.prems(2) _ ip, where alive = alive and e = e and k = k]) (use Cons.prems(3) in auto)
    have kt: "kernel_pml4 t = kernel_pml4 s" "gdt_ptr_addr t = gdt_ptr_addr s" "heap_arena t = heap_arena s"
      using t(3) by (simp_all add: kview_def)
    define k' where "k' = (if alive i then k + 1 else k)"
    have rest: "\<forall>i \<in> set ids. unat i < 16" "distinct ids" "k' + length ids \<le> MAX_AP_CPUS"
      using Cons.prems(3-5) by (simp_all add: k'_def)
    obtain s' where s': "start_aps p alive blob e (of_nat p) (kernel_pml4 t) (of_nat (gdt_ptr_addr t)) ids k' t =
          Some (Inr (k' + length (filter alive js'), s'))" "kview s' = kview t"
        "heap_ok s' ((xs @ [(16388, False)]) @ replicate (length js') (16388, False) @ [(r - 16420 - 16420 * length js', True)])"
        "log_of p s' = log_of p t @ concat (map startup_ipis js')" "aps_up alive (heap_arena t + span (xs @ [(16388, False)])) js' s'"
        "\<forall>q. (\<forall>i \<in> set js'. alive i \<longrightarrow> q \<noteq> unat i) \<longrightarrow> cview q s' = cview q t"
      using Cons.IH [OF t(2) Cons.prems(2) rest js'_def] by blast
    have run: "start_aps p alive blob e (of_nat p) (kernel_pml4 s) (of_nat (gdt_ptr_addr s)) (i # ids) k s =
        Some (Inr (k + length (filter alive js), s'))"
      using False k t(1) s'(1) by (simp add: kt k'_def js)
    have "\<forall>j \<in> set js'. unat i \<noteq> unat j" using Cons.prems(4) by (auto simp: js'_def simp flip: word_unat_eq_iff)
    then have ci: "cview (unat i) s' = cview (unat i) t" using s'(6) by blast
    have "alive i \<longrightarrow> ap_up (unat i) (stack_top (heap_arena s + span xs + 36)) s'"
      using t(5) ap_up_views [OF _ s'(2) ci] by blast
    then have "aps_up alive (heap_arena s + span xs) js s'" using s'(5) by (simp add: js aps_up_Cons kt add.assoc)
    moreover have "cview q s' = cview q s" if "\<forall>i \<in> set js. alive i \<longrightarrow> q \<noteq> unat i" for q
      using that s'(6) t(6,7) by (cases "alive i") (simp_all add: js)
    moreover have "r - 16420 - 16420 * length js' = r - 16420 * length js" by (simp add: js)
    ultimately show ?thesis using run s'(2-4) t(3,4) by (simp add: js)
  qed
qed

lemma cpus_loop_length:
  assumes "cpus_loop m q stop n found = Some ids" "length found \<le> n"
  shows "length ids \<le> n"
proof -
  have "length found \<le> n \<longrightarrow> length ids \<le> n"
    by (rule cpus_loop.raw_induct [OF _ assms(1), where P = "\<lambda>m q stop n found r. length found \<le> n \<longrightarrow> length r \<le> n"])
      (auto split: if_splits)
  then show ?thesis using assms(2) by blast
qed

lemma acpi_find_cpus_frame:
  fixes s :: "'a smp_scheme"
  assumes "acpi_find_cpus n s = Some (ids, u)"
  shows "length ids \<le> n" "smp_inv p F m xs r s \<Longrightarrow> smp_inv p F m xs r u" "kview u = kview s" "cview q u = cview q s" "log_of q u = log_of q s"
proof -
  show "length ids \<le> n" using assms cpus_loop_length by (auto simp: acpi_find_cpus_def Let_def split: if_splits option.splits)
  have v: "kview u = kview s" "\<And>q. cview q u = cview q s" "\<And>q. log_of q u = log_of q s" "pview u = pview s"
    using assms by (auto simp: acpi_find_cpus_def Let_def kprint_views dev_pview split: if_splits option.splits)
  then show "kview u = kview s" "cview q u = cview q s" "log_of q u = log_of q s" by simp_all
  show "smp_inv p F m xs r u" if "smp_inv p F m xs r s"
    by (rule smp_inv_cong [OF that v(1)]) (use v(4) in \<open>simp_all add: pview_def\<close>)
qed

lemma stack_top_bounds:
  assumes "a + 16384 < 2 ^ 64"
  shows "16 dvd unat (stack_top a)" "unat (stack_top a) \<le> a + AP_STACK_SIZE" "a + AP_STACK_SIZE < unat (stack_top a) + 16"
proof -
  have "unat (of_nat a + of_nat AP_STACK_SIZE :: u64) = a + AP_STACK_SIZE"
    using assms unat_of_nat_small [of "a + 16384"] by (simp add: unat_of_nat take_bit_eq_mod)
  then have "unat (stack_top a) = (a + AP_STACK_SIZE) div 16 * 16" unfolding stack_top_def
    using unat_and_not_15 [of "of_nat a + of_nat AP_STACK_SIZE"] by simp
  then show "16 dvd unat (stack_top a)" "unat (stack_top a) \<le> a + AP_STACK_SIZE" "a + AP_STACK_SIZE < unat (stack_top a) + 16"
    by simp_all
qed

text \<open>With one processor there is nothing to start.\<close>

lemma smp_start_ok:
  fixes s :: "'a smp_scheme"
  assumes "smp_inv p F (length ids) xs r s" "length blob \<le> 0x1000"
    and "acpi_find_cpus MAX_AP_CPUS s = Some (ids, u)" "distinct ids" "\<forall>i \<in> set ids. unat i < 16"
    and "js = (if length ids \<le> 1 then [] else filter (\<lambda>i. i \<noteq> of_nat p) ids)"
  obtains s' where "smp_start_aps p alive blob ap_entry_addr s = Some (Inr (length (filter alive js), s'))" "kview s' = kview s"
    "heap_ok s' (xs @ replicate (length js) (16388, False) @ [(r - 16420 * length js, True)])"
    "log_of p s' = log_of p s @ concat (map startup_ipis js)" "aps_up alive (heap_arena s + span xs) js s'"
    "\<forall>q. (\<forall>i \<in> set js. alive i \<longrightarrow> q \<noteq> unat i) \<longrightarrow> cview q s' = cview q s"
proof -
  note f = acpi_find_cpus_frame [OF assms(3)]
  have ku: "kernel_pml4 u = kernel_pml4 s" "gdt_ptr_addr u = gdt_ptr_addr s" "heap_arena u = heap_arena s"
    using f(3) by (simp_all add: kview_def)
  show ?thesis
  proof (cases "length ids \<le> 1")
    case True
    let ?t = "''[smp] single-CPU system (or ACPI unavailable) '' @ [CHR 0xE2, CHR 0x80, CHR 0x94] @ '' skipping AP bringup'' @ [nl]"
    have js: "js = []" using True assms(6) by simp
    have run: "smp_start_aps p alive blob ap_entry_addr s = Some (Inr (length (filter alive js), kprint ?t u))"
      using True assms(3) by (simp add: smp_start_aps_def js)
    have "heap_ok u (xs @ [(r, True)])" using f(2) [OF assms(1)] by (simp add: smp_inv_def)
    then show ?thesis using f(3-5) by (intro that [OF run]) (simp_all add: js kprint_views aps_up_def)
  next
    case False
    have js: "js = filter (\<lambda>i. i \<noteq> of_nat p) ids" using False assms(6) by simp
    obtain s' where s': "start_aps p alive blob ap_entry_addr (of_nat p) (kernel_pml4 u) (of_nat (gdt_ptr_addr u)) ids 0 u =
          Some (Inr (0 + length (filter alive js), s'))" "kview s' = kview u"
        "heap_ok s' (xs @ replicate (length js) (16388, False) @ [(r - 16420 * length js, True)])"
        "log_of p s' = log_of p u @ concat (map startup_ipis js)" "aps_up alive (heap_arena u + span xs) js s'"
        "\<forall>q. (\<forall>i \<in> set js. alive i \<longrightarrow> q \<noteq> unat i) \<longrightarrow> cview q s' = cview q u"
      using start_aps_ok [OF f(2) [OF assms(1)] assms(2,5,4) _ js, of 0 alive ap_entry_addr] f(1) by auto
    have run: "smp_start_aps p alive blob ap_entry_addr s = Some (Inr (length (filter alive js), s'))"
      using assms(3) False s'(1) by (simp add: smp_start_aps_def lapic_get_id_eq paging_get_kernel_cr3_def gdt_get_ptr_address_def)
    show ?thesis using s'(2-6) f(3-5) ku(3) by (intro that [OF run]) simp_all
  qed
qed


section \<open>A machine with two processors\<close>

definition demo_smp :: smp where
  "demo_smp = idt_state.extend (demo_idt\<lparr>heap_arena := 0x300000, g_rsdp := 0xE0010\<rparr>)
     \<lparr>ap_ready = (\<lambda>_. False), g_ap_index_starting = - 1\<rparr>"

lemmas demo_smp_defs = demo_smp_def idt_state.defs demo_idt_def gdt_state.defs demo_gdt_def apic.defs demo_apic_def acpi.defs
  demo_acpi_def sched64.defs boot_sched_def paging.defs boot_paging_def memmap.defs bare_defs

lemma demo_smp_fields [simp]:
  "\<not> map_active demo_smp" "next_frame demo_smp = 0" "frame_pool demo_smp = 0x200000" "heap_arena demo_smp = 0x300000"
  "g_rsdp demo_smp = 0xE0010" "lapic_base_pa demo_smp = 0xFEE00000" "gdt_ptr_addr demo_smp = 0x121100" "mmio_log demo_smp = []"
  "preempt_disable_count demo_smp = (\<lambda>_. 0)" "\<not> big_kernel_lock demo_smp" "reschedule_pending demo_smp = (\<lambda>_. False)"
  by (simp_all add: demo_smp_defs)

lemma heap_init_low: "x < heap_arena s \<Longrightarrow> mem (heap_init s) x = mem s x"
  by (simp add: heap_init_def Let_def blk_defs mem_simps)

lemma boot_smp:
  obtains s :: smp and F u where "smp_inv 0 F 2 [] (HEAP_SIZE - 32) s" "acpi_find_cpus MAX_AP_CPUS s = Some ([0, 4], u)"
    "heap_arena s = 0x300000" "mmio_log s = []"
proof -
  have fs: "pf.frames demo_smp = 0x200000 # 0x201000 # 0x202000 # map (\<lambda>i. of_nat (0x200000 + 4096 * i)) [3..<64]"
    by (simp add: pf.frames_def frames_avail_def upt_rec)
  obtain s0 :: smp where s0: "kernel_map (mem s0) 0x200000 0x201000 0x202000"
      "\<And>i. 0 < i \<Longrightarrow> i < 512 \<Longrightarrow> entry (mem s0) 0x200000 i = 0 \<and> entry (mem s0) 0x201000 i = 0"
    by (rule init_kernel_map_ok [OF _ fs, of 0]) (simp_all add: alloc_ok_def table_def)
  define m where "m = (\<lambda>x. if x < 0x100000 then (demo_tables 1) x else mem s0 x)"
  define t where "t = demo_smp\<lparr>mem := m, next_frame := 3, kernel_pml4 := 0x200000, kernel_pdpt := 0x201000\<rparr>"
  define s where "s = heap_init t"
  define F :: "u64 set" where "F = {f. 0x200000 \<le> unat f \<and> unat f + 4096 \<le> 0x240000}"
  have low: "mem s x = m x" if "x < 0x300000" for x using that by (simp add: s_def heap_init_low t_def)
  have fields: "kernel_pml4 s = 0x200000" "kernel_pdpt s = 0x201000" "heap_arena s = 0x300000" "lapic_base_pa s = 0xFEE00000"
    "gdt_ptr_addr s = 0x121100" "mmio_log s = []" "quiet 0 s" "g_rsdp s = 0xE0010" "\<not> map_active s" "frame_pool s = 0x200000"
    "next_frame s = 3"
    by (simp_all add: s_def heap_init_def t_def quiet_def Let_def)
  have ran: "ran [0 :: nat \<mapsto> 0x202000 :: u64] = {0x202000}" by simp
  have "kernel_tree (mem s0) 0x200000 0x201000 [0 \<mapsto> 0x202000]" by (rule kernel_map_tree) (use s0 in simp_all)
  then have tree: "kernel_tree (mem s) 0x200000 0x201000 [0 \<mapsto> 0x202000]"
    by (rule kernel_tree_cong) (auto simp: ran low m_def)
  have fresh: "fresh s ({0x200000, 0x201000} \<union> ran [0 :: nat \<mapsto> 0x202000])"
    by (rule pool_fresh) (auto simp: fields ran)
  have "set (pf.frames s) \<subseteq> F" by (auto simp: pf.frames_def frames_avail_def fields F_def unat_of_nat take_bit_eq_mod)
  then have within: "mmio_within s 2 F" unfolding mmio_within_def fields(1,2)
    using tree fresh by (intro conjI exI [of _ "[0 \<mapsto> 0x202000]"]) (auto simp: ran F_def frames_avail_def fields)
  have heap: "heap_ok s [(HEAP_SIZE - 32, True)]" unfolding s_def by (rule heap_init_ok) (simp_all add: t_def)
  have inv: "smp_inv 0 F 2 [] (HEAP_SIZE - 32) s"
    using within heap fields(7) by (auto simp: smp_inv_def fields F_def)
  have fw: "firmware 1 (mem s)" by (simp add: firmware_def low m_def)
  obtain u where "acpi_find_cpus MAX_AP_CPUS s = Some ([0, 4], u)"
    using madt_walks(1) [of s "[0x7100, 0x7200]" "0x7200" "0xFEE00000" "demo_entries 1" MAX_AP_CPUS] demo_tables_at [OF fw] demo_madt [OF fw]
      demo_search [OF fw] by (auto simp: demo_enabled fields)
  then show ?thesis using that inv fields(3,6) by blast
qed


end
