(* ===== verification/Boot_Props.thy ===== *)
theory Boot_Props
  imports Boot Smp_Props
begin

text \<open>
  Properties of the 64-bit kernel program as a whole: the heap's self-test passes, the demonstration threads
  never see each other's signatures, and the other processors come up.
\<close>

section \<open>What the boot sequence carries along\<close>

text \<open>Variables the later stages depend on; printing, device and processor registers leave them alone.\<close>

definition soft :: "'a boot_scheme \<Rightarrow> _" where
  "soft s = (regions s, map_active s, frame_pool s, kernel_pml4 s, kernel_pdpt s, heap_arena s, heap_list s,
     preempt_disable_count s, reschedule_pending s, big_kernel_lock s, threads64_addr s, g_rsdp s, cpuid1_edx s,
     gdt_ptr_addr s, lapic_base_pa s, ioapic_base_pa s, loaded_cr3 s)"

lemma soft_quiet: "soft s' = soft s \<Longrightarrow> quiet p s' = quiet p s"
  by (simp add: soft_def quiet_def)

text \<open>A step of the heap: these variables, the frames left and the memory outside the arena stay.\<close>

definition heap_frame :: "'a boot_scheme \<Rightarrow> 'a boot_scheme \<Rightarrow> bool" where
  "heap_frame s s' \<longleftrightarrow> soft s' = soft s \<and> frames_avail s' = frames_avail s \<and> alloc_ok s' = alloc_ok s \<and>
     (\<forall>x. x < heap_arena s \<or> heap_arena s + HEAP_SIZE \<le> x \<longrightarrow> mem s' x = mem s x)"

lemma heap_frame_refl: "heap_frame s s"
  by (simp add: heap_frame_def)

lemma heap_frame_trans: "heap_frame s s' \<Longrightarrow> heap_frame s' s'' \<Longrightarrow> heap_frame s s''"
  by (auto simp: heap_frame_def soft_def)

lemma heap_frame_quiet: "heap_frame s s' \<Longrightarrow> quiet p s \<Longrightarrow> quiet p s'"
  using soft_quiet [of s' s p] by (simp add: heap_frame_def)

lemma heap_frame_mem:
  assumes "\<And>x. x < heap_arena s \<or> heap_arena s + HEAP_SIZE \<le> x \<Longrightarrow> m x = mem s x"
  shows "heap_frame s (s\<lparr>mem := m, saved_if := f\<rparr>)"
  using assms by (simp add: heap_frame_def soft_def frames_avail_def alloc_ok_def memmap_ok_def free_frames_def)

lemma heap_frame_console: "console_step s t s' \<Longrightarrow> heap_frame s s'"
  by (auto simp: console_step_def heap_frame_def soft_def)

lemma heap_frame_kprint: "heap_frame s (kprint t s)"
  using kprint_frame [of t s] by (auto simp: heap_frame_def soft_def)

lemma kmalloc_step:
  fixes s :: "'a boot_scheme"
  assumes "heap_ok s (xs @ [(n, True)])" "\<forall>(m, f) \<in> set xs. \<not> f" "sz \<noteq> 0" "unat sz \<le> 2 ^ 64 - 32" "unat (align16 sz) + 4 = k" "k + 48 < n"
  obtains s' where "kmalloc (sched64_reschedule p) p sz s = Some (Inr (heap_arena s + span xs + 36, s'))"
    "heap_ok s' (xs @ [(k, False), (n - k - 32, True)])" "heap_arena s' = heap_arena s" "quiet p s \<longrightarrow> heap_frame s s'"
proof -
  obtain s' where s': "kmalloc (sched64_reschedule p) p sz s = Some (Inr (heap_arena s + span xs + 36, s'))"
      "heap_ok s' (xs @ [(k, False), (n - k - 32, True)])" "heap_arena s' = heap_arena s"
    by (rule kmalloc_tail [OF assms, where p = p]) blast
  have "heap_frame s s'" if q: "quiet p s"
  proof -
    obtain m' where m: "kmalloc (sched64_reschedule p) p sz s =
          Some (Inr (heap_arena s + span xs + 36, s\<lparr>mem := m', saved_if := (saved_if s)(get_cpu_index p := iflag s p)\<rparr>))"
        "\<And>x. x < heap_arena s \<or> heap_arena s + HEAP_SIZE \<le> x \<Longrightarrow> m' x = mem s x"
      by (rule kmalloc_tail_quiet [OF assms q]) blast
    then show ?thesis using s'(1) heap_frame_mem [of s m'] by simp
  qed
  then show ?thesis using that s' by blast
qed

lemma kfree_step:
  fixes s :: "'a boot_scheme"
  assumes "heap_ok s (xs @ (n, False) # ys)"
  obtains s' where "kfree (sched64_reschedule p) p (heap_arena s + span xs + 36) s = Inr ((), s')"
    "heap_ok s' (free_in xs n ys)" "heap_arena s' = heap_arena s" "quiet p s \<longrightarrow> heap_frame s s'"
proof -
  obtain s' where s': "kfree (sched64_reschedule p) p (heap_arena s + span xs + 36) s = Inr ((), s')"
      "heap_ok s' (free_in xs n ys)" "heap_arena s' = heap_arena s"
      "\<And>x. x < heap_arena s \<or> heap_arena s + HEAP_SIZE \<le> x \<Longrightarrow> mem s' x = mem s x"
    by (rule kheap.kfree_taken [OF assms, where p = p]) blast
  have "\<exists>m f. s' = s\<lparr>mem := m, saved_if := f\<rparr>" if "quiet p s"
    using s'(1) lock_unlock_quiet [OF that, of "sched64_reschedule p"]
    by (auto simp: kfree_def Let_def split: if_splits)
  then have "quiet p s \<longrightarrow> heap_frame s s'" using heap_frame_mem [of s "mem s'"] s'(4) by auto
  then show ?thesis using that s'(1-3) by blast
qed

section \<open>The self-test\<close>

definition stats_line :: "nat \<Rightarrow> nat \<Rightarrow> string" where
  "stats_line free blocks = ''[heap] free='' @ hex64_buf (of_nat free) @ '' bytes, blocks='' @ hex64_buf (of_nat blocks) @ [nl]"

lemma print_stats_ok:
  assumes "heap_ok s bs"
  obtains s' where "print_stats s = Some (Inr ((), s'))" "console_step s (stats_line (free_total bs) (length bs)) s'"
proof -
  note c = heap_ok_counts [OF assms]
  have "console_step s (stats_line (free_total bs) (length bs) @ [])
     (kprint [nl] (kprint_hex64 (of_nat (length bs)) (kprint '' bytes, blocks='' (kprint_hex64 (of_nat (free_total bs))
        (kprint ''[heap] free='' s)))))"
    unfolding stats_line_def append_assoc by (rule console_steps)+ (simp_all add: console_step_refl)
  then show ?thesis by (intro that [of _]) (simp_all add: print_stats_def heap_print_stats_def c)
qed

lemma console_step_heap:
  assumes "console_step s t s'"
  shows "heap_ok s' bs = heap_ok s bs" "heap_arena s' = heap_arena s" "mem s' = mem s"
  using assms by (auto simp: console_step_def heap_ok_def)

lemma fill_apply: "fill a n v m x = (if a \<le> x \<and> x < a + n then v else m x)"
proof -
  have "foldl (\<lambda>m i. m(a + i := v)) m [0..<n] x = (if a \<le> x \<and> x < a + n then v else m x)"
    by (induction n) auto
  then show ?thesis by (simp add: fill_def)
qed

lemma filled_iff: "filled a n v m \<longleftrightarrow> (\<forall>x. a \<le> x \<and> x < a + n \<longrightarrow> m x = v)"
  by (auto simp: filled_def list_all_iff) (metis atLeastLessThan_iff le_add_diff_inverse less_diff_conv2 nat_add_left_cancel_less zero_le)

lemma heap_frame_fill:
  assumes "heap_arena s \<le> a" "a + n \<le> heap_arena s + HEAP_SIZE"
  shows "heap_frame s (mem_update (fill a n v) s)"
proof -
  have "mem_update (fill a n v) s = s\<lparr>mem := fill a n v (mem s), saved_if := saved_if s\<rparr>" by simp
  moreover have "heap_frame s \<dots>" by (rule heap_frame_mem) (use assms in \<open>auto simp: fill_apply\<close>)
  ultimately show ?thesis by (simp only:)
qed

lemma heap_ok_fill:
  assumes "heap_ok s bs" "{a..<a + n} \<subseteq> live (heap_arena s) bs"
  shows "heap_ok (mem_update (fill a n v) s) bs"
proof -
  note h = heap_okD [OF assms(1)]
  have "seg (fill a n v (mem s)) (heap_arena s) 0 bs 0"
    by (rule seg_payload [OF h(1)]) (use assms(2) in \<open>auto simp: fill_apply\<close>)
  then show ?thesis using assms(1) by (simp add: heap_ok_def)
qed

text \<open>The block lists the self-test goes through.\<close>

abbreviation (input) block0 :: blocks where "block0 \<equiv> [(HEAP_SIZE - BLOCK_HDR, True)]"

abbreviation (input) blocks5 :: blocks where
  "blocks5 \<equiv> [(116, False), (4004, False), (68, False), (20004, False), (20, False), (1024172, True)]"

lemma self_test_allocs:
  fixes s :: "'a boot_scheme"
  assumes ok: "heap_ok s block0"
  defines "a \<equiv> heap_arena s"
  obtains s1 s2 s3 s4 s5 where
    "kmalloc (sched64_reschedule p) p 100 s = Some (Inr (a + 36, s1))"
    "kmalloc (sched64_reschedule p) p 4000 s1 = Some (Inr (a + 184, s2))"
    "kmalloc (sched64_reschedule p) p 50 s2 = Some (Inr (a + 4220, s3))"
    "kmalloc (sched64_reschedule p) p 20000 s3 = Some (Inr (a + 4320, s4))"
    "kmalloc (sched64_reschedule p) p 16 s4 = Some (Inr (a + 24356, s5))"
    "heap_ok s5 blocks5" "heap_arena s5 = a" "uart_log s5 = uart_log s" "quiet p s \<longrightarrow> heap_frame s s5"
proof -
  obtain s1 where 1: "kmalloc (sched64_reschedule p) p 100 s = Some (Inr (a + 36, s1))"
      "heap_ok s1 [(116, False), (1048396, True)]" "heap_arena s1 = a" "quiet p s \<longrightarrow> heap_frame s s1"
    by (rule kmalloc_step [of s "[]" 1048544 100 116 p]) (use ok in \<open>simp_all add: align16_small a_def\<close>)
  obtain s2 where 2: "kmalloc (sched64_reschedule p) p 4000 s1 = Some (Inr (a + 184, s2))"
      "heap_ok s2 [(116, False), (4004, False), (1044360, True)]" "heap_arena s2 = a" "quiet p s1 \<longrightarrow> heap_frame s1 s2"
    by (rule kmalloc_step [of s1 "[(116, False)]" 1048396 4000 4004 p]) (use 1 in \<open>simp_all add: align16_small\<close>)
  obtain s3 where 3: "kmalloc (sched64_reschedule p) p 50 s2 = Some (Inr (a + 4220, s3))"
      "heap_ok s3 [(116, False), (4004, False), (68, False), (1044260, True)]" "heap_arena s3 = a" "quiet p s2 \<longrightarrow> heap_frame s2 s3"
    by (rule kmalloc_step [of s2 "[(116, False), (4004, False)]" 1044360 50 68 p]) (use 2 in \<open>simp_all add: align16_small\<close>)
  obtain s4 where 4: "kmalloc (sched64_reschedule p) p 20000 s3 = Some (Inr (a + 4320, s4))"
      "heap_ok s4 [(116, False), (4004, False), (68, False), (20004, False), (1024224, True)]" "heap_arena s4 = a" "quiet p s3 \<longrightarrow> heap_frame s3 s4"
    by (rule kmalloc_step [of s3 "[(116, False), (4004, False), (68, False)]" 1044260 20000 20004 p])
      (use 3 in \<open>simp_all add: align16_small\<close>)
  obtain s5 where 5: "kmalloc (sched64_reschedule p) p 16 s4 = Some (Inr (a + 24356, s5))"
      "heap_ok s5 blocks5" "heap_arena s5 = a" "quiet p s4 \<longrightarrow> heap_frame s4 s5"
    by (rule kmalloc_step [of s4 "[(116, False), (4004, False), (68, False), (20004, False)]" 1024224 16 20 p])
      (use 4 in \<open>simp_all add: align16_small\<close>)
  have "quiet p s \<longrightarrow> heap_frame s s5" using 1(4) 2(4) 3(4) 4(4) 5(4) by (blast intro: heap_frame_trans heap_frame_quiet)
  then show ?thesis
    by (intro that [OF 1(1) 2(1) 3(1) 4(1) 5(1-3)])
      (simp_all only: kmalloc_uart [OF 1(1)] kmalloc_uart [OF 2(1)] kmalloc_uart [OF 3(1)] kmalloc_uart [OF 4(1)] kmalloc_uart [OF 5(1)])
qed

lemma self_test_frees:
  fixes s :: "'a boot_scheme"
  assumes ok: "heap_ok s blocks5" and a: "heap_arena s = a"
  obtains s1 s2 s3 s4 s5 where
    "kfree (sched64_reschedule p) p (a + 4220) s = Inr ((), s1)"
    "kfree (sched64_reschedule p) p (a + 36) s1 = Inr ((), s2)"
    "kfree (sched64_reschedule p) p (a + 4320) s2 = Inr ((), s3)"
    "kfree (sched64_reschedule p) p (a + 184) s3 = Inr ((), s4)"
    "kfree (sched64_reschedule p) p (a + 24356) s4 = Inr ((), s5)"
    "heap_ok s5 block0" "heap_arena s5 = a" "uart_log s5 = uart_log s" "quiet p s \<longrightarrow> heap_frame s s5"
proof -
  obtain s1 where 1: "kfree (sched64_reschedule p) p (a + 4220) s = Inr ((), s1)" "heap_arena s1 = a" "quiet p s \<longrightarrow> heap_frame s s1"
      "heap_ok s1 [(116, False), (4004, False), (68, True), (20004, False), (20, False), (1024172, True)]"
    by (rule kfree_step [of s "[(116, False), (4004, False)]" 68 "[(20004, False), (20, False), (1024172, True)]" p])
      (use ok a in \<open>simp_all add: free_in_def ends_free_def add.commute [of _ a]\<close>)
  obtain s2 where 2: "kfree (sched64_reschedule p) p (a + 36) s1 = Inr ((), s2)" "heap_arena s2 = a" "quiet p s1 \<longrightarrow> heap_frame s1 s2"
      "heap_ok s2 [(116, True), (4004, False), (68, True), (20004, False), (20, False), (1024172, True)]"
    by (rule kfree_step [of s1 "[]" 116 "[(4004, False), (68, True), (20004, False), (20, False), (1024172, True)]" p])
      (use 1 in \<open>simp_all add: free_in_def ends_free_def add.commute [of _ a]\<close>)
  obtain s3 where 3: "kfree (sched64_reschedule p) p (a + 4320) s2 = Inr ((), s3)" "heap_arena s3 = a" "quiet p s2 \<longrightarrow> heap_frame s2 s3"
      "heap_ok s3 [(116, True), (4004, False), (20104, True), (20, False), (1024172, True)]"
    by (rule kfree_step [of s2 "[(116, True), (4004, False), (68, True)]" 20004 "[(20, False), (1024172, True)]" p])
      (use 2 in \<open>simp_all add: free_in_def ends_free_def add.commute [of _ a]\<close>)
  obtain s4 where 4: "kfree (sched64_reschedule p) p (a + 184) s3 = Inr ((), s4)" "heap_arena s4 = a" "quiet p s3 \<longrightarrow> heap_frame s3 s4"
      "heap_ok s4 [(24288, True), (20, False), (1024172, True)]"
    by (rule kfree_step [of s3 "[(116, True)]" 4004 "[(20104, True), (20, False), (1024172, True)]" p])
      (use 3 in \<open>simp_all add: free_in_def ends_free_def add.commute [of _ a]\<close>)
  obtain s5 where 5: "kfree (sched64_reschedule p) p (a + 24356) s4 = Inr ((), s5)" "heap_arena s5 = a" "quiet p s4 \<longrightarrow> heap_frame s4 s5" "heap_ok s5 block0"
    by (rule kfree_step [of s4 "[(24288, True)]" 20 "[(1024172, True)]" p])
      (use 4 in \<open>simp_all add: free_in_def ends_free_def add.commute [of _ a]\<close>)
  have "quiet p s \<longrightarrow> heap_frame s s5" using 1(3) 2(3) 3(3) 4(3) 5(3) by (blast intro: heap_frame_trans heap_frame_quiet)
  then show ?thesis
    by (intro that [OF 1(1) 2(1) 3(1) 4(1) 5(1,4,2)])
      (simp_all only: kfree_uart [OF 1(1)] kfree_uart [OF 2(1)] kfree_uart [OF 3(1)] kfree_uart [OF 4(1)] kfree_uart [OF 5(1)])
qed

definition self_test_report :: string where
  "self_test_report =
     ''[heap] self-test starting...'' @ [nl] @ stats_line (HEAP_SIZE - BLOCK_HDR) 1 @
     ''[heap] no overlap after alloc, OK'' @ [nl] @ stats_line 1024172 6 @
     ''[heap] after freeing everything: '' @ stats_line (HEAP_SIZE - BLOCK_HDR) 1 @
     ''[heap] self-test PASSED (free bytes fully recovered)'' @ [nl, nl]"

lemma blocks5_counts: "free_total blocks5 = 1024172" "length blocks5 = 6"
  by simp_all

lemma heap_self_test_ok:
  fixes s :: "'a boot_scheme"
  assumes ok: "heap_ok s block0"
  obtains u where "heap_self_test p s = Some (Inr ((), u))" "heap_ok u block0" "heap_arena u = heap_arena s"
    "uart_log u = uart_log s @ serial self_test_report" "quiet p s \<longrightarrow> heap_frame s u"
proof -
  let ?a = "heap_arena s"
  define s0 where "s0 = kprint (''[heap] self-test starting...'' @ [nl]) s"
  have ok0: "heap_ok s0 block0" using ok by (simp add: s0_def)
  obtain s1 where s1: "print_stats s0 = Some (Inr ((), s1))" "console_step s0 (stats_line (HEAP_SIZE - BLOCK_HDR) 1) s1"
    by (rule print_stats_ok [OF ok0]) simp
  have ok1: "heap_ok s1 block0" "heap_arena s1 = ?a" using console_step_heap [OF s1(2)] ok0 by (simp_all add: s0_def)
  obtain t1 t2 t3 t4 t5 where m:
      "kmalloc (sched64_reschedule p) p 100 s1 = Some (Inr (?a + 36, t1))"
      "kmalloc (sched64_reschedule p) p 4000 t1 = Some (Inr (?a + 184, t2))"
      "kmalloc (sched64_reschedule p) p 50 t2 = Some (Inr (?a + 4220, t3))"
      "kmalloc (sched64_reschedule p) p 20000 t3 = Some (Inr (?a + 4320, t4))"
      "kmalloc (sched64_reschedule p) p 16 t4 = Some (Inr (?a + 24356, t5))"
      "heap_ok t5 blocks5" "heap_arena t5 = ?a" "uart_log t5 = uart_log s1" "quiet p s1 \<longrightarrow> heap_frame s1 t5"
    by (rule self_test_allocs [OF ok1(1), of p, unfolded ok1(2)])
  define v1 where "v1 = mem_update (fill (?a + 36) 100 0xAA) t5"
  define v2 where "v2 = mem_update (fill (?a + 4220) 50 0xBB) v1"
  define w where "w = mem_update (fill (?a + 24356) 16 0xCC) v2"
  have "heap_ok v1 blocks5" unfolding v1_def by (rule heap_ok_fill [OF m(6)]) (use m(7) in auto)
  then have "heap_ok v2 blocks5" unfolding v2_def by (rule heap_ok_fill) (use m(7) in \<open>auto simp: v1_def\<close>)
  then have "heap_ok w blocks5" unfolding w_def by (rule heap_ok_fill) (use m(7) in \<open>auto simp: v1_def v2_def\<close>)
  moreover have "heap_arena w = ?a" "uart_log w = uart_log s1" using m(7,8) by (simp_all add: w_def v1_def v2_def)
  moreover have "filled (?a + 36) 100 0xAA (mem w)" "filled (?a + 4220) 50 0xBB (mem w)" "filled (?a + 24356) 16 0xCC (mem w)"
    by (auto simp: w_def v1_def v2_def filled_iff fill_apply)
  ultimately have w: "heap_ok (kprint (''[heap] no overlap after alloc, OK'' @ [nl]) w) blocks5" "heap_arena w = ?a"
      "uart_log w = uart_log s1" "filled (?a + 36) 100 0xAA (mem w)" "filled (?a + 4220) 50 0xBB (mem w)"
      "filled (?a + 24356) 16 0xCC (mem w)" by simp_all
  obtain w1 where w1: "print_stats (kprint (''[heap] no overlap after alloc, OK'' @ [nl]) w) = Some (Inr ((), w1))"
      "console_step (kprint (''[heap] no overlap after alloc, OK'' @ [nl]) w) (stats_line 1024172 6) w1"
    by (rule print_stats_ok [OF w(1), unfolded blocks5_counts]) blast
  have okw: "heap_ok w1 blocks5" "heap_arena w1 = ?a" using console_step_heap [OF w1(2)] w by simp_all
  obtain f1 f2 f3 f4 f5 where f:
      "kfree (sched64_reschedule p) p (?a + 4220) w1 = Inr ((), f1)"
      "kfree (sched64_reschedule p) p (?a + 36) f1 = Inr ((), f2)"
      "kfree (sched64_reschedule p) p (?a + 4320) f2 = Inr ((), f3)"
      "kfree (sched64_reschedule p) p (?a + 184) f3 = Inr ((), f4)"
      "kfree (sched64_reschedule p) p (?a + 24356) f4 = Inr ((), f5)"
      "heap_ok f5 block0" "heap_arena f5 = ?a" "uart_log f5 = uart_log w1" "quiet p w1 \<longrightarrow> heap_frame w1 f5"
    by (rule self_test_frees [OF okw, of p])
  define g where "g = kprint ''[heap] after freeing everything: '' f5"
  have okg: "heap_ok g block0" using f(6) by (simp add: g_def)
  obtain g1 where g1: "print_stats g = Some (Inr ((), g1))" "console_step g (stats_line (HEAP_SIZE - BLOCK_HDR) 1) g1"
    by (rule print_stats_ok [OF okg]) simp
  have okg1: "heap_ok g1 block0" "heap_arena g1 = ?a" using console_step_heap [OF g1(2)] f(6,7) by (simp_all add: g_def)
  let ?u = "kprint (''[heap] self-test PASSED (free bytes fully recovered)'' @ [nl, nl]) g1"
  have run: "heap_self_test p s = Some (Inr ((), ?u))"
    by (simp only: heap_self_test_def Let_def s0_def [symmetric] s1(1) bind_p_simps get_free_bytes_def option.map
        heap_ok_counts(1) [OF ok1(1)] m(1-5) v1_def [symmetric] v2_def [symmetric] w_def [symmetric] w(4-6) simp_thms
        if_True if_False w1(1) f(1-5) heap_ok_counts(1) [OF f(6)] g_def [symmetric] g1(1))
  have "uart_log ?u = uart_log s @ serial self_test_report"
    using s1(2) w1(2) g1(2) w(3) f(8)
    by (simp add: kprint_plain console_step_def g_def s0_def self_test_report_def serial_def)
  moreover have "heap_frame s ?u" if q: "quiet p s"
  proof -
    have 1: "heap_frame s s1" using heap_frame_console [OF s1(2)] heap_frame_kprint [of s] unfolding s0_def by (rule heap_frame_trans [rotated])
    have 2: "heap_frame s t5" using m(9) heap_frame_quiet [OF 1 q] heap_frame_trans [OF 1] by blast
    have ar: "heap_arena v1 = ?a" "heap_arena v2 = ?a" using m(7) by (simp_all add: v1_def v2_def)
    have "heap_frame t5 v1" unfolding v1_def by (rule heap_frame_fill) (simp_all add: m(7))
    moreover have "heap_frame v1 v2" unfolding v2_def by (rule heap_frame_fill) (simp_all add: ar)
    moreover have "heap_frame v2 w" unfolding w_def by (rule heap_frame_fill) (simp_all add: ar)
    ultimately have "heap_frame t5 w" by (meson heap_frame_trans)
    then have 3: "heap_frame s w1" using heap_frame_trans [OF 2] heap_frame_console [OF w1(2)] heap_frame_kprint by (meson heap_frame_trans)
    have 4: "heap_frame s f5" using f(9) heap_frame_quiet [OF 3 q] heap_frame_trans [OF 3] by blast
    show ?thesis using heap_frame_trans [OF 4] heap_frame_console [OF g1(2)] heap_frame_kprint unfolding g_def by (meson heap_frame_trans)
  qed
  ultimately show ?thesis using that [OF run] okg1 by simp
qed

text \<open>C37. The heap's self-test passes on every processor, whatever address the arena has: after \<open>heap_init\<close>
  the five allocations and the five frees all succeed, the patterns written to neighbouring blocks survive,
  the test reports no overlap and the exact statistics of every stage, ends with \<open>PASSED\<close>, and leaves
  the heap as one free block.\<close>

theorem heap_self_test_passes:
  fixes s :: "'a boot_scheme"
  assumes "0 < heap_arena s" "heap_arena s + HEAP_SIZE + 32 < 2 ^ 64"
  shows "\<exists>u. heap_self_test p (heap_init s) = Some (Inr ((), u)) \<and> heap_ok u block0 \<and>
    uart_log u = uart_log s @ serial self_test_report"
proof -
  have "uart_log (heap_init s) = uart_log s" by (simp add: heap_init_def Let_def)
  then show ?thesis using heap_self_test_ok [OF heap_init_ok [OF assms], of p] by (metis (no_types))
qed

definition demo_boot :: boot where
  "demo_boot = idt_state.extend demo_idt \<lparr>ap_ready = (\<lambda>_. False), g_ap_index_starting = - 1,
     counter_a64 = 0, counter_b64 = 0, counter_c64 = 0\<rparr>"

theorem heap_self_test_passes_witness:
  "\<exists>u. heap_self_test 0 (heap_init (demo_boot\<lparr>heap_arena := 0x110000, uart_log := []\<rparr>)) = Some (Inr ((), u)) \<and>
     uart_log u = serial self_test_report"
  using heap_self_test_passes [of "demo_boot\<lparr>heap_arena := 0x110000, uart_log := []\<rparr>" 0] by auto

section \<open>Signatures\<close>

lemma demo_walk:
  assumes "space (mem s) k3 t4 t3 d pt f" "i < 4096"
  shows "walk (mem s) t4 (of_nat (DEMO_VA + i)) = Some (unat f + i, True, False)"
proof -
  have "unat (of_nat (DEMO_VA + i) :: u64) = DEMO_VA + i" using assms(2) by (intro unat_of_nat_small) simp
  then show ?thesis using space_walk_private [OF assms(1), of "of_nat (DEMO_VA + i)"] assms(2) by (simp del: of_nat_add)
qed

definition own_space :: "memory \<Rightarrow> u64 \<Rightarrow> u64 \<Rightarrow> u64 \<Rightarrow> bool" where
  "own_space m k3 root f \<longleftrightarrow> (\<exists>t3 d pt. space m k3 root t3 d pt f \<and> table k3 \<and> f \<notin> {k3, root, t3, d, pt})"

lemma own_space_walk:
  assumes "own_space (mem s) k3 root f" "i < 4096"
  shows "walk (mem s) root (of_nat (DEMO_VA + i)) = Some (unat f + i, True, False)"
  using assms unfolding own_space_def by (elim exE conjE) (rule demo_walk)

lemma fill_only: "n \<le> 4096 \<Longrightarrow> only_frames {f} m (fill (unat f) n v m)"
  by (auto simp: only_frames_def fill_apply)

text \<open>Writes to a frame that is none of the space's tables.\<close>

lemma own_space_other:
  assumes "space m k3 root t3 d pt f" "table k3" "f \<notin> {k3, root, t3, d, pt}" "table g" "g \<notin> {k3, root, t3, d, pt}" "n \<le> 4096"
  shows "own_space (fill (unat g) n v m) k3 root f"
proof -
  have "space (fill (unat g) n v m) k3 root t3 d pt f"
    by (rule space_kept [OF assms(1,2) fill_only [OF assms(6)]]) (use assms in auto)
  then show ?thesis using assms(2,3) unfolding own_space_def by blast
qed

lemma own_space_fill:
  assumes "own_space m k3 root f" "n \<le> 4096"
  shows "own_space (fill (unat f) n v m) k3 root f"
proof -
  obtain t3 d pt where sp: "space m k3 root t3 d pt f" "table k3" "f \<notin> {k3, root, t3, d, pt}"
    using assms(1) by (auto simp: own_space_def)
  have "table f" using sp(1) by (simp add: space_def)
  then show ?thesis by (rule own_space_other [OF sp _ sp(3) assms(2)])
qed

lemma fill_Suc: "fill a (Suc n) v m = (fill a n v m)(a + n := v)"
  by (simp add: fill_def)

lemma write_signature_prefix:
  fixes s :: "'a boot_scheme"
  assumes "own_space (mem s) k3 (cr3 s p) f" "n \<le> 4096"
  shows "foldl (\<lambda>r i. Option.bind r (store_va p (DEMO_VA + i) v)) (Some s) [0..<n] = Some (mem_update (fill (unat f) n v) s)"
  using assms(2)
proof (induction n)
  case 0
  have "fill (unat f) 0 v = id" by (simp add: fill_def fun_eq_iff)
  then show ?case by simp
next
  case (Suc n)
  let ?s = "mem_update (fill (unat f) n v) s"
  have "own_space (mem ?s) k3 (cr3 s p) f" using own_space_fill [OF assms(1), of n v] Suc.prems by simp
  then have w: "walk (mem ?s) (cr3 ?s p) (of_nat (DEMO_VA + n)) = Some (unat f + n, True, False)"
    using own_space_walk [of ?s k3 "cr3 s p" f n] Suc.prems by simp
  have "foldl (\<lambda>r i. Option.bind r (store_va p (DEMO_VA + i) v)) (Some s) [0..<Suc n] = store_va p (DEMO_VA + n) v ?s"
    using Suc by simp
  also have "\<dots> = Some (?s\<lparr>mem := (mem ?s)(unat f + n := v)\<rparr>)"
    unfolding store_va_def w by simp
  also have "?s\<lparr>mem := (mem ?s)(unat f + n := v)\<rparr> = mem_update (fill (unat f) (Suc n) v) s"
    by (simp add: fill_Suc [symmetric])
  finally show ?case .
qed

lemma write_signature_ok:
  fixes s :: "'a boot_scheme"
  assumes "own_space (mem s) k3 (cr3 s p) f"
  shows "write_signature p c s = Some (mem_update (fill (unat f) 4 (of_char c)) s)"
  using write_signature_prefix [OF assms, of 4 "of_char c"] by (simp add: write_signature_def)

lemma verify_signature_ok:
  fixes s :: "'a boot_scheme"
  assumes "own_space (mem s) k3 (cr3 s p) f"
  shows "verify_signature p c s = Some (\<forall>i < 4. mem s (unat f + i) = of_char c)"
proof -
  have l: "load_va p (DEMO_VA + i) s = Some (mem s (unat f + i))" if "i < 4" for i
    using own_space_walk [OF assms, of i] that by (simp add: load_va_def)
  have "verify_from p is c s = Some (\<forall>i \<in> set is. mem s (unat f + i) = of_char c)" if "\<forall>i \<in> set is. i < 4" for "is"
    using that by (induction "is") (auto simp: l)
  from this [of "[0..<4]"] show ?thesis by (auto simp: verify_signature_def)
qed

text \<open>Signatures on two processors. Give two threads address spaces by \<open>create_address_space\<close>,
  one after the other, and let thread A on processor \<open>p\<close> and thread B on processor \<open>q\<close> (the same one or
  another) write their signatures to the same virtual address, in this order: no page fault occurs, and
  afterwards A still reads its own signature and so does B. The check that \<open>thread_a\<close> and \<open>thread_b\<close> print
  therefore always says \<open>AS=OK\<close>.\<close>

lemma thread_signatures_isolated:
  fixes s :: "'a boot_scheme"
  assumes "fresh s U" "10 \<le> length (frames_avail s)" "table (kernel_pdpt s)" "kernel_pdpt s \<in> U"
  shows "\<exists>a s1 b s2 u v. create_address_space s = Some (Inr (a, s1)) \<and> create_address_space s1 = Some (Inr (b, s2)) \<and>
    write_signature p c (s2\<lparr>cr3 := (cr3 s2)(p := a)\<rparr>) = Some u \<and>
    write_signature q c' (u\<lparr>cr3 := (cr3 u)(q := b)\<rparr>) = Some v \<and>
    verify_signature p c (v\<lparr>cr3 := (cr3 v)(p := a)\<rparr>) = Some True \<and>
    verify_signature q c' (v\<lparr>cr3 := (cr3 v)(q := b)\<rparr>) = Some True"
proof -
  let ?k3 = "kernel_pdpt s"
  obtain a a3 ad ap fa s1 where A: "create_address_space s = Some (Inr (a, s1))" "space (mem s1) ?k3 a a3 ad ap fa"
      "\<forall>t \<in> {a, a3, ad, ap, fa}. table t \<and> t \<notin> U" "strip s1 = strip s" "fresh s1 (U \<union> {a, a3, ad, ap, fa})"
      "length (frames_avail s) = length (frames_avail s1) + 5" "distinct [a, a3, ad, ap, fa]"
    by (rule create_address_space_distinct [OF assms(1)]) (use assms in auto)
  have k1: "kernel_pdpt s1 = ?k3" using strip_fields(2) [OF A(4)] .
  obtain b b3 bd bp fb s2 where B: "create_address_space s1 = Some (Inr (b, s2))" "space (mem s2) ?k3 b b3 bd bp fb"
      "only_frames {b, b3, bd, bp, fb} (mem s1) (mem s2)" "distinct [b, b3, bd, bp, fb]"
      "\<forall>t \<in> {b, b3, bd, bp, fb}. table t \<and> t \<notin> U \<union> {a, a3, ad, ap, fa}"
    by (rule create_address_space_distinct [OF A(5), unfolded k1]) (use assms A(6) in auto)
  have a2: "space (mem s2) ?k3 a a3 ad ap fa"
    by (rule space_kept [OF A(2) assms(3) B(3)]) (use B(5) A(3) assms(4) in auto)
  have oa: "own_space (mem s2) ?k3 a fa" unfolding own_space_def
    using a2 assms(3,4) A(3,7) by (intro exI [of _ a3] exI [of _ ad] exI [of _ ap]) auto
  have ob: "own_space (mem s2) ?k3 b fb" unfolding own_space_def
    using B(2,4,5) assms(3,4) by (intro exI [of _ b3] exI [of _ bd] exI [of _ bp]) auto
  have apart: "unat fa + 4096 \<le> unat fb \<or> unat fb + 4096 \<le> unat fa" using table_apart [of fa fb] A(3) B(5) by auto
  let ?sa = "s2\<lparr>cr3 := (cr3 s2)(p := a)\<rparr>"
  define u where "u = mem_update (fill (unat fa) 4 (of_char c)) ?sa"
  have wa: "write_signature p c ?sa = Some u" unfolding u_def by (rule write_signature_ok [of _ ?k3]) (use oa in simp)
  let ?ub = "u\<lparr>cr3 := (cr3 u)(q := b)\<rparr>"
  define v where "v = mem_update (fill (unat fb) 4 (of_char c')) ?ub"
  have bu: "own_space (mem u) ?k3 b fb"
    using own_space_other [OF B(2) assms(3), of fa 4 "of_char c"] A(3) B(4,5) assms(4) by (auto simp: u_def)
  have au: "own_space (mem u) ?k3 a fa" using own_space_fill [OF oa] by (simp add: u_def)
  have wb: "write_signature q c' ?ub = Some v" unfolding v_def by (rule write_signature_ok [of _ ?k3]) (use bu in simp)
  have bv: "own_space (mem v) ?k3 b fb" using own_space_fill [OF bu] by (simp add: v_def)
  have "space (mem u) ?k3 a a3 ad ap fa" unfolding u_def
    by (rule space_kept [OF a2 assms(3), of "{fa}"]) (use fill_only [of 4 fa "mem s2"] A(3,7) assms(4) in auto)
  then have av: "own_space (mem v) ?k3 a fa"
    using own_space_other [of "mem u" ?k3 a a3 ad ap fa fb 4 "of_char c'"] A(3,7) B(5) assms(3,4) by (auto simp: v_def)
  have "mem v (unat fa + i) = of_char c" "mem v (unat fb + i) = of_char c'" if "i < 4" for i
    using that apart by (auto simp: v_def u_def fill_apply)
  then have "verify_signature p c (v\<lparr>cr3 := (cr3 v)(p := a)\<rparr>) = Some True"
      "verify_signature q c' (v\<lparr>cr3 := (cr3 v)(q := b)\<rparr>) = Some True"
    using verify_signature_ok [of "v\<lparr>cr3 := (cr3 v)(p := a)\<rparr>" ?k3 p fa c] av
      verify_signature_ok [of "v\<lparr>cr3 := (cr3 v)(q := b)\<rparr>" ?k3 q fb c'] bv by simp_all
  then show ?thesis using A(1) B(1) wa wb by blast
qed

end
