(* ===== verification/Boot_Threads.thy ===== *)
theory Boot_Threads
  imports Boot_Props
begin

text \<open>
  The threads of the boot sequence (\<open>create_threads\<close> of \<open>Boot\<close>): what each creation adds to the scheduler's
  queues and leaves of the rest of the machine, and which threads the timer then runs.
\<close>

section \<open>Creating the threads one by one\<close>

text \<open>Memory outside the frames that were free and the stacks of the first \<open>n\<close> threads.\<close>

definition apart_from_threads :: "'a sched64_scheme \<Rightarrow> nat \<Rightarrow> nat \<Rightarrow> bool" where
  "apart_from_threads s n x \<longleftrightarrow> (\<forall>t < n. x < stack_top64 s t - 80 \<or> stack_top64 s t \<le> x) \<and>
     (\<forall>f \<in> set (pf.frames s). x < unat f \<or> unat f + 4096 \<le> x)"

text \<open>The frames each thread's address space took, in turn, of those that were free; as long as no prepared stack lies in one of them.\<close>

definition stacks_apart :: "'a sched64_scheme \<Rightarrow> bool" where
  "stacks_apart s \<longleftrightarrow> (\<forall>t < MAX_THREADS64. stack_apart s t (insert (kernel_pdpt s) (set (pf.frames s))))"

definition spaces_made :: "'a sched64_scheme \<Rightarrow> u64 list \<Rightarrow> memory \<Rightarrow> bool" where
  "spaces_made s0 roots m \<longleftrightarrow> (stacks_apart s0 \<longrightarrow> (\<forall>i < length roots. \<exists>t3 d pt f.
     take 5 (drop (5 * i) (pf.frames s0)) = [roots ! i, t3, d, pt, f] \<and> space m (kernel_pdpt s0) (roots ! i) t3 d pt f))"

text \<open>\<open>s\<close> is \<open>s0\<close> with \<open>length names\<close> threads more: their queues \<open>R\<close>, names and address spaces; the tables in \<open>U\<close> were never
  handed out.\<close>

definition threads_made ::
    "u64 set \<Rightarrow> 'a sched64_scheme \<Rightarrow> (nat \<Rightarrow> nat list) \<Rightarrow> string list \<Rightarrow> u64 list \<Rightarrow> 'a sched64_scheme \<Rightarrow> bool" where
  "threads_made U s0 R names roots s \<longleftrightarrow> sched_rep s R \<and> thread64_count s = length names \<and>
     map (\<lambda>i. thread_name (threads64 s i)) [0..<length names] = names \<and>
     map (\<lambda>i. thread_cr3 (threads64 s i)) [0..<length names] = roots \<and> distinct roots \<and> set roots \<inter> U = {} \<and>
     (\<forall>i < length names. time_slice (threads64 s i) = 5) \<and> fresh s (U \<union> set roots) \<and>
     length (frames_avail s0) = length (frames_avail s) + 5 * length names \<and> set (pf.frames s) \<subseteq> set (pf.frames s0) \<and>
     strip s = strip (s0\<lparr>threads64 := threads64 s, thread64_count := thread64_count s, ready_queue := ready_queue s,
       ready_bitmap := ready_bitmap s\<rparr>) \<and>
     (\<forall>x. apart_from_threads s0 (length names) x \<longrightarrow> mem s x = mem s0 x) \<and>
     pf.frames s = drop (5 * length names) (pf.frames s0) \<and> spaces_made s0 roots (mem s)"

lemma threads_made_none:
  assumes "sched_rep s (\<lambda>_. [])" "thread64_count s = 0" "fresh s U"
  shows "threads_made U s (\<lambda>_. []) [] [] s"
proof -
  have same: "s\<lparr>threads64 := threads64 s, thread64_count := thread64_count s, ready_queue := ready_queue s,
       ready_bitmap := ready_bitmap s\<rparr> = s" by simp
  show ?thesis unfolding threads_made_def same using assms by (simp add: spaces_made_def)
qed

lemma chunk_subset: "i < n \<Longrightarrow> set (take 5 (drop (5 * i) xs)) \<subseteq> set (take (5 * n) xs)"
proof -
  assume "i < n"
  have "set (take 5 (drop (5 * i) xs)) \<subseteq> set (take (5 + 5 * i) xs)" unfolding take_drop by (rule set_drop_subset)
  also have "\<dots> \<subseteq> set (take (5 * n) xs)" using \<open>i < n\<close> by (intro set_take_subset_set_take) simp
  finally show ?thesis .
qed

lemma spaces_step:
  fixes s0 :: "'a sched64_scheme"
  assumes fr: "fresh s0 U" and k: "table (kernel_pdpt s0)" "kernel_pdpt s0 \<in> U"
    and made: "spaces_made s0 roots m" and n: "n = length roots" "n < MAX_THREADS64"
    and fs: "drop (5 * n) (pf.frames s0) = root # t3 # d # pt # f # ts"
    and sp: "stack_apart s0 n (insert (kernel_pdpt s0) (set (drop (5 * n) (pf.frames s0)))) \<Longrightarrow> space m' (kernel_pdpt s0) root t3 d pt f"
    and mem: "\<And>x. x < stack_top64 s0 n - 80 \<or> stack_top64 s0 n \<le> x \<Longrightarrow>
      \<forall>g \<in> set (drop (5 * n) (pf.frames s0)). x < unat g \<or> unat g + 4096 \<le> x \<Longrightarrow> m' x = m x"
  shows "spaces_made s0 (roots @ [root]) m'"
  unfolding spaces_made_def
proof (intro impI allI)
  let ?fs = "pf.frames s0" and ?k3 = "kernel_pdpt s0"
  fix i assume ap: "stacks_apart s0" and i: "i < length (roots @ [root])"
  have stk: "stack_apart s0 n (insert ?k3 (set ?fs))" using ap n(2) by (simp add: stacks_apart_def)
  note f0 = freshD [OF fr]
  show "\<exists>t3 d pt f. take 5 (drop (5 * i) ?fs) = [(roots @ [root]) ! i, t3, d, pt, f] \<and> space m' ?k3 ((roots @ [root]) ! i) t3 d pt f"
  proof (cases "i = n")
    case True
    have "stack_apart s0 n (insert ?k3 (set (drop (5 * n) ?fs)))"
      using stk set_drop_subset [of "5 * n" ?fs] by (auto simp: stack_apart_def)
    then have "space m' ?k3 root t3 d pt f" by (rule sp)
    then show ?thesis using True fs n(1) by simp
  next
    case False
    then have i': "i < length roots" "i < n" using i n(1) by auto
    obtain u3 e qt g where o: "take 5 (drop (5 * i) ?fs) = [roots ! i, u3, e, qt, g]" "space m ?k3 (roots ! i) u3 e qt g"
      using made ap i'(1) unfolding spaces_made_def by blast
    have old: "set [roots ! i, u3, e, qt, g] \<subseteq> set (take (5 * n) ?fs)"
      using chunk_subset [OF i'(2), of ?fs] by (simp only: o(1))
    have dis: "set (take (5 * n) ?fs) \<inter> set (drop (5 * n) ?fs) = {}" using f0(2) by (simp add: set_take_disj_set_drop_if_distinct)
    have "space m' ?k3 (roots ! i) u3 e qt g"
    proof (rule space_cong [OF o(2)], rule mem)
      fix v x assume v: "v \<in> {?k3, roots ! i, u3, e, qt}" "unat v \<le> x" "x < unat v + 4096"
      then have vfs: "v \<in> insert ?k3 (set ?fs)" using old set_take_subset [of "5 * n" ?fs] by auto
      then show "x < stack_top64 s0 n - 80 \<or> stack_top64 s0 n \<le> x" using stk v(2,3) by (fastforce simp: stack_apart_def)
      show "\<forall>g \<in> set (drop (5 * n) ?fs). x < unat g \<or> unat g + 4096 \<le> x"
      proof
        fix h assume h: "h \<in> set (drop (5 * n) ?fs)"
        then have "h \<in> set ?fs" by (rule in_set_dropD)
        then have "table h" "h \<notin> U" using f0(3) by auto
        moreover have "h \<noteq> v" using h dis old v(1) k(2) \<open>h \<notin> U\<close> by auto
        moreover have "table v" using v(1) k(1) o(2) by (auto simp: space_def)
        ultimately show "x < unat h \<or> unat h + 4096 \<le> x" using table_apart [of h v] v(2,3) by auto
      qed
    qed
    then show ?thesis using o(1) i'(1) by (simp add: nth_append)
  qed
qed

lemma thread_fields:
  assumes "\<And>i. i \<noteq> t \<Longrightarrow> (threads64 s' i)\<lparr>next_thread := None\<rparr> = (threads64 s i)\<lparr>next_thread := None\<rparr>" "i \<noteq> t"
  shows "thread_name (threads64 s' i) = thread_name (threads64 s i)" "thread_cr3 (threads64 s' i) = thread_cr3 (threads64 s i)"
    "time_slice (threads64 s' i) = time_slice (threads64 s i)"
proof -
  have "thread_name ((threads64 s' i)\<lparr>next_thread := None\<rparr>) = thread_name ((threads64 s i)\<lparr>next_thread := None\<rparr>)"
    "thread_cr3 ((threads64 s' i)\<lparr>next_thread := None\<rparr>) = thread_cr3 ((threads64 s i)\<lparr>next_thread := None\<rparr>)"
    "time_slice ((threads64 s' i)\<lparr>next_thread := None\<rparr>) = time_slice ((threads64 s i)\<lparr>next_thread := None\<rparr>)"
    unfolding assms(1) [OF assms(2)] by (rule refl)+
  then show "thread_name (threads64 s' i) = thread_name (threads64 s i)" "thread_cr3 (threads64 s' i) = thread_cr3 (threads64 s i)"
    "time_slice (threads64 s' i) = time_slice (threads64 s i)" by simp_all
qed

lemma thread_step:
  fixes s0 s :: "'a boot_scheme"
  assumes made: "threads_made U s0 R names roots s" and n: "n = length names" "n < MAX_THREADS64" and q: "q < NUM_PRIORITIES64"
    and left: "5 * n + 5 \<le> length (frames_avail s0)" and k: "table (kernel_pdpt s0)" "kernel_pdpt s0 \<in> U" and fr0: "fresh s0 U"
  obtains root s' where "create_or_panic thread_start e q name s = Some (Inr (n, s'))"
    "threads_made U s0 (R(q := R q @ [n])) (names @ [name]) (roots @ [root]) s'"
proof -
  note m = made [unfolded threads_made_def, folded n(1)]
  have st: "strip s = strip (s0\<lparr>threads64 := threads64 s, thread64_count := thread64_count s, ready_queue := ready_queue s,
       ready_bitmap := ready_bitmap s\<rparr>)" using m by blast
  have ks: "kernel_pdpt s = kernel_pdpt s0" "threads64_addr s = threads64_addr s0"
    using strip_fields(2) [OF st] strip_sched(2) [OF st] by simp_all
  have top: "stack_top64 s i = stack_top64 s0 i" for i by (simp add: stack_top64_def ks)
  have fr: "sched_rep s R" "n = thread64_count s" "fresh s (U \<union> set roots)" "5 \<le> length (frames_avail s)"
    "table (kernel_pdpt s)" "kernel_pdpt s \<in> U \<union> set roots" using m left k ks(1) by auto
  obtain root s' where s': "sched64_create_thread thread_start e q name s = Some (Inr (Some n, s'))"
      "sched_rep s' (R(q := R q @ [n]))" "thread64_count s' = Suc n" "time_slice (threads64 s' n) = 5"
      "\<And>i. i \<noteq> n \<Longrightarrow> (threads64 s' i)\<lparr>next_thread := None\<rparr> = (threads64 s i)\<lparr>next_thread := None\<rparr>"
      "length (frames_avail s) = length (frames_avail s') + 5"
      "thread_cr3 (threads64 s' n) = root" "root \<notin> U \<union> set roots" "fresh s' (insert root (U \<union> set roots))" "thread_name (threads64 s' n) = name"
      "strip s' = strip (s\<lparr>threads64 := threads64 s', thread64_count := Suc n, ready_queue := ready_queue s',
         ready_bitmap := ready_bitmap s'\<rparr>)" "set (pf.frames s') \<subseteq> set (pf.frames s)"
      "\<And>x. x < stack_top64 s n - 80 \<or> stack_top64 s n \<le> x \<Longrightarrow>
         (\<forall>f \<in> set (pf.frames s). x < unat f \<or> unat f + 4096 \<le> x) \<Longrightarrow> mem s' x = mem s x"
      "\<exists>t3 d pt f. pf.frames s = root # t3 # d # pt # f # pf.frames s' \<and>
       (stack_apart s n (insert (kernel_pdpt s) (set (pf.frames s))) \<longrightarrow> space (mem s') (kernel_pdpt s) root t3 d pt f)"
    by (rule create_thread_ok [OF fr(1,2) n(2) q fr(3-6), of thread_start e name]) blast
  note f = thread_fields [of n s' s, OF s'(5)]
  have run: "create_or_panic thread_start e q name s = Some (Inr (n, s'))" by (simp add: create_or_panic_def s'(1))
  have "strip s' = (strip s)\<lparr>threads64 := threads64 s', thread64_count := Suc n, ready_queue := ready_queue s',
         ready_bitmap := ready_bitmap s'\<rparr>" unfolding s'(11) by (simp add: strip_def)
  also have "\<dots> = strip (s0\<lparr>threads64 := threads64 s', thread64_count := Suc n, ready_queue := ready_queue s', ready_bitmap := ready_bitmap s'\<rparr>)"
    unfolding st by (simp add: strip_def)
  finally have st': "strip s' = strip (s0\<lparr>threads64 := threads64 s', thread64_count := Suc n, ready_queue := ready_queue s',
       ready_bitmap := ready_bitmap s'\<rparr>)" .
  have mem: "mem s' x = mem s0 x" if "apart_from_threads s0 (Suc n) x" for x
  proof -
    have "mem s' x = mem s x" by (rule s'(13)) (use that m in \<open>auto simp: apart_from_threads_def top\<close>)
    also have "\<dots> = mem s0 x" using that m by (auto simp: apart_from_threads_def)
    finally show ?thesis .
  qed
  have rl: "length roots = n" and ps: "pf.frames s = drop (5 * n) (pf.frames s0)" and sm: "spaces_made s0 roots (mem s)"
    using m by (auto simp: n(1))
  obtain t3 d pt f where fs: "pf.frames s = root # t3 # d # pt # f # pf.frames s'"
      "stack_apart s n (insert (kernel_pdpt s) (set (pf.frames s))) \<longrightarrow> space (mem s') (kernel_pdpt s) root t3 d pt f"
    using s'(14) by blast
  have "pf.frames s' = drop 5 (pf.frames s)" by (simp add: fs(1))
  then have ps': "pf.frames s' = drop (5 * Suc n) (pf.frames s0)" by (simp add: ps)
  have sm': "spaces_made s0 (roots @ [root]) (mem s')"
  proof (rule spaces_step [OF fr0 k sm rl [symmetric] n(2)])
    show "drop (5 * n) (pf.frames s0) = root # t3 # d # pt # f # pf.frames s'" using fs(1) ps by simp
    show "space (mem s') (kernel_pdpt s0) root t3 d pt f" if "stack_apart s0 n (insert (kernel_pdpt s0) (set (drop (5 * n) (pf.frames s0))))"
      using that fs(2) unfolding ps ks by (simp add: stack_apart_def top)
    show "mem s' x = mem s x" if "x < stack_top64 s0 n - 80 \<or> stack_top64 s0 n \<le> x"
        "\<forall>g \<in> set (drop (5 * n) (pf.frames s0)). x < unat g \<or> unat g + 4096 \<le> x" for x
      using that by (intro s'(13)) (simp_all add: top ps)
  qed
  have "map (\<lambda>i. thread_name (threads64 s' i)) [0..<n] = map (\<lambda>i. thread_name (threads64 s i)) [0..<n]"
    "map (\<lambda>i. thread_cr3 (threads64 s' i)) [0..<n] = map (\<lambda>i. thread_cr3 (threads64 s i)) [0..<n]" using f(1,2) by auto
  moreover have "time_slice (threads64 s' i) = 5" if "i < Suc n" for i using that f(3) [of i] s'(4) m by (cases "i = n") auto
  moreover have "fresh s' (U \<union> set (roots @ [root]))" using s'(9) by simp
  ultimately have "threads_made U s0 (R(q := R q @ [n])) (names @ [name]) (roots @ [root]) s'"
    using s'(2,3,6-8,10,12) m st' mem ps' sm' unfolding threads_made_def by (auto simp: n(1) [symmetric] dest: in_set_dropD)
  then show ?thesis using that run by blast
qed

section \<open>All four\<close>

lemma sched64_init_frame:
  fixes s :: "'a sched64_scheme"
  shows "thread64_count (sched64_init s) = 0" "fresh (sched64_init s) U = fresh s U" "frames_avail (sched64_init s) = frames_avail s"
    "kernel_pdpt (sched64_init s) = kernel_pdpt s" "c < 16 \<Longrightarrow> current (sched64_init s) c = None" "mem (sched64_init s) = mem s"
    "threads64_addr (sched64_init s) = threads64_addr s" "\<exists>rq cu. sched64_init s = s\<lparr>ready_bitmap := 0, ready_queue := rq, current := cu, thread64_count := 0\<rparr>"
  unfolding sched64_init_def clear_queues clear_current Let_def
  by (auto simp: fresh_def frames_avail_def alloc_ok_def memmap_ok_def free_frames_def)

definition boot_queues :: "nat \<Rightarrow> nat list" where
  "boot_queues = (\<lambda>_. [])(5 := [0, 1, 3], 2 := [2])"

definition boot_names :: "string list" where
  "boot_names = [''ThreadA'', ''ThreadB'', ''ThreadC-low'', ''Ring3Launcher'']"

lemma four_threads:
  fixes s :: "'a boot_scheme"
  assumes "fresh s U" "20 \<le> length (frames_avail s)" "table (kernel_pdpt s)" "kernel_pdpt s \<in> U"
  obtains roots s4 where "create_threads img s =
      bind_p (create_user_process s4) (\<lambda>root s. Some (Inr ((), kprint (''4 threads created (A,B,Ring3Launcher prio=5, C prio=2)'' @ [nl])
        (set_thread 3 (\<lambda>th. th\<lparr>thread_cr3 := root\<rparr>) s))))"
    "threads_made U (sched64_init s) boot_queues boot_names roots s4" "length roots = 4"
proof -
  let ?s = "sched64_init s" and ?c = "create_or_panic (thread_start64_addr img)"
  have i: "threads_made U ?s (\<lambda>_. []) [] [] ?s"
    by (rule threads_made_none) (use assms in \<open>simp_all add: sched64_init_rep sched64_init_frame\<close>)
  note k = assms(3,4) [folded sched64_init_frame(4) [of s]]
  have f0: "fresh ?s U" using assms(1) by (simp add: sched64_init_frame)
  have l: "20 \<le> length (frames_avail ?s)" using assms(2) by (simp add: sched64_init_frame)
  obtain r0 s1 where 1: "?c (thread_a_addr img) 5 ''ThreadA'' ?s = Some (Inr (0, s1))"
      "threads_made U ?s ((\<lambda>_. [])(5 := [0])) [''ThreadA''] [r0] s1"
    by (rule thread_step [OF i, of 0 5]) (use k l f0 in auto)
  obtain r1 s2 where 2: "?c (thread_b_addr img) 5 ''ThreadB'' s1 = Some (Inr (1, s2))"
      "threads_made U ?s ((\<lambda>_. [])(5 := [0, 1])) [''ThreadA'', ''ThreadB''] [r0, r1] s2"
    by (rule thread_step [OF 1(2), of 1 5]) (use k l f0 in auto)
  obtain r2 s3 where 3: "?c (thread_c_addr img) 2 ''ThreadC-low'' s2 = Some (Inr (2, s3))"
      "threads_made U ?s ((\<lambda>_. [])(5 := [0, 1], 2 := [2])) [''ThreadA'', ''ThreadB'', ''ThreadC-low''] [r0, r1, r2] s3"
    by (rule thread_step [OF 2(2), of 2 2]) (use k l f0 in auto)
  obtain r3 s4 where 4: "?c (launcher_addr img) 5 ''Ring3Launcher'' s3 = Some (Inr (3, s4))"
      "threads_made U ?s (((\<lambda>_. [])(5 := [0, 1], 2 := [2]))(5 := [0, 1] @ [3]))
         ([''ThreadA'', ''ThreadB'', ''ThreadC-low''] @ [''Ring3Launcher'']) ([r0, r1, r2] @ [r3]) s4"
    by (rule thread_step [OF 3(2), of 3 5]) (use k l f0 in auto)
  have "threads_made U ?s boot_queues boot_names [r0, r1, r2, r3] s4"
    using 4(2) by (simp add: boot_queues_def boot_names_def fun_upd_twist)
  then show ?thesis
    by (rule that [rotated]) (simp_all add: create_threads_def Let_def 1(1) 2(1) 3(1) 4(1))
qed

lemma apart_table:
  assumes "fresh s U" "table t" "t \<in> U" "unat t \<le> x" "x < unat t + 4096"
    and "\<forall>i < n. stack_top64 s i \<le> unat t \<or> unat t + 4096 \<le> stack_top64 s i - 80"
  shows "apart_from_threads s n x"
proof -
  have "x < unat f \<or> unat f + 4096 \<le> x" if "f \<in> set (pf.frames s)" for f
  proof -
    have "table f" "f \<noteq> t" using freshD(3) [OF assms(1) that] assms(3) by auto
    then show ?thesis using table_apart [of f t] assms(2,4,5) by auto
  qed
  moreover have "x < stack_top64 s i - 80 \<or> stack_top64 s i \<le> x" if "i < n" for i
    using assms(6) that assms(4,5) by fastforce
  ultimately show ?thesis by (simp add: apart_from_threads_def)
qed

lemma sched64_init_apart [simp]: "apart_from_threads (sched64_init s) n x = apart_from_threads s n x"
  by (simp add: apart_from_threads_def stack_top64_def sched64_init_frame pf.frames_def)

lemma create_threads_ok:
  fixes s :: "'a boot_scheme"
  assumes fr: "fresh s U" "26 \<le> length (frames_avail s)" and k: "table (kernel_pdpt s)" "kernel_pdpt s \<in> U"
    and absent: "\<not> bit (entry (mem s) (kernel_pdpt s) 1) 0"
    and apart: "\<forall>i < 4. stack_top64 s i \<le> unat (kernel_pdpt s) \<or> unat (kernel_pdpt s) + 4096 \<le> stack_top64 s i - 80"
  obtains roots s' where
    "create_threads img s = Some (Inr ((), kprint (''4 threads created (A,B,Ring3Launcher prio=5, C prio=2)'' @ [nl]) s'))"
    "sched_rep s' boot_queues" "thread64_count s' = 4" "map (\<lambda>i. thread_name (threads64 s' i)) [0..<4] = boot_names"
    "map (\<lambda>i. thread_cr3 (threads64 s' i)) [0..<4] = roots" "distinct roots" "set roots \<inter> U = {}"
    "\<forall>i < 4. time_slice (threads64 s' i) = 5" "fresh s' U" "length (frames_avail s) = length (frames_avail s') + 26"
    "set (pf.frames s') \<subseteq> set (pf.frames s)"
    "strip s' = strip ((sched64_init s)\<lparr>threads64 := threads64 s', thread64_count := 4, ready_queue := ready_queue s',
       ready_bitmap := ready_bitmap s'\<rparr>)" "\<forall>x. apart_from_threads s 4 x \<longrightarrow> mem s' x = mem s x"
    "\<exists>t3 d pt c st. user_space (mem s') (kernel_pdpt s) (roots ! 3) t3 d pt c st"
    "spaces_made s (take 3 roots) (mem s')"
proof -
  obtain roots s4 where 4: "create_threads img s =
      bind_p (create_user_process s4) (\<lambda>root s. Some (Inr ((), kprint (''4 threads created (A,B,Ring3Launcher prio=5, C prio=2)'' @ [nl])
        (set_thread 3 (\<lambda>th. th\<lparr>thread_cr3 := root\<rparr>) s))))"
      "threads_made U (sched64_init s) boot_queues boot_names roots s4" "length roots = 4"
    by (rule four_threads [OF fr(1) _ k, of img]) (use fr(2) in auto)
  have len: "length boot_names = 4" by (simp add: boot_names_def)
  note m = 4(2) [unfolded threads_made_def len]
  have st: "strip s4 = strip ((sched64_init s)\<lparr>threads64 := threads64 s4, thread64_count := thread64_count s4,
      ready_queue := ready_queue s4, ready_bitmap := ready_bitmap s4\<rparr>)" using m by blast
  have k4: "kernel_pdpt s4 = kernel_pdpt s" using strip_fields(2) [OF st] by (simp add: sched64_init_frame)
  note f4 = freshD [of s4 "U \<union> set roots"]
  have fresh4: "fresh s4 (U \<union> set roots)" and mem4: "\<forall>x. apart_from_threads s 4 x \<longrightarrow> mem s4 x = mem s x"
    and sub4: "set (pf.frames s4) \<subseteq> set (pf.frames s)" and len4: "length (frames_avail s) = length (frames_avail s4) + 20"
    using m by (auto simp: sched64_init_frame pf.frames_def dest: in_set_dropD)
  have "6 \<le> length (pf.frames s4)" using fr(2) len4 by (simp add: pf.frames_def)
  then obtain t4 t3 c sk d pt ts where fs: "pf.frames s4 = t4 # t3 # c # sk # d # pt # ts" by (rule list6E)
  have tabs: "\<forall>t \<in> {t4, t3, c, sk, d, pt}. table t \<and> t \<notin> U \<union> set roots" using f4(3) [OF fresh4] by (simp add: fs)
  have dist: "distinct [t4, t3, c, sk, d, pt]" using f4(2) [OF fresh4] by (simp add: fs)
  have "entry (mem s4) (kernel_pdpt s) 1 = entry (mem s) (kernel_pdpt s) 1" unfolding entry_def
  proof (rule read64_cong)
    fix x assume "unat (kernel_pdpt s) + 8 * 1 \<le> x" "x < unat (kernel_pdpt s) + 8 * 1 + 8"
    then have "apart_from_threads s 4 x" by (intro apart_table [OF fr(1) k _ _ apart]) simp_all
    then show "mem s4 x = mem s x" using mem4 by blast
  qed
  then have ab4: "\<not> bit (entry (mem s4) (kernel_pdpt s4) 1) 0" using absent k4 by simp
  obtain s5 where s5: "create_user_process s4 = Some (Inr (t4, s5))" "alloc_ok s5" "pf.frames s5 = ts" "strip s5 = strip s4"
      "user_space (mem s5) (kernel_pdpt s4) t4 t3 d pt c sk" "only_frames {t4, t3, c, sk, d, pt} (mem s4) (mem s5)"
    by (rule create_user_process_ok [OF f4(1) [OF fresh4] fs _ _ dist ab4]) (use k k4 tabs in auto)
  note f5 = strip_sched [OF s5(4)]
  define s' where "s' = set_thread 3 (\<lambda>th. th\<lparr>thread_cr3 := t4\<rparr>) s5"
  have run: "create_threads img s = Some (Inr ((), kprint (''4 threads created (A,B,Ring3Launcher prio=5, C prio=2)'' @ [nl]) s'))"
    by (simp add: 4(1) s5(1) s'_def)
  have th: "threads64 s' = (threads64 s4)(3 := (threads64 s4 3)\<lparr>thread_cr3 := t4\<rparr>)" by (simp add: s'_def f5(1))
  have four: "[0..<4] = [0, 1, 2, 3 :: nat]" by (simp add: upt_rec)
  obtain r0 r1 r2 r3 where roots: "roots = [r0, r1, r2, r3]" using 4(3) by (auto simp: length_Suc_conv eval_nat_numeral)
  show ?thesis
  proof (rule that [OF run, of "[r0, r1, r2, t4]"])
    show "sched_rep s' boot_queues" by (rule sched_rep_cong [of s4]) (use m f5 in \<open>auto simp: s'_def\<close>)
    show "thread64_count s' = 4" using m f5(3) by (simp add: s'_def)
    show "map (\<lambda>i. thread_name (threads64 s' i)) [0..<4] = boot_names" using m by (simp add: th four)
    show "map (\<lambda>i. thread_cr3 (threads64 s' i)) [0..<4] = [r0, r1, r2, t4]" using m by (auto simp: th four roots)
    show "distinct [r0, r1, r2, t4]" "set [r0, r1, r2, t4] \<inter> U = {}" using m tabs by (auto simp: roots)
    show "\<forall>i < 4. time_slice (threads64 s' i) = 5" using m by (simp add: th)
    have "fresh s5 U" using s5(2,3) f4(2,3) [OF fresh4] unfolding fresh_def pf.frames_def [symmetric]
      by (auto simp: fs pf.frames_def [symmetric] image_set)
    then show "fresh s' U" by (simp add: s'_def)
    have p': "pf.frames s' = ts" "length (frames_avail s5) = length ts" using s5(3) by (auto simp: s'_def pf.frames_def)
    show "length (frames_avail s) = length (frames_avail s') + 26"
      using len4 p'(2) arg_cong [OF fs, of length] by (simp add: s'_def pf.frames_def)
    show "set (pf.frames s') \<subseteq> set (pf.frames s)" using sub4 p'(1) by (simp add: fs)
    show "\<forall>x. apart_from_threads s 4 x \<longrightarrow> mem s' x = mem s x"
    proof (intro allI impI)
      fix x assume x: "apart_from_threads s 4 x"
      have "x < unat t \<or> unat t + 4096 \<le> x" if "t \<in> {t4, t3, c, sk, d, pt}" for t
        using x sub4 that by (auto simp: apart_from_threads_def fs)
      then have "mem s5 x = mem s4 x" using s5(6) by (simp add: only_frames_def)
      then show "mem s' x = mem s x" using mem4 x by (simp add: s'_def)
    qed
    have "strip s' = (strip s5)\<lparr>threads64 := threads64 s'\<rparr>" by (simp add: s'_def strip_def)
    then show "strip s' = strip ((sched64_init s)\<lparr>threads64 := threads64 s', thread64_count := 4, ready_queue := ready_queue s',
       ready_bitmap := ready_bitmap s'\<rparr>)"
      unfolding s5(4) st using m f5 by (simp add: strip_def s'_def)
    have same: "pf.frames (sched64_init s) = pf.frames s" "stacks_apart (sched64_init s) = stacks_apart s"
      by (simp_all add: pf.frames_def stacks_apart_def stack_apart_def stack_top64_def sched64_init_frame)
    have p4: "pf.frames s4 = drop 20 (pf.frames s)" and sm: "spaces_made (sched64_init s) [r0, r1, r2, r3] (mem s4)"
      using m same(1) by (simp_all add: roots)
    have keep: "space (mem s') (kernel_pdpt s) u4 u3 e qt g"
      if sp: "space (mem s4) (kernel_pdpt s) u4 u3 e qt g" and u: "take 5 (drop (5 * i) (pf.frames s)) = [u4, u3, e, qt, g]" "i < 3" for i u4 u3 e qt g
    proof -
      have "set [u4, u3, e, qt, g] \<subseteq> set (take 20 (pf.frames s))"
        using chunk_subset [of i 4 "pf.frames s"] u by simp
      moreover have "set (take 20 (pf.frames s)) \<inter> set (pf.frames s4) = {}"
        unfolding p4 using freshD(2) [OF fr(1)] by (simp add: set_take_disj_set_drop_if_distinct)
      moreover have "kernel_pdpt s \<notin> {t4, t3, c, sk, d, pt}" using tabs k(2) by auto
      ultimately have "{t4, t3, c, sk, d, pt} \<inter> {kernel_pdpt s, u4, u3, e, qt} = {}" by (auto simp: fs)
      then have "space (mem s5) (kernel_pdpt s) u4 u3 e qt g"
        using tabs by (intro space_kept [OF sp k(1) s5(6)]) auto
      then show ?thesis by (simp add: s'_def)
    qed
    have nth: "[r0, r1, r2, r3] ! i = take 3 [r0, r1, r2, t4] ! i" if "i < 3" for i
      using that by (auto simp: less_Suc_eq numeral_3_eq_3)
    show "spaces_made s (take 3 [r0, r1, r2, t4]) (mem s')"
      unfolding spaces_made_def
    proof (intro impI allI)
      fix i assume ap: "stacks_apart s" and i: "i < length (take 3 [r0, r1, r2, t4])"
      then have i3: "i < 3" by simp
      have "i < length [r0, r1, r2, r3]" using i3 by simp
      then obtain u3 e qt g where "take 5 (drop (5 * i) (pf.frames s)) = [[r0, r1, r2, r3] ! i, u3, e, qt, g]"
          "space (mem s4) (kernel_pdpt s) ([r0, r1, r2, r3] ! i) u3 e qt g"
        using sm ap unfolding spaces_made_def same sched64_init_frame by blast
      then show "\<exists>t3 d pt f. take 5 (drop (5 * i) (pf.frames s)) = [take 3 [r0, r1, r2, t4] ! i, t3, d, pt, f] \<and>
          space (mem s') (kernel_pdpt s) (take 3 [r0, r1, r2, t4] ! i) t3 d pt f"
        using keep i3 unfolding nth [OF i3] by blast
    qed
    show "\<exists>t3 d pt c st. user_space (mem s') (kernel_pdpt s) ([r0, r1, r2, t4] ! 3) t3 d pt c st"
      using s5(5) unfolding s'_def k4 by (intro exI [of _ t3] exI [of _ d] exI [of _ pt] exI [of _ c] exI [of _ sk]) simp
  qed
qed

section \<open>Which threads the timer runs\<close>

text \<open>Between two reschedules the running thread stays.\<close>

lemma ticks_current:
  assumes "sched_rep s R" "top_queue R q" "current s (get_cpu_index p) = Some (hd (R q))"
    and "\<forall>x \<in> set (R q). time_slice (threads64 s x) = 5" "\<not> NKern_IsLocked p s"
  shows "current ((sched64_timer_tick p ^^ n) s) (get_cpu_index p) = Some (R q ! (n div 5 mod length (R q)))"
proof -
  let ?u = "(sched64_reschedule p ^^ (n div 5)) s" and ?t = "R q ! (n div 5 mod length (R q))"
  have ne: "R q \<noteq> []" using assms(2) by (simp add: top_queue_def)
  have cur: "current ?u (get_cpu_index p) = Some ?t" using rr64.round_robin [OF assms(1-3)] by blast
  have "time_slice (threads64 ((sched64_reschedule p ^^ j) s) i) = time_slice (threads64 s i)" for i j
    by (induction j) (simp_all add: reschedule_time_slice)
  then have five: "time_slice (threads64 ?u ?t) = of_nat 5" using assms(4) ne by simp
  have "(sched64_timer_tick p ^^ n) s = (sched64_timer_tick p ^^ (n mod 5)) ((sched64_timer_tick p ^^ (5 * (n div 5))) s)"
    by (metis comp_apply funpow_add mod_mult_div_eq)
  also have "\<dots> = (sched64_timer_tick p ^^ (n mod 5)) ?u" by (simp only: ticks_are_reschedules [OF assms])
  also have "\<dots> = set_thread ?t (\<lambda>th. th\<lparr>time_slice := of_nat (5 - n mod 5)\<rparr>) ?u"
    by (rule ticks_before [OF cur five]) simp_all
  finally show ?thesis using cur by simp
qed

text \<open>From the first reschedule on, on a processor that runs no thread yet.\<close>

lemma first_reschedule:
  fixes s :: "'a boot_scheme"
  assumes "sched_rep s boot_queues" "current s (get_cpu_index p) = None" "\<forall>i < 4. time_slice (threads64 s i) = 5"
    "preempt_disable_count s (get_cpu_index p) = 0"
  defines "v \<equiv> sched64_reschedule p s"
  shows "current ((sched64_timer_tick p ^^ n) v) (get_cpu_index p) = Some ([0, 1, 3] ! (n div 5 mod 3))"
    "iflag v p" "\<not> big_kernel_lock v" "\<not> NKern_IsLocked p v"
proof -
  have topq: "top_queue boot_queues 5" by (auto simp: top_queue_def boot_queues_def)
  have q5: "boot_queues 5 = [0, 1, 3]" by (simp add: boot_queues_def)
  have v: "sched_rep v boot_queues" "current v (get_cpu_index p) = Some 0"
    using rr64.resched_pick [OF assms(1) topq q5] assms(2) by (simp_all add: v_def)
  have u: "preempt_disable_count v = preempt_disable_count s" "\<not> big_kernel_lock v" "iflag v = (iflag s)(p := True)"
    using reschedule_unlocks [OF assms(4)] by (simp_all add: v_def)
  then show "iflag v p" "\<not> big_kernel_lock v" "\<not> NKern_IsLocked p v" using assms(4) by (simp_all add: NKern_IsLocked_def)
  have "current ((sched64_timer_tick p ^^ n) v) (get_cpu_index p) = Some (boot_queues 5 ! (n div 5 mod length (boot_queues 5)))"
    by (rule ticks_current [OF v(1) topq]) (use v(2) q5 assms(3,4) u(1) in \<open>auto simp: v_def reschedule_time_slice NKern_IsLocked_def\<close>)
  then show "current ((sched64_timer_tick p ^^ n) v) (get_cpu_index p) = Some ([0, 1, 3] ! (n div 5 mod 3))" by (simp add: q5)
qed

end
