(* ===== verification/Uefi.thy ===== *)
theory Uefi
  imports Boot_Threads
begin

text \<open>
  The UEFI entry (\<open>src/uefi_main.c\<close>): \<open>efi_main\<close> asks the firmware for its memory map, leaves the boot
  services, turns the map into the kernel's region table and calls \<open>kernel_main64\<close>. The boot services
  are not part of the sources: they are the functions \<open>efi_services\<close>, on a firmware state of any type and on
  memory. The variables the calls fill in are passed and returned as a record, since a
  call may leave some of them as they were (\<open>MapKey\<close> and \<open>DescriptorSize\<close> are not initialised before the first). No
  status is returned, as \<open>efi_main\<close> looks at none.
\<close>

record efi_map_args =
  MapSize :: u64
  MapKey :: u64
  DescriptorSize :: u64

record 'f efi_services =
  InitializeLib :: "'f \<Rightarrow> 'f"
  Print :: "string \<Rightarrow> 'f \<Rightarrow> 'f"
  GetMemoryMap :: "efi_map_args \<Rightarrow> nat \<Rightarrow> 'f \<Rightarrow> memory \<Rightarrow> efi_map_args \<times> 'f \<times> memory"
  AllocatePool :: "u64 \<Rightarrow> nat \<Rightarrow> 'f \<Rightarrow> memory \<Rightarrow> nat \<times> 'f \<times> memory"
  ExitBootServices :: "u64 \<Rightarrow> 'f \<Rightarrow> 'f"

section \<open>The entry point\<close>

text \<open>\<open>a\<close> holds what the uninitialised variables happen to contain. The result is the firmware's state and that of the kernel's
  run.\<close>

definition efi_main ::
    "'f efi_services \<Rightarrow> image \<Rightarrow> (u8 \<Rightarrow> bool) \<Rightarrow> nat \<Rightarrow> efi_map_args \<Rightarrow> 'f \<Rightarrow> 'a boot_scheme \<Rightarrow> 'f \<times> ('a boot_scheme, unit) presult" where
  "efi_main BS img alive p a f s =
     (let f = InitializeLib BS f;
          f = Print BS (''NEKA UEFI bootloader starting...'' @ [CHR 13, nl]) f;
          f = Print BS (''Firmware already in long mode -- no manual boot64.s dance needed.'' @ [CHR 13, nl]) f;
          a = a\<lparr>MapSize := 0\<rparr>;
          MemoryMap = 0;
          (a, f, m) = GetMemoryMap BS a MemoryMap f (mem s);
          a = a\<lparr>MapSize := MapSize a + DescriptorSize a * 8\<rparr>;
          (MemoryMap, f, m) = AllocatePool BS (MapSize a) MemoryMap f m;
          (a, f, m) = GetMemoryMap BS a MemoryMap f m;
          f = Print BS (''Exiting UEFI boot services...'' @ [CHR 13, nl]) f;
          f = ExitBootServices BS (MapKey a) f;
          s = s\<lparr>mem := m\<rparr>
      in (f, Option.bind (memmap_parse_uefi MemoryMap (MapSize a) (DescriptorSize a) s) (\<lambda>s. kernel_main64 img alive p 0 s)))"

section \<open>Properties\<close>

text \<open>
  The second phase of the protocol, with a firmware that follows it: the buffer holds the map of \<open>n\<close>
  descriptors of size \<open>d\<close>, \<open>d\<close> not 0.
\<close>

definition map_delivered :: "efi_map_args \<Rightarrow> nat \<Rightarrow> bool" where
  "map_delivered a n \<longleftrightarrow> DescriptorSize a \<noteq> 0 \<and> unat (MapSize a) = n * unat (DescriptorSize a) \<and>
     (n + 1) * unat (DescriptorSize a) < 2 ^ 64"

text \<open>C39. The UEFI entry asks for the map twice, the second time with room for eight descriptors more than the firmware
  reported, and starts the kernel, without a multiboot structure, on the memory the firmware left, with a region table of exactly the
  conventional memory of the map that the second call delivered (its first 64 entries). It does so whether or not the
  boot services were left: they are still in use when the key of that map is no longer the firmware's.\<close>

theorem efi_main_hands_over_map:
  assumes "regions s = []"
    and "f0 = Print BS (''Firmware already in long mode -- no manual boot64.s dance needed.'' @ [CHR 13, nl])
               (Print BS (''NEKA UEFI bootloader starting...'' @ [CHR 13, nl]) (InitializeLib BS f))"
    and "GetMemoryMap BS (a\<lparr>MapSize := 0\<rparr>) 0 f0 (mem s) = (a1, f1, m1)"
    and "AllocatePool BS (MapSize a1 + 8 * DescriptorSize a1) 0 f1 m1 = (buf, f2, m2)"
    and "GetMemoryMap BS (a1\<lparr>MapSize := MapSize a1 + 8 * DescriptorSize a1\<rparr>) buf f2 m2 = (a2, f3, m3)" "map_delivered a2 n"
    and "\<And>k f. exited (ExitBootServices BS k f) = (k = map_key f)"
    and "r = efi_main BS img alive p a f s"
  shows "snd r = kernel_main64 img alive p 0
       (s\<lparr>mem := m3, regions := take MAX_REGIONS (efi_regions m3 buf (unat (DescriptorSize a2)) n)\<rparr>) \<and>
     (exited (fst r) \<longleftrightarrow> MapKey a2 = map_key (Print BS (''Exiting UEFI boot services...'' @ [CHR 13, nl]) f3))"
proof -
  let ?s = "s\<lparr>mem := m3\<rparr>"
  have d: "unat (MapSize a2) = n * unat (DescriptorSize a2)" "n * unat (DescriptorSize a2) + unat (DescriptorSize a2) < 2 ^ 64"
    "DescriptorSize a2 \<noteq> 0" using assms(6) by (simp_all add: map_delivered_def)
  have "memmap_parse_uefi buf (MapSize a2) (DescriptorSize a2) ?s =
      Some (?s\<lparr>regions := take MAX_REGIONS (efi_regions (mem ?s) buf (unat (DescriptorSize a2)) n)\<rparr>)"
    using uefi_loop_entries [of "MapSize a2" n "DescriptorSize a2" 0 0 ?s buf] d assms(1)
    by (simp add: memmap_parse_uefi_def efi_regions_def unat_gt_0)
  then show ?thesis
    unfolding assms(8) using assms(2-5) by (simp add: efi_main_def Let_def assms(7) mult.commute [of _ 8])
qed

text \<open>A firmware with one megabyte of conventional memory; its state says whether the boot services were left.\<close>

definition demo_map :: "memory \<Rightarrow> memory" where
  "demo_map m = write64 (write64 (write32 m 0x9000 EFI_CONVENTIONAL_MEMORY) 0x9008 0x400000) 0x9018 256"

definition demo_efi :: "bool efi_services" where
  "demo_efi = \<lparr>InitializeLib = id, Print = (\<lambda>_ f. f),
     GetMemoryMap = (\<lambda>a buf f m. if MapSize a < 48 then (a\<lparr>MapSize := 48, DescriptorSize := 48\<rparr>, f, m)
       else (\<lparr>MapSize = 48, MapKey = 7, DescriptorSize = 48\<rparr>, f, demo_map m)),
     AllocatePool = (\<lambda>_ _ f m. (0x9000, f, m)), ExitBootServices = (\<lambda>k f. k = 7)\<rparr>"

theorem efi_main_hands_over_map_witness:
  "\<exists>(img :: image) alive. efi_main demo_efi img alive 0 \<lparr>MapSize = 1, MapKey = 2, DescriptorSize = 3\<rparr> False (demo_boot\<lparr>regions := []\<rparr>) =
     (True, kernel_main64 img alive 0 0
       (demo_boot\<lparr>mem := demo_map (mem demo_boot), regions := [\<lparr>rbase = 0x400000, rlength = 0x100000\<rparr>]\<rparr>))"
proof -
  have r: "efi_regions (demo_map (mem demo_boot)) 0x9000 48 (Suc 0) = [\<lparr>rbase = 0x400000, rlength = 0x100000\<rparr>]"
    by (simp add: efi_regions_def efi_region_def demo_map_def mem_simps)
  have "efi_main demo_efi img alive 0 \<lparr>MapSize = 1, MapKey = 2, DescriptorSize = 3\<rparr> False (demo_boot\<lparr>regions := []\<rparr>) =
     (True, kernel_main64 img alive 0 0
       (demo_boot\<lparr>mem := demo_map (mem demo_boot), regions := [\<lparr>rbase = 0x400000, rlength = 0x100000\<rparr>]\<rparr>))" for img alive
    using efi_main_hands_over_map [of "demo_boot\<lparr>regions := []\<rparr>" False demo_efi False "\<lparr>MapSize = 1, MapKey = 2, DescriptorSize = 3\<rparr>"
        "\<lparr>MapSize = 48, MapKey = 2, DescriptorSize = 48\<rparr>" False "mem demo_boot" "0x9000" False "mem demo_boot"
        "\<lparr>MapSize = 48, MapKey = 7, DescriptorSize = 48\<rparr>" False "demo_map (mem demo_boot)" 1 id "\<lambda>_. 7"
        "efi_main demo_efi img alive 0 \<lparr>MapSize = 1, MapKey = 2, DescriptorSize = 3\<rparr> False (demo_boot\<lparr>regions := []\<rparr>)" img alive 0]
    by (simp add: demo_efi_def map_delivered_def r prod_eq_iff)
  then show ?thesis by blast
qed

end
