(* ===== verification/Boot_Stages.thy ===== *)
theory Boot_Stages
  imports Boot_Threads
begin

text \<open>
  The stages of the boot sequence up to the heap, each as a lemma that gives the state it ends in and what it left of the machine: the
  page tables from the pool, the devices the firmware's tables name, the memory map and the heap. \<open>soft\<close> (theory \<open>Boot_Props\<close>) is the part of
  the state that printing and device registers leave alone.
\<close>

section \<open>Devices, registers and the screen\<close>

lemma print_soft [simp]: "soft (kprint t s) = soft s" "soft (kprint_hex64 v s) = soft s"
  using kprint_frame [of t s] kprint_hex64_frame [of v s] by (auto simp: soft_def)

lemma device_soft [simp]:
  "soft (mmio_write q a w s) = soft s" "soft (uart_out b x s) = soft s" "soft (snd (inb_61 s)) = soft s" "soft (pit_wait s) = soft s"
  "soft (port61_update f s) = soft s" "soft (pit_busy_update g s) = soft s" "soft (apic_base_msr_update h s) = soft s"
  using mmio_write_frame [of q a w s] by (auto simp: soft_def uart_out_def inb_61_def pit_wait_eq)

lemma register_soft [simp]:
  "soft (fpu_init p s) = soft s" "soft (idt_init p isr s) = soft s" "soft (sti p s) = soft s" "soft (disable_legacy_pic s) = soft s"
  by (simp_all add: soft_def fpu_init_def Let_def idt_init_eq sti_def disable_legacy_pic_def uart_out_def)

lemma register_pview [simp]:
  "pview (fpu_init p s) = pview s" "pview (idt_init p isr s) = pview s" "pview (disable_legacy_pic s) = pview s"
  "pview (apic_base_msr_update h s) = pview s"
  by (simp_all add: pview_def fpu_init_def Let_def idt_init_eq disable_legacy_pic_def uart_out_def frames_avail_def alloc_ok_def
      memmap_ok_def free_frames_def)

lemma terminal64_init_frame: "\<exists>u v. terminal64_init s = s\<lparr>uart_log := u, vga := v, term_row := 0, term_col := 0\<rparr>"
  by (simp add: terminal64_init_def fold_vga2 Let_def serial_init_def uart_out_def) blast

lemma terminal64_init_soft [simp]: "soft (terminal64_init s) = soft s" "pview (terminal64_init s) = pview s"
  using terminal64_init_frame [of s] by (auto simp: soft_def pview_def)

lemma gdt_init_ok:
  fixes s :: "'a boot_scheme"
  obtains s' where "gdt_init p s = Some s'" "soft s' = soft s" "pview s' = pview s"
proof -
  obtain g gp gr d c where s1: "gdt_init p s = gdt_setup_cpu_tss p (int 0) (s\<lparr>gdt := g, gdt_ptr := gp, gdtr := gr, ds_reg := d, cs_reg := c\<rparr>)"
    by (auto simp: gdt_init_def Let_def)
  obtain u where u: "gdt_setup_cpu_tss p (int 0) (s\<lparr>gdt := g, gdt_ptr := gp, gdtr := gr, ds_reg := d, cs_reg := c\<rparr>) = Some u"
    by (rule gdt_setup_ok [of 0 p]) simp_all
  obtain X G T where "u = s\<lparr>gdt := g, gdt_ptr := gp, gdtr := gr, ds_reg := d, cs_reg := c\<rparr>\<lparr>tss := X, gdt := G, task_reg := T\<rparr>"
    using gdt_setup_shape [OF u] by blast
  then have "soft u = soft s" "pview u = pview s"
    by (simp_all add: soft_def pview_def frames_avail_def alloc_ok_def memmap_ok_def free_frames_def)
  then show ?thesis using that s1 u by simp
qed

section \<open>Page tables from the pool\<close>

definition pool :: "'a paging_scheme \<Rightarrow> u64 set" where
  "pool s = (\<lambda>i. of_nat (frame_pool s + 4096 * i)) ` {..<POOL_FRAMES}"

lemma strip_soft: "strip s' = strip s \<Longrightarrow> soft s' = soft s"
proof -
  assume "strip s' = strip s"
  then have "soft (strip s') = soft (strip s)" by simp
  then show ?thesis by (simp add: soft_def strip_def)
qed

lemma boot_tables:
  fixes s :: "'a boot_scheme"
  assumes "\<not> map_active s" "next_frame s = 0" "4096 dvd frame_pool s" "frame_pool s + POOL_FRAMES * 4096 \<le> 2 ^ 52"
  obtains s' where "paging_init_kernel_map p s = Some (Inr ((), s'))" "mmio_within s' 61 (pool s)"
    "soft s' = soft (s\<lparr>kernel_pml4 := kernel_pml4 s', kernel_pdpt := kernel_pdpt s'\<rparr>)" "kernel_pml4 s' \<in> pool s" "kernel_pdpt s' \<in> pool s"
    "only_frames (pool s) (mem s) (mem s')" "\<not> bit (entry (mem s') (kernel_pdpt s') 1) 0"
proof -
  have fr: "fresh s {}" by (rule pool_fresh) (use assms in auto)
  note f = freshD [OF fr]
  have len: "length (pf.frames s) = 64" using assms(1,2) by (simp add: pf.frames_def frames_avail_def)
  have sub: "set (pf.frames s) \<subseteq> pool s" using assms(1,2) by (auto simp: pf.frames_def frames_avail_def pool_def)
  have "3 \<le> length (pf.frames s)" using len by simp
  then obtain k4 k3 kd ts where fs: "pf.frames s = k4 # k3 # kd # ts" by (rule list3E)
  have tabs: "table k4" "table k3" "table kd" "distinct [k4, k3, kd]" using f(2,3) by (auto simp: fs)
  obtain s' where s': "paging_init_kernel_map p s = Some (Inr ((), s'))" "kernel_pml4 s' = k4" "kernel_pdpt s' = k3"
      "alloc_ok s'" "pf.frames s' = ts" "kernel_map (mem s') k4 k3 kd"
      "\<And>i. 0 < i \<Longrightarrow> i < 512 \<Longrightarrow> entry (mem s') k4 i = 0 \<and> entry (mem s') k3 i = 0"
      "strip s' = strip (s\<lparr>kernel_pml4 := k4, kernel_pdpt := k3, cr3 := (cr3 s)(p := k4)\<rparr>)"
      "\<And>x. (\<forall>t \<in> {k4, k3, kd}. x < unat t \<or> unat t + 4096 \<le> x) \<Longrightarrow> mem s' x = mem s x"
    by (rule init_kernel_map_ok [OF f(1) fs tabs, of p]) blast
  have ran: "ran [0 :: nat \<mapsto> kd] = {kd}" by simp
  have tree: "kernel_tree (mem s') k4 k3 [0 \<mapsto> kd]" by (rule kernel_map_tree) (use s'(6,7) in simp_all)
  have "fresh s' ({k4, k3} \<union> ran [0 :: nat \<mapsto> kd])"
    using s'(4,5) f(2,3) unfolding fresh_def ran pf.frames_def [symmetric] image_set by (auto simp: fs)
  moreover have "61 \<le> length (frames_avail s')" using arg_cong [OF s'(5), of length] len [unfolded fs] by (simp add: pf.frames_def)
  ultimately have within: "mmio_within s' 61 (pool s)"
    using tree sub unfolding mmio_within_def s'(2,3,5) by (intro conjI exI [of _ "[0 \<mapsto> kd]"]) (auto simp: fs)
  have soft: "soft s' = soft (s\<lparr>kernel_pml4 := kernel_pml4 s', kernel_pdpt := kernel_pdpt s'\<rparr>)"
    using strip_soft [OF s'(8)] by (simp add: s'(2,3) soft_def)
  have "only_frames (pool s) (mem s) (mem s')" using s'(9) sub by (auto simp: only_frames_def fs)
  moreover have "\<not> bit (entry (mem s') k3 1) 0" using s'(7) [of 1] by simp
  ultimately show ?thesis using that [OF s'(1) within soft] sub s'(2,3) by (simp add: fs)
qed

section \<open>Starting the devices\<close>

lemma soft_within:
  fixes s s' :: "'a boot_scheme"
  assumes "mmio_within s n F" "pview s' = pview s" "soft s' = soft s"
  shows "mmio_within s' n F"
  by (rule mmio_within_cong [OF assms(1)]) (use assms(2,3) in \<open>simp_all add: pview_def soft_def\<close>)

text \<open>A step that changes device registers and maps pages with the frames in \<open>F\<close>; the second gigabyte stays as it is.\<close>

definition dev_step :: "u64 set \<Rightarrow> 'a boot_scheme \<Rightarrow> 'a boot_scheme \<Rightarrow> bool" where
  "dev_step F s s' \<longleftrightarrow> soft s' = soft s \<and> only_frames F (mem s) (mem s') \<and>
     bit (entry (mem s') (kernel_pdpt s) 1) 0 = bit (entry (mem s) (kernel_pdpt s) 1) 0"

lemma dev_step_views: "soft s' = soft s \<Longrightarrow> pview s' = pview s \<Longrightarrow> dev_step F s s'"
  by (simp add: dev_step_def pview_def only_frames_def)

lemma dev_step_trans: "dev_step F s s' \<Longrightarrow> dev_step F s' s'' \<Longrightarrow> dev_step F s s''"
  by (auto simp: dev_step_def only_frames_def soft_def)

text \<open>A device the kernel may map: on a 2 MB boundary, not in the second gigabyte.\<close>

definition mappable :: "u64 \<Rightarrow> bool" where
  "mappable pa \<longleftrightarrow> 2097152 dvd unat pa \<and> unat pa < 0x8000000000 \<and> va_index 30 pa \<noteq> 1"

lemma map_device:
  fixes s :: "'a boot_scheme"
  assumes "mmio_within s (Suc n) F" "mappable pa"
  obtains s' where "paging_map_mmio_2mb pa s = Some (Inr ((), s'))" "mmio_within s' n F" "dev_step F s s'"
proof -
  have pa: "2097152 dvd unat pa" "unat pa < 0x8000000000" "1 \<noteq> va_index 30 pa" using assms(2) by (auto simp: mappable_def)
  obtain s' where s': "paging_map_mmio_2mb pa s = Some (Inr ((), s'))" "strip s' = strip s" "mmio_within s' n F"
      "only_frames F (mem s) (mem s')"
      "\<And>i. i < 512 \<Longrightarrow> i \<noteq> va_index 30 pa \<Longrightarrow> bit (entry (mem s') (kernel_pdpt s) i) 0 = bit (entry (mem s) (kernel_pdpt s) i) 0"
    by (rule map_mmio_within [OF assms(1) pa(1,2)]) blast
  show ?thesis using that [OF s'(1,3)] strip_soft [OF s'(2)] s'(4) s'(5) [of 1] pa(3) by (simp add: dev_step_def)
qed

lemma lapic_enable_step:
  fixes s :: "'a boot_scheme"
  assumes "mmio_within s (Suc n) F" "mappable (lapic_base_pa s)"
  obtains s' where "lapic_enable p s = Some (Inr ((), s'))" "mmio_within s' n F" "dev_step F s s'"
proof -
  obtain s1 where 1: "paging_map_mmio_2mb (lapic_base_pa s) s = Some (Inr ((), s1))" "mmio_within s1 n F" "dev_step F s s1"
    by (rule map_device [OF assms])
  let ?s2 = "s1\<lparr>apic_base_msr := (apic_base_msr s1)(p := apic_base_msr s1 p OR push_bit 11 1)\<rparr>"
  define u where "u = mmio_write p (lapic_base_pa ?s2 + LAPIC_SPURIOUS) 0x1FF ?s2"
  have run: "lapic_enable p s = Some (Inr ((), u))" by (simp add: lapic_enable_def 1(1) Let_def lapic_write_def u_def)
  have v: "soft u = soft s1" "pview u = pview s1" unfolding u_def dev_pview device_soft register_pview by (rule refl)+
  show ?thesis
    by (rule that [OF run soft_within [OF 1(2) v(2,1)] dev_step_trans [OF 1(3) dev_step_views [OF v]]])
qed

lemma ioapic_write_step:
  fixes s :: "'a boot_scheme"
  assumes "mmio_within s (Suc n) F" "mappable (ioapic_base_pa s)"
  obtains s' where "ioapic_write p reg v s = Some (Inr ((), s'))" "mmio_within s' n F" "dev_step F s s'"
proof -
  obtain s1 where 1: "paging_map_mmio_2mb (ioapic_base_pa s) s = Some (Inr ((), s1))" "mmio_within s1 n F" "dev_step F s s1"
    by (rule map_device [OF assms])
  define u where "u = mmio_write p (ioapic_base_pa s1 + 0x10) v (mmio_write p (ioapic_base_pa s1) (ucast reg) s1)"
  have run: "ioapic_write p reg v s = Some (Inr ((), u))" by (simp add: ioapic_write_def 1(1) Let_def u_def)
  have v: "soft u = soft s1" "pview u = pview s1" unfolding u_def dev_pview device_soft by (rule refl)+
  show ?thesis
    by (rule that [OF run soft_within [OF 1(2) v(2,1)] dev_step_trans [OF 1(3) dev_step_views [OF v]]])
qed

lemma timer_step:
  fixes s :: "'a boot_scheme"
  obtains s' where "apic_timer_init p 32 100 s = Some s'" "soft s' = soft s" "pview s' = pview s"
proof -
  have "\<exists>s'. apic_timer_init p 32 100 s = Some s' \<and> soft s' = soft s \<and> pview s' = pview s"
    unfolding apic_timer_init_def lapic_calibrate_ticks_def Let_def case_prod_unfold lapic_write_def
    by (simp add: dev_pview)
  then show ?thesis using that by blast
qed

text \<open>The tables a search of the firmware's memory finds, with the interrupt controller table's contents.\<close>

definition acpi_tables :: "memory \<Rightarrow> u32 \<Rightarrow> u8 list list \<Rightarrow> bool" where
  "acpi_tables m lapic es \<longleftrightarrow> (\<exists>ts a. tables_at m (rsdp_in m) ts \<and> List.find (\<lambda>t. signature_at m t ''APIC'') ts = Some a \<and>
     madt_at m a lapic es)"

lemma acpi_tables_walks:
  assumes "acpi_tables (mem s) lapic es" "g_rsdp s = rsdp_in (mem s)"
  shows "\<exists>u. acpi_find_cpus max_cpus s = Some (take max_cpus (enabled_cpus es), u)"
    "acpi_find_apic_bases l i s = Some (first_ioapic es \<noteq> 0, ucast lapic, first_ioapic es)"
proof -
  obtain ts a where t: "tables_at (mem s) (g_rsdp s) ts" "List.find (\<lambda>t. signature_at (mem s) t ''APIC'') ts = Some a"
      "madt_at (mem s) a lapic es" using assms by (auto simp: acpi_tables_def)
  show "\<exists>u. acpi_find_cpus max_cpus s = Some (take max_cpus (enabled_cpus es), u)"
    "acpi_find_apic_bases l i s = Some (first_ioapic es \<noteq> 0, ucast lapic, first_ioapic es)"
    using madt_walks [OF t] by blast+
qed

lemma find_rsdp_step:
  fixes s :: "'a boot_scheme"
  assumes "g_rsdp s = 0"
  shows "soft (acpi_find_rsdp_bios s) = soft (s\<lparr>g_rsdp := rsdp_in (mem s)\<rparr>)" "pview (acpi_find_rsdp_bios s) = pview s"
proof -
  let ?w = "''[acpi] WARNING: RSDP not found via BIOS scan'' @ [nl]"
  define r where "r = g_rsdp (acpi_find_rsdp_bios s)"
  define u where "u = s\<lparr>g_rsdp := r\<rparr>"
  have same: "s\<lparr>g_rsdp := 0\<rparr> = s" using assms by simp
  have pr: "g_rsdp (kprint t v) = g_rsdp v" for t and v :: "'a boot_scheme" using kprint_frame [of t v] by auto
  have f: "acpi_find_rsdp_bios s = u \<or> acpi_find_rsdp_bios s = kprint ?w u"
    using assms unfolding u_def r_def by (simp add: acpi_find_rsdp_bios_def Let_def pr same)
  have ur: "u = s\<lparr>g_rsdp := rsdp_in (mem s)\<rparr>" by (simp only: u_def r_def find_rsdp_first [OF assms])
  show "soft (acpi_find_rsdp_bios s) = soft (s\<lparr>g_rsdp := rsdp_in (mem s)\<rparr>)" using f by (auto simp: ur [symmetric])
  have "pview u = pview s" by (simp add: u_def pview_def frames_avail_def alloc_ok_def memmap_ok_def free_frames_def)
  then show "pview (acpi_find_rsdp_bios s) = pview s" using f by (auto simp: dev_pview)
qed

lemma acpi_bases_step:
  fixes s :: "'a boot_scheme"
  assumes "acpi_tables (mem s) lapic es" "g_rsdp s = rsdp_in (mem s)" "first_ioapic es \<noteq> 0"
  obtains s' where "apic_apply_acpi_bases s = Some s'" "soft s' = soft (s\<lparr>lapic_base_pa := ucast lapic, ioapic_base_pa := first_ioapic es\<rparr>)"
    "pview s' = pview s"
proof -
  let ?u = "s\<lparr>lapic_base_pa := ucast lapic, ioapic_base_pa := first_ioapic es\<rparr>"
  have "apic_apply_acpi_bases s = Some (kprint (''[apic] using ACPI-discovered LAPIC/IOAPIC addresses'' @ [nl]) ?u)"
    using assms(3) by (simp add: apic_apply_acpi_bases_def acpi_tables_walks(2) [OF assms(1,2)])
  moreover have "pview ?u = pview s" by (simp add: pview_def frames_avail_def alloc_ok_def memmap_ok_def free_frames_def)
  ultimately show ?thesis using that by (simp add: dev_pview)
qed

lemma start_devices_ok:
  fixes s :: "'a boot_scheme"
  assumes mm: "mmio_within s (Suc (Suc (Suc n))) F" and z: "g_rsdp s = 0" and cpu: "bit (cpuid1_edx s) 9"
    and fw: "acpi_tables (mem s) lapic es" "first_ioapic es \<noteq> 0" "mappable (ucast lapic)" "mappable (first_ioapic es)"
  defines "v \<equiv> s\<lparr>g_rsdp := rsdp_in (mem s), lapic_base_pa := ucast lapic, ioapic_base_pa := first_ioapic es\<rparr>"
  obtains s' where "start_devices p s = Some (Inr ((), s'))" "mmio_within s' n F" "dev_step F v s'"
proof -
  define s1 where "s1 = acpi_find_rsdp_bios s"
  have s1: "soft s1 = soft (s\<lparr>g_rsdp := rsdp_in (mem s)\<rparr>)" "pview s1 = pview s" unfolding s1_def by (rule find_rsdp_step [OF z])+
  have m1: "mem s1 = mem s" "g_rsdp s1 = rsdp_in (mem s1)" "cpuid1_edx s1 = cpuid1_edx s"
    using s1 by (simp_all add: pview_def soft_def)
  obtain s2 where s2: "apic_apply_acpi_bases s1 = Some s2"
      "soft s2 = soft (s1\<lparr>lapic_base_pa := ucast lapic, ioapic_base_pa := first_ioapic es\<rparr>)" "pview s2 = pview s1"
    by (rule acpi_bases_step [of s1 lapic es]) (use fw m1 in simp_all)
  define s3 where "s3 = disable_legacy_pic s2"
  have v3: "soft s3 = soft v" using s1(1) s2(2) by (simp add: s3_def v_def) (simp add: soft_def)
  have p3: "pview s3 = pview s" "pview v = pview s" using s1(2) s2(3)
    by (simp_all add: s3_def v_def) (simp add: pview_def frames_avail_def alloc_ok_def memmap_ok_def free_frames_def)
  have "mmio_within v (Suc (Suc (Suc n))) F"
    by (rule mmio_within_cong [OF mm]) (use p3(2) in \<open>simp_all add: v_def pview_def\<close>)
  then have mm3: "mmio_within s3 (Suc (Suc (Suc n))) F" by (rule soft_within) (use p3 v3 in simp_all)
  have base: "lapic_base_pa s3 = ucast lapic" "ioapic_base_pa s3 = first_ioapic es" using v3 by (simp_all add: soft_def v_def)
  obtain s4 where s4: "lapic_enable p s3 = Some (Inr ((), s4))" "mmio_within s4 (Suc (Suc n)) F" "dev_step F s3 s4"
    by (rule lapic_enable_step [OF mm3]) (use base fw in simp_all)
  have b4: "ioapic_base_pa s4 = first_ioapic es" using s4(3) base by (simp add: dev_step_def soft_def)
  obtain s5 where s5: "ioapic_write p (0x10 + 1 * 2) (ucast (33 :: u8)) s4 = Some (Inr ((), s5))" "mmio_within s5 (Suc n) F" "dev_step F s4 s5"
    by (rule ioapic_write_step [OF s4(2)]) (use b4 fw in simp_all)
  have b5: "ioapic_base_pa s5 = first_ioapic es" using s5(3) b4 by (simp add: dev_step_def soft_def)
  obtain s6 where s6: "ioapic_write p (0x10 + 1 * 2 + 1) (push_bit 24 (ucast (lapic_get_id p))) s5 = Some (Inr ((), s6))"
      "mmio_within s6 n F" "dev_step F s5 s6"
    by (rule ioapic_write_step [OF s5(2)]) (use b5 fw in simp_all)
  have redirect: "ioapic_set_redirect p 1 33 s4 = Some (Inr ((), s6))"
    unfolding ioapic_set_redirect_def Let_def s5(1) bind_p_simps s6(1) ..
  obtain s7 where s7: "apic_timer_init p 32 100 s6 = Some s7" "soft s7 = soft s6" "pview s7 = pview s6" by (rule timer_step)
  define s' where "s' = kprint (''Legacy PIC disabled, LAPIC+IOAPIC online'' @ [nl]) s7"
  have v': "soft s' = soft s6" "pview s' = pview s6" using s7 by (simp_all add: s'_def dev_pview)
  have run: "start_devices p s = Some (Inr ((), s'))"
    unfolding start_devices_def Let_def s1_def [symmetric]
    using cpu m1(3) s2(1) s4(1) redirect s7(1) by (simp add: apic_check_supported_def s3_def s'_def)
  have "dev_step F v s3" by (rule dev_step_views) (use v3 p3 in simp_all)
  then have "dev_step F v s'" using s4(3) s5(3) s6(3) dev_step_views [OF v'] by (meson dev_step_trans)
  then show ?thesis using that [OF run soft_within [OF s6(2) v'(2,1)]] by blast
qed

section \<open>The memory map and the heap\<close>

definition multiboot_map :: "memory \<Rightarrow> u64 \<Rightarrow> (nat \<times> u64 \<times> u64 \<times> u32) list \<Rightarrow> bool" where
  "multiboot_map m mbi es \<longleftrightarrow> mbi \<noteq> 0 \<and> bit (read32 m (unat mbi)) 6 \<and>
     unat (read32 m (unat mbi + 48)) + unat (read32 m (unat mbi + 44)) < 2 ^ 32 \<and>
     mmap_at m (unat (read32 m (unat mbi + 48))) (unat (read32 m (unat mbi + 48)) + unat (read32 m (unat mbi + 44))) es"

text \<open>RAM as the boot sequence needs it: within the kernel's identity map, with frames for the threads and eight processors.\<close>

definition ram_ok :: "u64 \<Rightarrow> region_t list \<Rightarrow> bool" where
  "ram_ok hi rs \<longleftrightarrow> length rs \<le> MAX_REGIONS \<and> Memmap.apart rs \<and> (\<forall>r \<in> set rs. region_end r \<le> 0x40000000) \<and> 4096 dvd unat hi \<and>
     34 \<le> length (frames_left 0x100000 (unat hi) rs 0 0)"

lemma activate_frame:
  fixes s :: "'a boot_scheme" and lo hi :: u64
  defines "u \<equiv> s\<lparr>reserve_start := lo, reserve_end := hi, cur_region := 0, cur_offset := 0, map_active := True\<rparr>"
  shows "soft (memmap_activate lo hi s) = soft u" "pview (memmap_activate lo hi s) = pview u"
  by (simp_all add: memmap_activate_def Let_def dev_pview u_def)

lemma heap_init_outside:
  "x < heap_arena s \<or> heap_arena s + HEAP_SIZE \<le> x \<Longrightarrow> mem (heap_init s) x = mem s x"
  by (auto simp: heap_init_def Let_def blk_defs mem_simps)

lemma memory_stage:
  fixes s :: "'a boot_scheme" and hi mbi :: u64
  assumes mb: "multiboot_map (mem s) mbi es" "regions s = []" and ram: "ram_ok hi (ram_regions es)"
    and arena: "0 < heap_arena s" "heap_arena s + HEAP_SIZE + 32 < 2 ^ 64"
    and U: "\<forall>t \<in> U. 0x100000 \<le> unat t \<and> unat t < unat hi"
  defines "t \<equiv> heap_init (memmap_activate 0x100000 hi (memmap_parse_multiboot mbi s))"
  shows "heap_ok t block0" "soft t = soft (s\<lparr>regions := ram_regions es, map_active := True, heap_list := heap_list t\<rparr>)"
    "frames_avail t = frames_left 0x100000 (unat hi) (ram_regions es) 0 0" "fresh t U"
    "\<And>x. x < heap_arena s \<or> heap_arena s + HEAP_SIZE \<le> x \<Longrightarrow> mem t x = mem s x"
proof -
  define s1 where "s1 = s\<lparr>regions := ram_regions es\<rparr>"
  have len: "length (ram_regions es) \<le> MAX_REGIONS" using ram by (simp add: ram_ok_def)
  have s1: "memmap_parse_multiboot mbi s = s1"
    using parse_multiboot_ok [of mbi s es] mb len unfolding multiboot_map_def by (simp add: s1_def)
  define u where "u = s1\<lparr>reserve_start := 0x100000, reserve_end := hi, cur_region := 0, cur_offset := 0, map_active := True\<rparr>"
  define s2 where "s2 = memmap_activate 0x100000 hi s1"
  have s2: "soft s2 = soft u" "pview s2 = pview u" unfolding s2_def u_def by (rule activate_frame)+
  have t: "t = heap_init s2" by (simp add: t_def s1 s2_def)
  have ar: "heap_arena s2 = heap_arena s" using s2(1) by (simp add: soft_def u_def s1_def)
  show "heap_ok t block0" unfolding t by (rule heap_init_ok) (use arena ar in simp_all)
  have soft: "soft t = soft (s2\<lparr>heap_list := heap_list t\<rparr>)" unfolding t by (simp add: soft_def heap_init_def Let_def)
  then show "soft t = soft (s\<lparr>regions := ram_regions es, map_active := True, heap_list := heap_list t\<rparr>)"
    using s2(1) by (simp add: soft_def u_def s1_def)
  have av: "frames_avail t = frames_avail s2" "alloc_ok t = alloc_ok s2"
    unfolding t by (simp_all add: heap_init_def Let_def frames_avail_def alloc_ok_def free_frames_def memmap_ok_def)
  have fu: "frames_avail s2 = frames_avail u" "alloc_ok s2 = alloc_ok u" using s2(2) by (simp_all add: pview_def)
  then show "frames_avail t = frames_left 0x100000 (unat hi) (ram_regions es) 0 0"
    using av by (simp add: frames_avail_def free_frames_def u_def s1_def)
  have "unat (rbase r) + 4095 < 2 ^ 64" if "r \<in> set (ram_regions es)" for r
    using ram that by (force simp: ram_ok_def)
  then have fp: "first_page r < 2 ^ 64" if "r \<in> set (ram_regions es)" for r
    using that div_times_less_eq_dividend [of "unat (rbase r) + 4095" 4096] le_less_trans by blast
  have ok: "memmap_ok u" using ram fp by (force simp: memmap_ok_def u_def s1_def ram_ok_def region_ok_def cursor_ok_def)
  have "fresh u U"
    by (rule active_fresh) (use ok ram U in \<open>fastforce simp: u_def s1_def ram_ok_def\<close>)+
  then show "fresh t U" by (simp add: fresh_def av fu)
  have "mem s2 = mem s" using s2(2) by (simp add: pview_def u_def s1_def)
  then show "mem t x = mem s x" if "x < heap_arena s \<or> heap_arena s + HEAP_SIZE \<le> x" for x
    unfolding t using heap_init_outside [of x s2] that ar by simp
qed

end
