(* ===== verification/Boot_Main.thy ===== *)
theory Boot_Main
  imports Boot_Stages
begin

text \<open>
  The boot sequence as a whole: \<open>kernel_main64\<close> from the state the boot loader leaves to the first thread, composed of the
  stages of theories \<open>Boot_Stages\<close>, \<open>Boot_Threads\<close> and \<open>Smp_Props\<close>, and a machine on which it runs.
\<close>

section \<open>Where the kernel's data lies\<close>

text \<open>The frame pool, the heap's arena and the threads' stacks are parts of the image, which lies in the kernel's identity map.\<close>

definition layout :: "u64 \<Rightarrow> 'a boot_scheme \<Rightarrow> bool" where
  "layout hi s \<longleftrightarrow> unat hi \<le> 0x40000000 \<and> 4096 dvd frame_pool s \<and> gdt_ptr_addr s < 2 ^ 32 \<and>
     (\<forall>(a, n) \<in> {(frame_pool s, 262144), (heap_arena s, HEAP_SIZE), (threads64_addr s, 131840)}. 0x100000 \<le> a \<and> a + n \<le> unat hi) \<and>
     (frame_pool s + 262144 \<le> heap_arena s \<or> heap_arena s + HEAP_SIZE \<le> frame_pool s) \<and>
     (frame_pool s + 262144 \<le> threads64_addr s \<or> threads64_addr s + 131840 \<le> frame_pool s) \<and>
     (heap_arena s + HEAP_SIZE \<le> threads64_addr s \<or> threads64_addr s + 131840 \<le> heap_arena s)"

lemma layout_soft:
  "layout hi s \<Longrightarrow> frame_pool t = frame_pool s \<Longrightarrow> heap_arena t = heap_arena s \<Longrightarrow> threads64_addr t = threads64_addr s \<Longrightarrow>
    gdt_ptr_addr t = gdt_ptr_addr s \<Longrightarrow> layout hi t"
  by (simp add: layout_def)

lemma pool_table:
  assumes "layout hi s" "t \<in> pool s"
  shows "table t" "frame_pool s \<le> unat t" "unat t + 4096 \<le> frame_pool s + 262144" "0x100000 \<le> unat t" "unat t < unat hi"
    "unat t + 4096 \<le> heap_arena s \<or> heap_arena s + HEAP_SIZE \<le> unat t"
    "i < 16 \<Longrightarrow> stack_top64 s i \<le> unat t \<or> unat t + 4096 \<le> stack_top64 s i - 80"
proof -
  obtain i where i: "t = of_nat (frame_pool s + 4096 * i)" "i < 64" using assms(2) by (auto simp: pool_def)
  have l: "frame_pool s + 262144 \<le> unat hi" "unat hi \<le> 0x40000000" "4096 dvd frame_pool s" "0x100000 \<le> frame_pool s"
    using assms(1) by (simp_all add: layout_def)
  have u: "unat t = frame_pool s + 4096 * i" unfolding i(1) by (rule unat_of_nat_small) (use l i(2) in linarith)
  show t: "frame_pool s \<le> unat t" "unat t + 4096 \<le> frame_pool s + 262144" using u i(2) by simp_all
  show "table t" using u l i(2) by (simp add: table_def)
  show "0x100000 \<le> unat t" "unat t < unat hi" using t l by simp_all
  show "unat t + 4096 \<le> heap_arena s \<or> heap_arena s + HEAP_SIZE \<le> unat t" using assms(1) t by (auto simp: layout_def)
  show "i < 16 \<Longrightarrow> stack_top64 s i \<le> unat t \<or> unat t + 4096 \<le> stack_top64 s i - 80" for i
    using assms(1) t by (auto simp: layout_def stack_top64_def)
qed

text \<open>Memory the kernel may write: its image and the frames of RAM it can hand out.\<close>

definition own_memory :: "u64 \<Rightarrow> region_t list \<Rightarrow> nat \<Rightarrow> bool" where
  "own_memory hi rs x \<longleftrightarrow> 0x100000 \<le> x \<and> x < unat hi \<or> (\<exists>f \<in> set (frames_left 0x100000 (unat hi) rs 0 0). f \<le> x \<and> x < f + 4096)"

text \<open>What the firmware and the boot loader tell the kernel, as long as the kernel writes to its own memory only.\<close>

definition firmware_tells :: "u64 \<Rightarrow> memory \<Rightarrow> u64 \<Rightarrow> (nat \<times> u64 \<times> u64 \<times> u32) list \<Rightarrow> u32 \<Rightarrow> u8 list list \<Rightarrow> bool" where
  "firmware_tells hi m mbi mm lapic es \<longleftrightarrow> (\<forall>m'. (\<forall>x. \<not> own_memory hi (ram_regions mm) x \<longrightarrow> m' x = m x) \<longrightarrow>
     multiboot_map m' mbi mm \<and> rsdp_in m' = rsdp_in m \<and> acpi_tables m' lapic es)"

text \<open>The rest of the machine when \<open>kernel_main64\<close> is entered on processor \<open>p\<close>.\<close>

definition cold :: "nat \<Rightarrow> 'a boot_scheme \<Rightarrow> bool" where
  "cold p s \<longleftrightarrow> quiet p s \<and> \<not> map_active s \<and> next_frame s = 0 \<and> regions s = [] \<and> g_rsdp s = 0 \<and> bit (cpuid1_edx s) 9"

section \<open>Up to the heap\<close>

definition boot_tail :: "image \<Rightarrow> (u8 \<Rightarrow> bool) \<Rightarrow> nat \<Rightarrow> 'a boot_scheme \<Rightarrow> ('a boot_scheme, unit) presult" where
  "boot_tail img alive p s =
     bind_p (create_threads img s) (\<lambda>_ s.
     bind_p (smp_start_aps p alive (ap_blob img) (ap_entry64_addr img) s) (\<lambda>aps_started s.
       let s = kprint ''[smp] Application Processors started: '' s;
           s = kprint_hex64 (of_nat aps_started) s;
           s = kprint [nl] s;
           s = kprint (''Enabling interrupts -- preemption starts now.'' @ [nl, nl]) s;
           s = sti p s
       in Some (Inr ((), sched64_reschedule p s))))"

text \<open>The page tables, the frames and the heap when the threads are created.\<close>

definition boot_state :: "nat \<Rightarrow> u64 \<Rightarrow> region_t list \<Rightarrow> u64 \<Rightarrow> memory \<Rightarrow> 'a boot_scheme \<Rightarrow> bool" where
  "boot_state p hi rs lapic m s \<longleftrightarrow> layout hi s \<and> quiet p s \<and> heap_ok s block0 \<and> fresh s (pool s) \<and>
     frames_avail s = frames_left 0x100000 (unat hi) rs 0 0 \<and> lapic_base_pa s = lapic \<and> g_rsdp s = rsdp_in m \<and>
     \<not> bit (entry (mem s) (kernel_pdpt s) 1) 0 \<and> (\<forall>x. \<not> own_memory hi rs x \<longrightarrow> mem s x = m x) \<and>
     (\<exists>P. kernel_tree (mem s) (kernel_pml4 s) (kernel_pdpt s) P \<and> {kernel_pml4 s, kernel_pdpt s} \<union> ran P \<subseteq> pool s)"

definition boot_rest :: "image \<Rightarrow> (u8 \<Rightarrow> bool) \<Rightarrow> nat \<Rightarrow> u64 \<Rightarrow> 'a boot_scheme \<Rightarrow> ('a boot_scheme, unit) presult" where
  "boot_rest img alive p mbi s =
     bind_p (heap_self_test p (heap_init (memmap_activate 0x100000 (kernel_end img) (memmap_parse_multiboot mbi s)))) (\<lambda>_. boot_tail img alive p)"

lemma only_pool_own:
  assumes "layout hi s" "only_frames (pool s) m m'" "\<not> own_memory hi rs x"
  shows "m' x = m x"
proof -
  have "x < unat t \<or> unat t + 4096 \<le> x" if "t \<in> pool s" for t
    using pool_table(2,3) [OF assms(1) that] assms(1,3) by (auto simp: own_memory_def layout_def)
  then show ?thesis using assms(2) by (simp add: only_frames_def)
qed

lemma boot_early:
  fixes s :: "'a boot_scheme"
  assumes cold: "cold p s" and lay: "layout hi s"
  obtains u where "kernel_main64 img alive p mbi s = bind_p (start_devices p u) (\<lambda>_. boot_rest img alive p mbi)" "mmio_within u 61 (pool s)"
    "soft u = soft (s\<lparr>kernel_pml4 := kernel_pml4 u, kernel_pdpt := kernel_pdpt u\<rparr>)"
    "only_frames (pool s) (mem s) (mem u)" "\<not> bit (entry (mem u) (kernel_pdpt u) 1) 0"
proof -
  define s0 where "s0 = fpu_init p s"
  have v0: "soft s0 = soft s" "pview s0 = pview s" by (simp_all add: s0_def)
  have f0: "frame_pool s0 = frame_pool s" "\<not> map_active s0" "mem s0 = mem s" "pool s0 = pool s" "next_frame s0 = 0"
    using v0 cold by (simp_all add: soft_def pview_def cold_def pool_def) (simp add: s0_def fpu_init_def Let_def)
  have al: "4096 dvd frame_pool s" "frame_pool s + 262144 \<le> 2 ^ 52" using lay by (simp_all add: layout_def)
  obtain s1 where s1: "paging_init_kernel_map p s0 = Some (Inr ((), s1))" "mmio_within s1 61 (pool s)"
      "soft s1 = soft (s0\<lparr>kernel_pml4 := kernel_pml4 s1, kernel_pdpt := kernel_pdpt s1\<rparr>)"
      "only_frames (pool s) (mem s0) (mem s1)" "\<not> bit (entry (mem s1) (kernel_pdpt s1) 1) 0"
    by (rule boot_tables [of s0 p]) (use f0 al in simp_all)
  define s2 where "s2 = kprint (''FPU/SSE initialized (CR0.EM=0, CR4.OSFXSR=1)'' @ [nl])
    (kprint (''========================================'' @ [nl]) (kprint ('' NEKA64 -- preemptive scheduler online'' @ [nl])
    (kprint (''========================================'' @ [nl]) (kprint [nl] (kprint_hex64 (kernel_main64_addr img)
    (kprint ''[diag] kernel_main64 runtime address = '' (terminal64_init s1)))))))"
  have v2: "soft s2 = soft s1" "pview s2 = pview s1" unfolding s2_def print_soft dev_pview terminal64_init_soft by (rule refl)+
  obtain s3 where s3: "gdt_init p s2 = Some s3" "soft s3 = soft s2" "pview s3 = pview s2" by (rule gdt_init_ok)
  define s4 where "s4 = kprint (''IDT installed (32 exceptions + IRQ0/IRQ1)'' @ [nl]) (idt_init p (isr_addr img) (kprint [nl]
    (kprint_hex64 (gdt_get_tss_rsp0 0 (kprint ''[diag] TSS.RSP0 (cpu0) = '' (kprint (''GDT rebuilt: kernel+user segments, TSS loaded (ring3 ready)'' @ [nl]) s3)))
    (kprint ''[diag] TSS.RSP0 (cpu0) = '' (kprint (''GDT rebuilt: kernel+user segments, TSS loaded (ring3 ready)'' @ [nl]) s3)))))"
  have v4: "soft s4 = soft s1" "pview s4 = pview s1"
    unfolding s4_def print_soft dev_pview register_soft register_pview s3(2,3) by (rule v2)+
  have run: "kernel_main64 img alive p mbi s = bind_p (start_devices p s4) (\<lambda>_. boot_rest img alive p mbi)"
    unfolding kernel_main64_def Let_def s0_def [symmetric] s1(1) bind_p_simps s2_def [symmetric] s3(1) Option.bind_lunit s4_def [symmetric]
      boot_rest_def boot_tail_def ..
  have k: "kernel_pml4 s4 = kernel_pml4 s1" "kernel_pdpt s4 = kernel_pdpt s1" "mem s4 = mem s1"
    using v4 by (simp_all add: soft_def pview_def)
  have "soft s4 = soft (s\<lparr>kernel_pml4 := kernel_pml4 s4, kernel_pdpt := kernel_pdpt s4\<rparr>)"
    using v4(1) s1(3) v0(1) by (simp add: soft_def k)
  then show ?thesis using that [OF run soft_within [OF s1(2) v4(2,1)]] s1(4,5) by (simp add: k f0)
qed

lemma boot_devices:
  fixes s :: "'a boot_scheme"
  assumes cold: "cold p s" and lay: "layout hi s" and fw: "firmware_tells hi (mem s) mbi mm lapic es"
    and io: "first_ioapic es \<noteq> 0" "mappable (ucast lapic)" "mappable (first_ioapic es)"
  obtains d where "kernel_main64 img alive p mbi s = boot_rest img alive p mbi d" "mmio_within d 58 (pool s)"
    "soft d = soft (s\<lparr>kernel_pml4 := kernel_pml4 d, kernel_pdpt := kernel_pdpt d, g_rsdp := rsdp_in (mem s), lapic_base_pa := ucast lapic,
       ioapic_base_pa := first_ioapic es\<rparr>)"
    "only_frames (pool s) (mem s) (mem d)" "\<not> bit (entry (mem d) (kernel_pdpt d) 1) 0"
proof -
  obtain u where u: "kernel_main64 img alive p mbi s = bind_p (start_devices p u) (\<lambda>_. boot_rest img alive p mbi)" "mmio_within u 61 (pool s)"
      "soft u = soft (s\<lparr>kernel_pml4 := kernel_pml4 u, kernel_pdpt := kernel_pdpt u\<rparr>)"
      "only_frames (pool s) (mem s) (mem u)" "\<not> bit (entry (mem u) (kernel_pdpt u) 1) 0"
    by (rule boot_early [OF cold lay])
  have w: "mmio_within u (Suc (Suc (Suc 58))) (pool s)" using u(2) by simp
  have tells: "acpi_tables (mem u) lapic es" "rsdp_in (mem u) = rsdp_in (mem s)"
    using fw only_pool_own [OF lay u(4)] unfolding firmware_tells_def by blast+
  have f: "g_rsdp u = 0" "bit (cpuid1_edx u) 9" using u(3) cold by (simp_all add: soft_def cold_def)
  define v where "v = u\<lparr>g_rsdp := rsdp_in (mem u), lapic_base_pa := ucast lapic, ioapic_base_pa := first_ioapic es\<rparr>"
  obtain d where d: "start_devices p u = Some (Inr ((), d))" "mmio_within d 58 (pool s)" "dev_step (pool s) v d"
    unfolding v_def by (rule start_devices_ok [OF w f tells(1) io])
  have soft: "soft d = soft v" using d(3) by (simp add: dev_step_def)
  have k: "kernel_pml4 d = kernel_pml4 u" "kernel_pdpt d = kernel_pdpt u" using soft by (simp_all add: soft_def v_def)
  have "soft d = soft (s\<lparr>kernel_pml4 := kernel_pml4 d, kernel_pdpt := kernel_pdpt d, g_rsdp := rsdp_in (mem s), lapic_base_pa := ucast lapic,
       ioapic_base_pa := first_ioapic es\<rparr>)"
    using soft u(3) by (simp add: soft_def v_def tells(2) k)
  moreover have "only_frames (pool s) (mem s) (mem d)" using u(4) d(3) by (auto simp: dev_step_def only_frames_def v_def)
  moreover have "\<not> bit (entry (mem d) (kernel_pdpt d) 1) 0" using d(3) u(5) by (simp add: dev_step_def v_def k)
  ultimately show ?thesis using that [OF _ d(2)] u(1) d(1) by simp
qed

text \<open>Writes to the arena leave the page tables alone.\<close>

lemma tables_kept:
  assumes lay: "layout hi s" and tree: "kernel_tree (mem d) k4 k3 P" "{k4, k3} \<union> ran P \<subseteq> pool s"
    and mem: "\<And>x. x < heap_arena s \<or> heap_arena s + HEAP_SIZE \<le> x \<Longrightarrow> mem h x = mem d x"
  shows "kernel_tree (mem h) k4 k3 P"
proof (rule kernel_tree_cong [OF tree(1)])
  fix y x assume y: "y \<in> {k4, k3} \<union> ran P" "unat y \<le> x" "x < unat y + 4096"
  then have "y \<in> pool s" using tree(2) by blast
  then show "mem h x = mem d x" using pool_table(6) [OF lay] y(2,3) mem [of x] by force
qed

lemma boot_to_heap:
  fixes s d :: "'a boot_scheme"
  assumes cold: "cold p s" and lay: "layout hi s" and fw: "firmware_tells hi (mem s) mbi mm lapic es" and ram: "ram_ok hi (ram_regions mm)"
    and hi: "kernel_end img = hi" and within: "mmio_within d n (pool s)"
    and soft: "soft d = soft (s\<lparr>kernel_pml4 := kernel_pml4 d, kernel_pdpt := kernel_pdpt d, g_rsdp := rsdp_in (mem s), lapic_base_pa := l,
       ioapic_base_pa := io\<rparr>)"
    and only: "only_frames (pool s) (mem s) (mem d)" and absent: "\<not> bit (entry (mem d) (kernel_pdpt d) 1) 0"
  obtains h where "boot_rest img alive p mbi d = boot_tail img alive p h" "boot_state p hi (ram_regions mm) l (mem s) h"
    "heap_arena h = heap_arena s" "loaded_cr3 h = loaded_cr3 s" "frame_pool h = frame_pool s"
proof -
  have own: "mem d x = mem s x" if "\<not> own_memory hi (ram_regions mm) x" for x by (rule only_pool_own [OF lay only that])
  have mb: "multiboot_map (mem d) mbi mm" using fw own unfolding firmware_tells_def by blast
  have f: "regions d = []" "heap_arena d = heap_arena s" "quiet p d" using soft cold by (simp_all add: soft_def cold_def quiet_def)
  have ar: "0 < heap_arena d" "heap_arena d + HEAP_SIZE + 32 < 2 ^ 64" "0x100000 \<le> heap_arena s" "heap_arena s + HEAP_SIZE \<le> unat hi"
    using lay by (auto simp: layout_def f)
  define t where "t = heap_init (memmap_activate 0x100000 hi (memmap_parse_multiboot mbi d))"
  have pt: "\<forall>x \<in> pool s. 0x100000 \<le> unat x \<and> unat x < unat hi" using pool_table(4,5) [OF lay] by blast
  note m = memory_stage [OF mb f(1) ram ar(1,2) pt, folded t_def]
  have qt: "quiet p t" using m(2) f(3) by (simp add: soft_def quiet_def)
  obtain h where h: "heap_self_test p t = Some (Inr ((), h))" "heap_ok h block0" "quiet p t \<longrightarrow> heap_frame t h"
    by (rule heap_self_test_ok [OF m(1), of p]) blast
  have run: "boot_rest img alive p mbi d = boot_tail img alive p h" unfolding boot_rest_def hi t_def [symmetric] h(1) bind_p_simps ..
  have hf: "soft h = soft t" "frames_avail h = frames_avail t" "alloc_ok h = alloc_ok t"
      "\<And>x. x < heap_arena t \<or> heap_arena t + HEAP_SIZE \<le> x \<Longrightarrow> mem h x = mem t x"
    using h(3) qt unfolding heap_frame_def by blast+
  have at: "heap_arena t = heap_arena s" using m(2) f(2) by (simp add: soft_def)
  have mem: "mem h x = mem d x" if "x < heap_arena s \<or> heap_arena s + HEAP_SIZE \<le> x" for x
    using hf(4) [of x] m(5) [of x] that at f(2) by simp
  have k: "kernel_pml4 h = kernel_pml4 d" "kernel_pdpt h = kernel_pdpt d" "frame_pool h = frame_pool s" "heap_arena h = heap_arena s"
      "threads64_addr h = threads64_addr s" "gdt_ptr_addr h = gdt_ptr_addr s" "lapic_base_pa h = l" "g_rsdp h = rsdp_in (mem s)"
      "loaded_cr3 h = loaded_cr3 s"
    using hf(1) m(2) soft by (simp_all add: soft_def)
  have po: "pool h = pool s" by (simp add: pool_def k)
  obtain P where P: "kernel_tree (mem d) (kernel_pml4 d) (kernel_pdpt d) P" "{kernel_pml4 d, kernel_pdpt d} \<union> ran P \<subseteq> pool s"
    using within by (auto simp: mmio_within_def)
  have tree: "kernel_tree (mem h) (kernel_pml4 d) (kernel_pdpt d) P" by (rule tables_kept [OF lay P mem])
  have "boot_state p hi (ram_regions mm) l (mem s) h"
    unfolding boot_state_def po
  proof (intro conjI)
    show "layout hi h" by (rule layout_soft [OF lay]) (simp_all add: k)
    show "quiet p h" using soft_quiet [OF hf(1)] qt by simp
    show "fresh h (pool s)" using m(4) by (simp add: fresh_def hf)
    show "\<not> bit (entry (mem h) (kernel_pdpt h) 1) 0"
      using absent tree_present [OF tree, of 1] tree_present [OF P(1), of 1] by (simp add: k)
    show "\<forall>x. \<not> own_memory hi (ram_regions mm) x \<longrightarrow> mem h x = mem s x"
    proof (intro allI impI)
      fix x assume x: "\<not> own_memory hi (ram_regions mm) x"
      then have "x < heap_arena s \<or> heap_arena s + HEAP_SIZE \<le> x" using ar(3,4) by (auto simp: own_memory_def)
      then show "mem h x = mem s x" using mem own [OF x] by simp
    qed
    show "\<exists>P. kernel_tree (mem h) (kernel_pml4 h) (kernel_pdpt h) P \<and> {kernel_pml4 h, kernel_pdpt h} \<union> ran P \<subseteq> pool s"
      using tree P(2) by (auto simp: k)
  qed (use h(2) hf(2) m(3) k in simp_all)
  then show ?thesis using that run k(3,4,9) by blast
qed

section \<open>The threads and the other processors\<close>

lemma apart_arena:
  fixes h :: "'a boot_scheme"
  assumes "layout hi h" "\<And>f. f \<in> set (pf.frames h) \<Longrightarrow> unat hi \<le> unat f" "heap_arena h \<le> x" "x < heap_arena h + HEAP_SIZE" "n \<le> 16"
  shows "apart_from_threads h n x"
proof -
  have "x < stack_top64 h i - 80 \<or> stack_top64 h i \<le> x" if "i < n" for i
    using assms(1,3,4,5) that by (auto simp: layout_def stack_top64_def)
  moreover have "x < unat f" if "f \<in> set (pf.frames h)" for f using assms(1,2,4) that by (fastforce simp: layout_def)
  ultimately show ?thesis by (simp add: apart_from_threads_def)
qed

lemma apart_outside:
  fixes h :: "'a boot_scheme"
  assumes "layout hi h" "frames_avail h = frames_left 0x100000 (unat hi) rs 0 0" "\<And>f. f \<in> set (frames_avail h) \<Longrightarrow> f < 2 ^ 64"
    "\<not> own_memory hi rs x" "n \<le> 16"
  shows "apart_from_threads h n x"
proof -
  have "x < stack_top64 h i - 80 \<or> stack_top64 h i \<le> x" if "i < n" for i
    using assms(1,4,5) that by (auto simp: layout_def stack_top64_def own_memory_def)
  moreover have "x < unat f \<or> unat f + 4096 \<le> x" if f: "f \<in> set (pf.frames h)" for f
  proof -
    obtain y where y: "y \<in> set (frames_avail h)" "f = of_nat y" using f by (auto simp: pf.frames_def)
    then have "unat f = y" using assms(3) unat_of_nat_small by simp
    then show ?thesis using assms(2,4) y(1) by (auto simp: own_memory_def)
  qed
  ultimately show ?thesis by (simp add: apart_from_threads_def)
qed

lemma ram_frames:
  assumes "ram_ok hi rs" "f \<in> set (frames_left 0x100000 (unat hi) rs 0 0)"
  shows "f < 0x40000000" "unat hi \<le> f"
proof -
  obtain r j where r: "r \<in> set rs" "f \<in> set (frames_from 0x100000 (unat hi) r j)" "4096 dvd j"
    by (rule frames_left_elem [OF assms(2)]) simp_all
  note g = frame_in_region [OF r(2,3)]
  show "f < 0x40000000" using g(2) assms(1) r(1) by (fastforce simp: ram_ok_def)
  show "unat hi \<le> f" using g(4) by (auto simp: usable_def)
qed

lemma ram_frame_bounds:
  fixes h :: "'a boot_scheme"
  assumes "ram_ok hi rs" "frames_avail h = frames_left 0x100000 (unat hi) rs 0 0" "f \<in> set (pf.frames h)"
  shows "unat hi \<le> unat f" "unat f < 0x40000000"
proof -
  obtain y where y: "y \<in> set (frames_left 0x100000 (unat hi) rs 0 0)" "f = of_nat y" using assms(2,3) by (auto simp: pf.frames_def)
  have "unat f = y" using ram_frames(1) [OF assms(1) y(1)] y(2) by (simp add: unat_of_nat_small)
  then show "unat hi \<le> unat f" "unat f < 0x40000000" using ram_frames [OF assms(1) y(1)] by simp_all
qed

text \<open>After the threads are created the kernel can start the other processors.\<close>

lemma threads_smp_inv:
  fixes h c :: "'a boot_scheme"
  assumes st: "boot_state p hi rs l m h" and ram: "ram_ok hi rs" and l: "mappable l" and soft: "soft c = soft h"
    and c: "fresh c (pool h)" "length (frames_avail h) = length (frames_avail c) + 26" "set (pf.frames c) \<subseteq> set (pf.frames h)"
    and mem: "\<And>x. apart_from_threads h 4 x \<Longrightarrow> mem c x = mem h x"
  shows "smp_inv p (pool h \<union> set (pf.frames h)) 8 [] (HEAP_SIZE - BLOCK_HDR) c"
proof -
  let ?F = "pool h \<union> set (pf.frames h)"
  note b = st [unfolded boot_state_def]
  have lay: "layout hi h" and fr: "fresh h (pool h)" and av: "frames_avail h = frames_left 0x100000 (unat hi) rs 0 0" using b by blast+
  obtain P where P: "kernel_tree (mem h) (kernel_pml4 h) (kernel_pdpt h) P" "{kernel_pml4 h, kernel_pdpt h} \<union> ran P \<subseteq> pool h"
    using b by blast
  note pt = pool_table [OF lay] and fb = ram_frame_bounds [OF ram av]
  have k: "kernel_pml4 c = kernel_pml4 h" "kernel_pdpt c = kernel_pdpt h" "heap_arena c = heap_arena h" "heap_list c = heap_list h"
      "lapic_base_pa c = l" "gdt_ptr_addr c = gdt_ptr_addr h" using soft b by (simp_all add: soft_def)
  have tree: "kernel_tree (mem c) (kernel_pml4 h) (kernel_pdpt h) P"
  proof (rule kernel_tree_cong [OF P(1)])
    fix t x assume t: "t \<in> {kernel_pml4 h, kernel_pdpt h} \<union> ran P" "unat t \<le> x" "x < unat t + 4096"
    have tp: "t \<in> pool h" using t(1) P(2) by blast
    show "mem c x = mem h x" by (rule mem, rule apart_table [OF fr pt(1) [OF tp] tp t(2,3)]) (use pt(7) [OF tp] in simp)
  qed
  have "fresh c ({kernel_pml4 h, kernel_pdpt h} \<union> ran P)" using c(1) P(2) by (auto simp: fresh_def)
  then have within: "mmio_within c 8 ?F"
    using tree P(2) c(2,3) ram unfolding mmio_within_def k by (intro conjI exI [of _ P]) (auto simp: pf.frames_def ram_ok_def av)
  have heap: "heap_ok c block0" by (rule heap_ok_cong [of h]) (use b k mem apart_arena [OF lay] fb in auto)
  have lay': "0x100000 \<le> heap_arena h" "heap_arena h + HEAP_SIZE \<le> unat hi" "gdt_ptr_addr h < 2 ^ 32" "unat hi \<le> 0x40000000"
    using lay by (auto simp: layout_def)
  have k4: "unat (kernel_pml4 h) < 2 ^ 32" using pt(5) [of "kernel_pml4 h"] P(2) lay'(4) by fastforce
  have F: "\<forall>t \<in> ?F. 0x9000 \<le> unat t \<and> (unat t + 4096 \<le> heap_arena h \<or> heap_arena h + HEAP_SIZE \<le> unat t)"
    using pt(4,6) fb lay' by fastforce
  have "quiet p c" using soft_quiet [OF soft] b by blast
  then show ?thesis unfolding smp_inv_def k using within heap lay' l k4 F by (simp add: mappable_def)
qed

text \<open>What \<open>create_threads\<close> leaves.\<close>

lemma boot_threads:
  fixes h :: "'a boot_scheme"
  assumes st: "boot_state p hi rs l m h" and ram: "ram_ok hi rs" and l: "mappable l"
  obtains c F where
    "create_threads img h = Some (Inr ((), c))" "sched_rep c boot_queues" "thread64_count c = 4"
    "map (\<lambda>i. thread_name (threads64 c i)) [0..<4] = boot_names" "distinct (map (\<lambda>i. thread_cr3 (threads64 c i)) [0..<4])"
    "\<forall>i < 4. time_slice (threads64 c i) = 5" "\<forall>k < 16. current c k = None" "smp_inv p F 8 [] (HEAP_SIZE - BLOCK_HDR) c"
    "soft c = soft h" "\<forall>x. \<not> own_memory hi rs x \<longrightarrow> mem c x = m x"
    "spaces_made h (take 3 (map (\<lambda>i. thread_cr3 (threads64 c i)) [0..<4])) (mem c)"
proof -
  note b = st [unfolded boot_state_def]
  have lay: "layout hi h" and fr: "fresh h (pool h)" and av: "frames_avail h = frames_left 0x100000 (unat hi) rs 0 0" using b by blast+
  have k3: "kernel_pdpt h \<in> pool h" using b by blast
  note pt = pool_table [OF lay k3]
  have n: "26 \<le> length (frames_avail h)" using ram av by (simp add: ram_ok_def)
  obtain roots c where c:
    "create_threads img h = Some (Inr ((), kprint (''4 threads created (A,B,Ring3Launcher prio=5, C prio=2)'' @ [nl]) c))"
    "sched_rep c boot_queues" "thread64_count c = 4" "map (\<lambda>i. thread_name (threads64 c i)) [0..<4] = boot_names"
    "map (\<lambda>i. thread_cr3 (threads64 c i)) [0..<4] = roots" "distinct roots"
    "\<forall>i < 4. time_slice (threads64 c i) = 5" "fresh c (pool h)" "length (frames_avail h) = length (frames_avail c) + 26"
    "set (pf.frames c) \<subseteq> set (pf.frames h)"
    "strip c = strip ((sched64_init h)\<lparr>threads64 := threads64 c, thread64_count := 4, ready_queue := ready_queue c,
       ready_bitmap := ready_bitmap c\<rparr>)" "\<forall>x. apart_from_threads h 4 x \<longrightarrow> mem c x = mem h x"
    "spaces_made h (take 3 roots) (mem c)"
    by (rule create_threads_ok [OF fr n pt(1) k3, of img]) (use b pt(7) in auto)
  define c' where "c' = kprint (''4 threads created (A,B,Ring3Launcher prio=5, C prio=2)'' @ [nl]) c"
  have kp: "threads64 c' = threads64 c" "thread64_count c' = thread64_count c" "ready_bitmap c' = ready_bitmap c" "ready_queue c' = ready_queue c"
      "current c' = current c" "frames_avail c' = frames_avail c" "alloc_ok c' = alloc_ok c" "mem c' = mem c" "soft c' = soft c"
    using kprint_frame [of "''4 threads created (A,B,Ring3Launcher prio=5, C prio=2)'' @ [nl]" c] by (auto simp: c'_def)
  obtain rq cu where i: "sched64_init h = h\<lparr>ready_bitmap := 0, ready_queue := rq, current := cu, thread64_count := 0\<rparr>"
    using sched64_init_frame(8) by blast
  have soft: "soft c' = soft h" using strip_soft [OF c(11)] kp(9) unfolding i by (simp add: soft_def)
  have inv: "smp_inv p (pool h \<union> set (pf.frames h)) 8 [] (HEAP_SIZE - BLOCK_HDR) c'"
    by (rule threads_smp_inv [OF st ram l soft]) (use c(8-10,12) in \<open>simp_all add: kp fresh_def pf.frames_def\<close>)
  have cur: "\<forall>j < 16. current c' j = None" using strip_sched(6) [OF c(11)] sched64_init_frame(5) [of _ h] kp(5) by simp
  have own: "mem c' x = m x" if "\<not> own_memory hi rs x" for x
  proof -
    have "apart_from_threads h 4 x"
      by (rule apart_outside [OF lay av _ that]) (use ram_frames(1) [OF ram] av in fastforce)+
    then show ?thesis using c(12) b that kp(8) by simp
  qed
  have "spaces_made h (take 3 (map (\<lambda>i. thread_cr3 (threads64 c' i)) [0..<4])) (mem c')" using c(5,13) by (simp add: kp)
  then show ?thesis
    using that [OF c(1) [folded c'_def] _ _ _ _ _ cur inv soft] c(2-7) own sched_rep_cong [OF c(2), of c'] by (simp add: kp)
qed

section \<open>The first reschedule\<close>

text \<open>What a processor that is up needs of the kernel and of its own registers.\<close>

definition oview where
  "oview r s = (kernel_pml4 s, gdt_ptr s, idt_ptr s, tss_addr s, kstack0_addr s, cview r s)"

lemma ap_up_oview:
  assumes "ap_up r stk s" "oview r s' = oview r s"
  shows "ap_up r stk s'"
  using assms by (simp add: ap_up_def tss_loaded_def oview_def cview_def)

lemma reschedule_oview:
  fixes s :: "'a boot_scheme"
  assumes "r \<noteq> p"
  shows "oview r (sched64_reschedule p s) = oview r s"
proof -
  have l: "oview r (NKern_LockForSwitch p s) = oview r s" "oview r (NKern_UnlockAfterSwitch p s) = oview r s" for s :: "'a boot_scheme"
    using assms by (simp_all add: nkern_defs oview_def cview_def)
  have c: "oview r (context_switch64 p prev x s) = oview r s" for prev x and s :: "'a boot_scheme"
    using assms by (simp add: context_switch64_def Let_def oview_def cview_def split: option.splits)
  have f: "oview r (threads64_update f1 s) = oview r s" "oview r (current_update f2 s) = oview r s" "oview r (ready_queue_update f3 s) = oview r s"
      "oview r (loaded_cr3_update f4 s) = oview r s" for f1 f2 f3 f4 and s :: "'a boot_scheme"
    by (simp_all add: oview_def cview_def)
  have x: "oview r (s\<lparr>cr3 := (cr3 s')(p := v)\<rparr>) = oview r s" if "cr3 s' = cr3 s" for s s' :: "'a boot_scheme" and v
    using assms that by (simp add: oview_def cview_def)
  show ?thesis by (simp add: sched64_reschedule_def Let_def l c f x split: option.splits)
qed

lemma reschedule_identity:
  "thread_name (threads64 (sched64_reschedule p s) i) = thread_name (threads64 s i)"
  "thread_cr3 (threads64 (sched64_reschedule p s) i) = thread_cr3 (threads64 s i)"
  "thread64_count (sched64_reschedule p s) = thread64_count s"
  by (simp_all add: sched64_reschedule_def Let_def split: option.splits if_splits)

lemma smp_inv_le: "smp_inv p F m xs r s \<Longrightarrow> n \<le> m \<Longrightarrow> smp_inv p F n xs r s"
  by (auto simp: smp_inv_def mmio_within_def)

lemma find_cpus_soft:
  fixes s :: "'a boot_scheme"
  assumes "acpi_find_cpus n s = Some (ids, u)"
  shows "soft u = soft s" "mem u = mem s"
  using assms by (auto simp: acpi_find_cpus_def Let_def split: if_splits option.splits)

lemma boot_tail_ok:
  fixes h :: "'a boot_scheme"
  assumes st: "boot_state p hi rs l m h" and ram: "ram_ok hi rs" and l: "mappable l" and blob: "length (ap_blob img) \<le> 0x1000"
    and fw: "\<And>m'. (\<forall>x. \<not> own_memory hi rs x \<longrightarrow> m' x = m x) \<Longrightarrow> rsdp_in m' = rsdp_in m \<and> acpi_tables m' lapic es"
    and ids: "ids = take MAX_AP_CPUS (enabled_cpus es)" "distinct ids" "\<forall>i \<in> set ids. unat i < 16"
    and js: "js = (if length ids \<le> 1 then [] else filter (\<lambda>i. i \<noteq> of_nat p) ids)"
  obtains s where "boot_tail img alive p h = Some (Inr ((), sched64_reschedule p s))" "sched_rep s boot_queues" "thread64_count s = 4"
    "map (\<lambda>i. thread_name (threads64 s i)) [0..<4] = boot_names" "distinct (map (\<lambda>i. thread_cr3 (threads64 s i)) [0..<4])"
    "\<forall>i < 4. time_slice (threads64 s i) = 5" "current s (get_cpu_index p) = None" "preempt_disable_count s (get_cpu_index p) = 0"
    "heap_ok s (replicate (length js) (16388, False) @ [(HEAP_SIZE - BLOCK_HDR - 16420 * length js, True)])"
    "aps_up alive (heap_arena h) js s" "\<not> reschedule_pending s (get_cpu_index p)"
    "length ids \<le> 1 \<longrightarrow> soft s = soft h \<and> spaces_made h (take 3 (map (\<lambda>i. thread_cr3 (threads64 s i)) [0..<4])) (mem s)"
proof -
  obtain c F where c: "create_threads img h = Some (Inr ((), c))" "sched_rep c boot_queues" "thread64_count c = 4"
      "map (\<lambda>i. thread_name (threads64 c i)) [0..<4] = boot_names" "distinct (map (\<lambda>i. thread_cr3 (threads64 c i)) [0..<4])"
      "\<forall>i < 4. time_slice (threads64 c i) = 5" "\<forall>k < 16. current c k = None" "smp_inv p F 8 [] (HEAP_SIZE - BLOCK_HDR) c"
      "soft c = soft h" "\<forall>x. \<not> own_memory hi rs x \<longrightarrow> mem c x = m x"
      "spaces_made h (take 3 (map (\<lambda>i. thread_cr3 (threads64 c i)) [0..<4])) (mem c)"
    by (rule boot_threads [OF st ram l, of img])
  have f: "rsdp_in (mem c) = rsdp_in m" "acpi_tables (mem c) lapic es" using fw [OF c(10)] by blast+
  have g: "g_rsdp c = g_rsdp h" "heap_arena c = heap_arena h" using c(9) by (simp_all add: soft_def)
  have "g_rsdp c = rsdp_in (mem c)" using g(1) st f(1) by (simp add: boot_state_def)
  then obtain u where u: "acpi_find_cpus MAX_AP_CPUS c = Some (ids, u)" using acpi_tables_walks(1) [OF f(2), of MAX_AP_CPUS] ids(1) by blast
  have "length ids \<le> 8" using ids(1) by simp
  then have inv: "smp_inv p F (length ids) [] (HEAP_SIZE - BLOCK_HDR) c" by (rule smp_inv_le [OF c(8)])
  obtain a where a: "smp_start_aps p alive (ap_blob img) (ap_entry64_addr img) c = Some (Inr (length (filter alive js), a))" "kview a = kview c"
      "heap_ok a ([] @ replicate (length js) (16388, False) @ [(HEAP_SIZE - BLOCK_HDR - 16420 * length js, True)])"
      "aps_up alive (heap_arena c + span []) js a"
    by (rule smp_start_ok [OF inv blob u ids(2,3) js, where alive = alive and ap_entry_addr = "ap_entry64_addr img"]) blast
  define b where "b = kprint (''Enabling interrupts -- preemption starts now.'' @ [nl, nl]) (kprint [nl]
    (kprint_hex64 (of_nat (length (filter alive js))) (kprint ''[smp] Application Processors started: '' a)))"
  define s where "s = sti p b"
  have run: "boot_tail img alive p h = Some (Inr ((), sched64_reschedule p s))"
    unfolding boot_tail_def c(1) bind_p_simps a(1) Let_def s_def b_def ..
  have k: "kview s = kview c" using a(2) by (simp add: s_def b_def sti_views kprint_views)
  have kf: "threads64 s = threads64 c" "thread64_count s = thread64_count c" "ready_bitmap s = ready_bitmap c" "ready_queue s = ready_queue c"
      "current s = current c" "preempt_disable_count s = preempt_disable_count c" using k by (simp_all add: kview_def)
  have heap: "heap_ok s (replicate (length js) (16388, False) @ [(HEAP_SIZE - BLOCK_HDR - 16420 * length js, True)])"
  proof -
    have "heap_ok b (replicate (length js) (16388, False) @ [(HEAP_SIZE - BLOCK_HDR - 16420 * length js, True)])"
      unfolding b_def heap_ok_kprint using a(3) by simp
    then show ?thesis by (simp add: s_def sti_def heap_ok_def)
  qed
  have "unat i \<noteq> p" if "i \<in> set js" for i using that js by (auto split: if_splits)
  then have "cview (unat i) s = cview (unat i) a" if "i \<in> set js" for i
    using that by (simp add: s_def b_def sti_views kprint_views)
  then have aps: "aps_up alive (heap_arena h) js s"
    using a(4) ap_up_views [of _ _ a s] k a(2) g(2) by (auto simp: aps_up_def)
  have one: "soft s = soft h \<and> spaces_made h (take 3 (map (\<lambda>i. thread_cr3 (threads64 s i)) [0..<4])) (mem s)" if len: "length ids \<le> 1"
  proof -
    obtain t where "a = kprint t u" using a(1) len unfolding smp_start_aps_def u by auto
    then have "soft a = soft c" "mem a = mem c" using find_cpus_soft [OF u] by (simp_all add: dev_pview kprint_mem)
    then show ?thesis using c(9,11) unfolding kf by (simp add: s_def b_def) (simp add: sti_def)
  qed
  have "preempt_disable_count c (get_cpu_index p) = 0" "\<not> reschedule_pending c (get_cpu_index p)" using c(8) by (simp_all add: smp_inv_def quiet_def)
  moreover have "get_cpu_index p < 16" by (simp add: get_cpu_index_def)
  moreover have "reschedule_pending s = reschedule_pending c" using k by (simp add: kview_def)
  ultimately show ?thesis
    using that [OF run] c(2-7) heap aps one sched_rep_cong [OF c(2), of s] by (simp add: kf)
qed

section \<open>From the boot loader to the first thread\<close>

text \<open>The state \<open>t\<close> in which the boot processor gives itself to the first thread.\<close>

lemma boots:
  fixes s :: "'a boot_scheme"
  assumes "cold p s" "layout (kernel_end img) s" "ram_ok (kernel_end img) (ram_regions mm)"
    and "firmware_tells (kernel_end img) (mem s) mbi mm lapic es"
    and "first_ioapic es \<noteq> 0" "mappable (ucast lapic)" "mappable (first_ioapic es)" "length (ap_blob img) \<le> 0x1000"
    and "ids = take MAX_AP_CPUS (enabled_cpus es)" "distinct ids" "\<forall>i \<in> set ids. unat i < 16"
    and "js = (if length ids \<le> 1 then [] else filter (\<lambda>i. i \<noteq> of_nat p) ids)"
  obtains h t :: "'a boot_scheme" where "kernel_main64 img alive p mbi s = Some (Inr ((), sched64_reschedule p t))" "sched_rep t boot_queues" "thread64_count t = 4"
      "map (\<lambda>i. thread_name (threads64 t i)) [0..<4] = boot_names" "distinct (map (\<lambda>i. thread_cr3 (threads64 t i)) [0..<4])"
      "\<forall>i < 4. time_slice (threads64 t i) = 5" "current t (get_cpu_index p) = None" "preempt_disable_count t (get_cpu_index p) = 0"
      "heap_ok t (replicate (length js) (16388, False) @ [(HEAP_SIZE - BLOCK_HDR - 16420 * length js, True)])"
      "aps_up alive (heap_arena s) js t" "\<not> reschedule_pending t (get_cpu_index p)"
      "boot_state p (kernel_end img) (ram_regions mm) (ucast lapic) (mem s) h" "loaded_cr3 h = loaded_cr3 s" "frame_pool h = frame_pool s"
      "length ids \<le> 1 \<longrightarrow> soft t = soft h \<and> spaces_made h (take 3 (map (\<lambda>i. thread_cr3 (threads64 t i)) [0..<4])) (mem t)"
proof -
  obtain d where d: "kernel_main64 img alive p mbi s = boot_rest img alive p mbi d" "mmio_within d 58 (pool s)"
      "soft d = soft (s\<lparr>kernel_pml4 := kernel_pml4 d, kernel_pdpt := kernel_pdpt d, g_rsdp := rsdp_in (mem s), lapic_base_pa := ucast lapic,
         ioapic_base_pa := first_ioapic es\<rparr>)"
      "only_frames (pool s) (mem s) (mem d)" "\<not> bit (entry (mem d) (kernel_pdpt d) 1) 0"
    by (rule boot_devices [OF assms(1,2,4-7)])
  obtain h where h: "boot_rest img alive p mbi d = boot_tail img alive p h" "boot_state p (kernel_end img) (ram_regions mm) (ucast lapic) (mem s) h"
      "heap_arena h = heap_arena s" "loaded_cr3 h = loaded_cr3 s" "frame_pool h = frame_pool s"
    by (rule boot_to_heap [OF assms(1,2,4,3) refl d(2-5)])
  have fw: "rsdp_in m' = rsdp_in (mem s) \<and> acpi_tables m' lapic es"
    if "\<forall>x. \<not> own_memory (kernel_end img) (ram_regions mm) x \<longrightarrow> m' x = mem s x" for m'
    using assms(4) that unfolding firmware_tells_def by blast
  obtain t where t: "boot_tail img alive p h = Some (Inr ((), sched64_reschedule p t))" "sched_rep t boot_queues" "thread64_count t = 4"
      "map (\<lambda>i. thread_name (threads64 t i)) [0..<4] = boot_names" "distinct (map (\<lambda>i. thread_cr3 (threads64 t i)) [0..<4])"
      "\<forall>i < 4. time_slice (threads64 t i) = 5" "current t (get_cpu_index p) = None" "preempt_disable_count t (get_cpu_index p) = 0"
      "heap_ok t (replicate (length js) (16388, False) @ [(HEAP_SIZE - BLOCK_HDR - 16420 * length js, True)])"
      "aps_up alive (heap_arena h) js t" "\<not> reschedule_pending t (get_cpu_index p)"
      "length ids \<le> 1 \<longrightarrow> soft t = soft h \<and> spaces_made h (take 3 (map (\<lambda>i. thread_cr3 (threads64 t i)) [0..<4])) (mem t)"
    by (rule boot_tail_ok [OF h(2) assms(3,6,8) fw assms(9-12)])
  have run: "kernel_main64 img alive p mbi s = Some (Inr ((), sched64_reschedule p t))" using d(1) h(1) t(1) by simp
  show ?thesis by (rule that [OF run t(2-9) t(10) [unfolded h(3)] t(11) h(2,4,5) t(12)])
qed


section \<open>A machine that boots\<close>

text \<open>The firmware image of theory \<open>Acpi\<close> below 1 MB, seven megabytes of RAM above, and the boot loader's structures behind them.\<close>

definition demo_loader :: "u8 \<Rightarrow> memory" where
  "demo_loader fl = write32 (write64 (write64 (write32 (write32 (write32 (write32 (\<lambda>x. if x < 0x100000 then demo_tables fl x else 0)
     0x900000 0x40) 0x90002C 24) 0x900030 0x901000) 0x901000 20) 0x901004 0x100000) 0x90100C 0x700000) 0x901014 1"

abbreviation (input) demo_ram :: region_t where "demo_ram \<equiv> \<lparr>rbase = 0x100000, rlength = 0x700000\<rparr>"

definition demo_image :: image where
  "demo_image = \<lparr>isr_addr = (\<lambda>v. 0x100000 + 16 * of_nat v), thread_start64_addr = 0x102000, thread_a_addr = 0x102100,
     thread_b_addr = 0x102200, thread_c_addr = 0x102300, launcher_addr = 0x102400, kernel_main64_addr = 0x102500,
     kernel_end = 0x500000, ap_entry64_addr = 0x101000, ap_blob = [0xFA, 0x90]\<rparr>"

definition cold_boot :: "u8 \<Rightarrow> boot" where
  "cold_boot fl = demo_boot\<lparr>mem := demo_loader fl, heap_arena := 0x300000, threads64_addr := 0x400000, regions := []\<rparr>"

lemma firmware_rsdp:
  assumes "firmware fl m"
  shows "rsdp_in m = 0xE0010"
proof -
  note fb = firmware_bytes [OF assms]
  have eq: "m x = demo_tables fl x" if "x < 0x100000" for x using assms that by (simp add: firmware_def)
  have d: "demo_tables fl 0x40E = 0" "demo_tables fl 0x40F = 0" "demo_tables fl 0xE0000 = 0"
    by (simp_all add: demo_tables_def place_def demo_entries_def)
  have z: "read16 m 0x40E = 0" "\<not> is_rsdp m 0xE0000"
    using d by (simp add: read16_def numeral_2_eq_2 eq) (simp add: is_rsdp_def signature_at_def upt_rec eq d(3))
  have "checksum_ok m 0xE0010 20 = checksum_ok (demo_tables fl) 0xE0010 20"
    unfolding checksum_ok_def by (rule arg_cong [where f = "\<lambda>x. x = 0"], rule foldl_cong) (simp_all add: eq)
  moreover have "bytes_at m 0xE0010 (map of_char ''RSD PTR '')" using fb [OF demo_bytes(1)] unfolding bytes_at_append by simp
  ultimately have "is_rsdp m 0xE0010" using signature_bytes demo_checksum unfolding is_rsdp_def by blast
  moreover have "candidates m a (Suc (Suc n)) = (a + 16) # candidates m (a + 32) n"
    if "\<not> is_rsdp m a" "is_rsdp m (a + 16)" for a n using that by (simp add: add.assoc)
  from this [OF z(2), of 8190] calculation
  have "candidates m 0xE0000 8192 = 0xE0010 # candidates m 0xE0020 8190" by simp
  then show ?thesis by (simp add: rsdp_in_def z(1))
qed

lemma demo_ram_ok: "ram_ok 0x500000 [demo_ram]"
proof -
  let ?fs = "frames_left 0x100000 0x500000 [demo_ram] 0 0"
  have "(\<lambda>i. 0x500000 + 4096 * i) ` {..<34} \<subseteq> set ?fs"
    by (auto simp: frames_left_def frames_from_def pages_iff usable_def)
  then have "card ((\<lambda>i. 0x500000 + 4096 * i :: nat) ` {..<34}) \<le> card (set ?fs)" by (rule card_mono [rotated]) simp
  also have "\<dots> \<le> length ?fs" by (rule card_length)
  finally have "34 \<le> length ?fs" by (simp add: card_image inj_on_def)
  then show ?thesis by (simp add: ram_ok_def Memmap.apart_def)
qed

lemma demo_own_memory:
  assumes "own_memory 0x500000 [demo_ram] x"
  shows "0x100000 \<le> x \<and> x < 0x800000"
proof -
  have "0x100000 \<le> f \<and> f + 4096 \<le> 0x800000" if "f \<in> set (frames_left 0x100000 0x500000 [demo_ram] 0 0)" for f
  proof -
    have f: "f \<in> set (frames_from 0x100000 0x500000 demo_ram 0)" using that by (simp add: frames_left_def)
    show ?thesis using frame_in_region(4,5) [OF f] by (simp add: whole_pages_def usable_def)
  qed
  then show ?thesis using assms by (fastforce simp: own_memory_def)
qed

lemma demo_firmware_tells:
  "firmware_tells 0x500000 (demo_loader fl) 0x900000 [(20, 0x100000, 0x700000, 1)] 0xFEE00000 (demo_entries fl)"
proof -
  have rs: "ram_regions [(20, 0x100000, 0x700000, 1)] = [demo_ram]" by (simp add: ram_regions_def)
  have fw: "firmware fl m" if "\<forall>x. \<not> own_memory 0x500000 [demo_ram] x \<longrightarrow> m x = demo_loader fl x" for m
    unfolding firmware_def
  proof (intro allI impI)
    fix x :: nat assume x: "x < 0x100000"
    then have "m x = demo_loader fl x" using that demo_own_memory [of x] by force
    then show "m x = demo_tables fl x" using x by (simp add: demo_loader_def mem_simps)
  qed
  have mb: "multiboot_map m 0x900000 [(20, 0x100000, 0x700000, 1)]"
    if "\<forall>x. \<not> own_memory 0x500000 [demo_ram] x \<longrightarrow> m x = demo_loader fl x" for m
  proof -
    have eq: "m x = demo_loader fl x" if "0x800000 \<le> x" for x using that \<open>\<forall>x. _\<close> demo_own_memory [of x] by force
    have r: "read32 m x = read32 (demo_loader fl) x" "read64 m x = read64 (demo_loader fl) x" if "0x800000 \<le> x" for x
      using that eq by (auto intro!: read32_cong read64_cong)
    have l: "read32 (demo_loader fl) 0x900000 = 0x40" "read32 (demo_loader fl) 0x90002C = 24" "read32 (demo_loader fl) 0x900030 = 0x901000"
      "read32 (demo_loader fl) 0x901000 = 20" "read64 (demo_loader fl) 0x901004 = 0x100000" "read64 (demo_loader fl) 0x90100C = 0x700000"
      "read32 (demo_loader fl) 0x901014 = 1"
      by (simp_all add: demo_loader_def mem_simps)
    show ?thesis by (simp add: multiboot_map_def r l bit_simps)
  qed
  have tabs: "acpi_tables m 0xFEE00000 (demo_entries fl)" if "firmware fl m" for m
    using demo_tables_at [OF that] demo_search [OF that] demo_madt [OF that] firmware_rsdp [OF that] by (auto simp: acpi_tables_def)
  show ?thesis unfolding firmware_tells_def rs
    using mb fw firmware_rsdp tabs fw [of "demo_loader fl"] by metis
qed

lemma cold_boot_fields:
  "cold 0 (cold_boot fl)" "layout 0x500000 (cold_boot fl)" "mem (cold_boot fl) = demo_loader fl" "heap_arena (cold_boot fl) = 0x300000"
  by (simp_all add: cold_def layout_def quiet_def cold_boot_def demo_boot_def demo_smp_defs bit_simps)


end
