(* ===== verification/Kernel_Run.thy ===== *)
theory Kernel_Run
  imports Boot_Main
begin

text \<open>
  The running kernel on a machine with one processor: from the state \<open>kernel_main64\<close> ends in, the threads of
  \<open>src/main64.c\<close> run statement by statement, and between any two statements interrupts come as long as the processor's flag
  allows them: the timer, which may switch threads, the keyboard, and the system calls of the code in ring 3. A call of
  \<open>kprint\<close> disables interrupts (theory \<open>Print_Lock\<close>) and is one action; the busy loops change nothing and are points where an
  interrupt can come. The handler's frame, the registers a switch saves and every other use of a stack change
  memory of the kernel image outside its page tables at any time (rule \<open>stacks\<close>). The lemmas at the end follow the run
  by an invariant.
\<close>

section \<open>The threads' code\<close>

datatype action =
    Increment
  | Store nat
  | Load nat
  | Say string
  | SayId
  | SayCount
  | SayVerdict
  | EveryFifth
  | Lock
  | Unlock
  | EnterUser

text \<open>The place a thread has reached in the body of its loop, and its variable \<open>ok\<close>.\<close>

record thread_vars =
  pc :: nat
  ok :: bool

definition thread_a_body :: "action list" where
  "thread_a_body =
     [Increment, Store 0, Store 1, Store 2, Store 3, Load 0, Load 1, Load 2, Load 3,
      Say ''[A cpu'', SayId, Say ''] tick '', SayCount, SayVerdict,
      EveryFifth,
        Say (''[A] --- entering critical section (NKern_Lock) ---'' @ [nl]), Lock,
        Say (''[A] --- still holding lock, about to unlock ---'' @ [nl]), Unlock,
        Say (''[A] --- critical section released (NKern_Unlock) ---'' @ [nl])]"

definition thread_b_body :: "action list" where
  "thread_b_body =
     [Increment, Store 0, Store 1, Store 2, Store 3, Load 0, Load 1, Load 2, Load 3,
      Say ''  [B cpu'', SayId, Say ''] tick '', SayCount, SayVerdict]"

definition thread_c_body :: "action list" where
  "thread_c_body = [Increment, Say ''    [C low-prio] tick '', SayCount, Say [nl]]"

definition launcher_body :: "action list" where
  "launcher_body = [Say (''[launcher] jumping into ring3...'' @ [nl]), EnterUser]"

definition body :: "nat \<Rightarrow> action list" where
  "body t = (if t = 0 then thread_a_body else if t = 1 then thread_b_body else if t = 2 then thread_c_body else launcher_body)"

definition signature :: "nat \<Rightarrow> u8" where
  "signature t = (if t = 0 then of_char (CHR ''A'') else of_char (CHR ''B''))"

definition counter :: "nat \<Rightarrow> 'a boot_scheme \<Rightarrow> u32" where
  "counter t s = (if t = 0 then counter_a64 s else if t = 1 then counter_b64 s else counter_c64 s)"

definition increment :: "nat \<Rightarrow> 'a boot_scheme \<Rightarrow> 'a boot_scheme" where
  "increment t s =
     (if t = 0 then s\<lparr>counter_a64 := counter_a64 s + 1\<rparr>
      else if t = 1 then s\<lparr>counter_b64 := counter_b64 s + 1\<rparr>
      else s\<lparr>counter_c64 := counter_c64 s + 1\<rparr>)"

text \<open>The next statement: the loops start over, the launcher's \<open>enter_usermode\<close> does not return.\<close>

definition advance :: "nat \<Rightarrow> thread_vars \<Rightarrow> thread_vars" where
  "advance t l = l\<lparr>pc := if t < 3 \<and> pc l + 1 = length (body t) then 0 else pc l + 1\<rparr>"

text \<open>A statement of thread \<open>t\<close>; \<open>None\<close> is a page fault.\<close>

fun exec :: "nat \<Rightarrow> nat \<Rightarrow> action \<Rightarrow> thread_vars \<Rightarrow> 'a boot_scheme \<Rightarrow> (thread_vars \<times> 'a boot_scheme) option" where
  "exec p t Increment l s = Some (advance t l, increment t s)"
| "exec p t (Store i) l s = map_option (\<lambda>s. (advance t l, s)) (store_va p (DEMO_VA + i) (signature t) s)"
| "exec p t (Load i) l s =
     map_option (\<lambda>v. (if v \<noteq> signature t then l\<lparr>pc := 9, ok := False\<rparr>
                      else if i = 3 then (advance t l)\<lparr>ok := True\<rparr> else advance t l, s)) (load_va p (DEMO_VA + i) s)"
| "exec p t (Say str) l s = Some (advance t l, kprint str s)"
| "exec p t SayId l s = Some (advance t l, kprint_hex64 (ucast (lapic_get_id p)) s)"
| "exec p t SayCount l s = Some (advance t l, kprint_hex64 (ucast (counter t s)) s)"
| "exec p t SayVerdict l s = Some (advance t l, kprint (if ok l then '' AS=OK'' @ [nl] else '' AS=CORRUPTED!'' @ [nl]) s)"
| "exec p t EveryFifth l s = Some (if counter t s mod 5 = 0 then advance t l else l\<lparr>pc := 0\<rparr>, s)"
| "exec p t Lock l s = Some (advance t l, NKern_Lock p s)"
| "exec p t Unlock l s = Some (advance t l, NKern_Unlock (sched64_reschedule p) p s)"
| "exec p t EnterUser l s = Some (advance t l, snd (enter_usermode p USER_CODE_VA USER_STACK_TOP s))"

text \<open>
  \<open>n\<close> statements of a thread that is not interrupted. Together they are the two halves of a pass through its loop that theory \<open>Boot\<close>
  defines.
\<close>

fun statements :: "nat \<Rightarrow> nat \<Rightarrow> nat \<Rightarrow> thread_vars \<Rightarrow> 'a boot_scheme \<Rightarrow> (thread_vars \<times> 'a boot_scheme) option" where
  "statements p t 0 l s = Some (l, s)"
| "statements p t (Suc n) l s = Option.bind (exec p t (body t ! pc l) l s) (\<lambda>(l, s). statements p t n l s)"

lemma statements_numeral:
  "statements p t (numeral k) l s = Option.bind (exec p t (body t ! pc l) l s) (\<lambda>(l, s). statements p t (pred_numeral k) l s)"
  by (simp add: numeral_eq_Suc)

lemma body_lengths: "length (body 0) = 20" "length (body 1) = 14" "length (body (Suc 0)) = 14" "length (body 3) = 2"
  by (simp_all add: body_def thread_a_body_def thread_b_body_def launcher_body_def)

lemma body_nths:
  "body 0 ! 0 = Increment" "body 0 ! 1 = Store 0" "body 0 ! 2 = Store 1" "body 0 ! 3 = Store 2" "body 0 ! 4 = Store 3"
  "body 0 ! 5 = Load 0" "body 0 ! 6 = Load 1" "body 0 ! 7 = Load 2" "body 0 ! 8 = Load 3"
  "body 1 ! 0 = Increment" "body 1 ! 1 = Store 0" "body 1 ! 2 = Store 1" "body 1 ! 3 = Store 2" "body 1 ! 4 = Store 3"
  "body 1 ! 5 = Load 0" "body 1 ! 6 = Load 1" "body 1 ! 7 = Load 2" "body 1 ! 8 = Load 3"
  by (simp_all add: body_def thread_a_body_def thread_b_body_def)

lemma bind_map: "Option.bind (map_option f x) g = Option.bind x (\<lambda>y. g (f y))" "map_option f (Option.bind x h) = Option.bind x (\<lambda>y. map_option f (h y))"
  by (cases x; simp)+

lemma statements_split: "statements p t (m + n) l s = Option.bind (statements p t m l s) (\<lambda>(l, s). statements p t n l s)"
  by (induction m arbitrary: l s) (auto split: Option.bind_split)

lemmas body_steps = body_nths body_nths [unfolded One_nat_def]

lemma advance_at:
  "n < 19 \<Longrightarrow> advance 0 \<lparr>pc = n, ok = b\<rparr> = \<lparr>pc = n + 1, ok = b\<rparr>" "n < 13 \<Longrightarrow> advance 1 \<lparr>pc = n, ok = b\<rparr> = \<lparr>pc = n + 1, ok = b\<rparr>"
  "n < 13 \<Longrightarrow> advance (Suc 0) \<lparr>pc = n, ok = b\<rparr> = \<lparr>pc = n + 1, ok = b\<rparr>"
  by (simp_all add: advance_def body_lengths)

lemma write_statements:
  "statements p 0 5 \<lparr>pc = 0, ok = b\<rparr> s = map_option (\<lambda>s. (\<lparr>pc = 5, ok = b\<rparr>, s)) (thread_a_write p s)"
  "statements p 1 5 \<lparr>pc = 0, ok = b\<rparr> s = map_option (\<lambda>s. (\<lparr>pc = 5, ok = b\<rparr>, s)) (thread_b_write p s)"
proof -
  have u: "[0..<4] = [0, 1, 2, 3 :: nat]" by (simp add: upt_rec)
  show "statements p 0 5 \<lparr>pc = 0, ok = b\<rparr> s = map_option (\<lambda>s. (\<lparr>pc = 5, ok = b\<rparr>, s)) (thread_a_write p s)"
    "statements p 1 5 \<lparr>pc = 0, ok = b\<rparr> s = map_option (\<lambda>s. (\<lparr>pc = 5, ok = b\<rparr>, s)) (thread_b_write p s)"
    by (simp_all add: statements_numeral body_steps advance_at bind_map thread_a_write_def thread_b_write_def write_signature_def u increment_def
        signature_def map_conv_bind_option numeral_2_eq_2 [symmetric] comp_def)
qed

lemma verify_statements:
  assumes "t \<in> {0, 1}" "signature t = of_char c"
  shows "\<exists>n. statements p t n \<lparr>pc = 5, ok = b\<rparr> s = map_option (\<lambda>r. (\<lparr>pc = 9, ok = r\<rparr>, s)) (verify_signature p c s)"
proof -
  have "\<exists>n. statements p t n \<lparr>pc = i + 5, ok = b\<rparr> s = map_option (\<lambda>r. (\<lparr>pc = 9, ok = r\<rparr>, s)) (verify_from p [i..<4] c s)" if "i < 4" for i
    using that
  proof (induction "3 - i" arbitrary: i)
    case 0
    then have i: "i = 3" by simp
    have "statements p t 1 \<lparr>pc = 3 + 5, ok = b\<rparr> s = map_option (\<lambda>r. (\<lparr>pc = 9, ok = r\<rparr>, s)) (verify_from p [3..<4] c s)"
      using assms by (cases "load_va p (DEMO_VA + 3) s") (auto simp: upt_rec body_steps advance_at)
    then show ?case unfolding i by blast
  next
    case (Suc k)
    then have i: "i = 0 \<or> i = 1 \<or> i = 2" "i < 3" "k = 3 - Suc i" "Suc i < 4" by auto
    have at: "body t ! (i + 5) = Load i" "advance t \<lparr>pc = i + 5, ok = b\<rparr> = \<lparr>pc = Suc i + 5, ok = b\<rparr>"
      using i(1) assms(1) by (auto simp: body_steps advance_at)
    obtain n where n: "statements p t n \<lparr>pc = Suc i + 5, ok = b\<rparr> s = map_option (\<lambda>r. (\<lparr>pc = 9, ok = r\<rparr>, s)) (verify_from p [Suc i..<4] c s)"
      using Suc.hyps(1) [OF i(3,4)] by blast
    have up: "[i..<4] = i # [Suc i..<4]" using i(2) by (simp add: upt_conv_Cons)
    show ?case
    proof (cases "load_va p (DEMO_VA + i) s = Some (of_char c)")
      case True
      then have "statements p t (Suc n) \<lparr>pc = i + 5, ok = b\<rparr> s = map_option (\<lambda>r. (\<lparr>pc = 9, ok = r\<rparr>, s)) (verify_from p [i..<4] c s)"
        unfolding up using at i(2) n assms(2) by simp
      then show ?thesis by blast
    next
      case False
      then have "statements p t (Suc 0) \<lparr>pc = i + 5, ok = b\<rparr> s = map_option (\<lambda>r. (\<lparr>pc = 9, ok = r\<rparr>, s)) (verify_from p [i..<4] c s)"
        unfolding up using at i(2) assms(2) by (cases "load_va p (DEMO_VA + i) s") auto
      then show ?thesis by blast
    qed
  qed
  from this [of 0] show ?thesis by (simp add: verify_signature_def)
qed

lemma counters_kprint:
  "counter_a64 (kprint t s) = counter_a64 s" "counter_a64 (kprint_hex64 w s) = counter_a64 s"
  "counter_b64 (kprint t s) = counter_b64 s" "counter_b64 (kprint_hex64 w s) = counter_b64 s"
  using kprint_frame [of t s] kprint_hex64_frame [of w s] by auto

lemma check_statements:
  "\<exists>n. map_option snd (statements p 0 n \<lparr>pc = 5, ok = b\<rparr> s) = thread_a_check p s"
  "\<exists>n. map_option snd (statements p 1 n \<lparr>pc = 5, ok = b\<rparr> s) = thread_b_check p s"
proof -
  have sg: "(0 :: nat) \<in> {0, 1}" "signature 0 = of_char (CHR ''A'')" "(1 :: nat) \<in> {0, 1}" "signature 1 = of_char (CHR ''B'')"
    by (simp_all add: signature_def)
  obtain n where n: "statements p 0 n \<lparr>pc = 5, ok = b\<rparr> s = map_option (\<lambda>r. (\<lparr>pc = 9, ok = r\<rparr>, s)) (verify_signature p (CHR ''A'') s)"
    using verify_statements [OF sg(1,2)] by blast
  have "map_option snd (statements p 0 (n + (if counter_a64 s mod 5 = 0 then 11 else 6)) \<lparr>pc = 5, ok = b\<rparr> s) = thread_a_check p s"
    unfolding statements_split n thread_a_check_def
    by (cases "verify_signature p (CHR ''A'') s")
      (simp_all add: statements_numeral body_def thread_a_body_def advance_def counter_def counters_kprint Let_def)
  then show "\<exists>n. map_option snd (statements p 0 n \<lparr>pc = 5, ok = b\<rparr> s) = thread_a_check p s" by blast
  obtain m where m: "statements p 1 m \<lparr>pc = 5, ok = b\<rparr> s = map_option (\<lambda>r. (\<lparr>pc = 9, ok = r\<rparr>, s)) (verify_signature p (CHR ''B'') s)"
    using verify_statements [OF sg(3,4)] by blast
  have "map_option snd (statements p 1 (m + 5) \<lparr>pc = 5, ok = b\<rparr> s) = thread_b_check p s"
    unfolding statements_split m thread_b_check_def
    by (cases "verify_signature p (CHR ''B'') s")
      (simp_all add: statements_numeral body_def thread_b_body_def advance_def counter_def counters_kprint Let_def)
  then show "\<exists>n. map_option snd (statements p 1 n \<lparr>pc = 5, ok = b\<rparr> s) = thread_b_check p s" by blast
qed

section \<open>The machine's steps\<close>

text \<open>
  An interrupt gate clears the flag, and \<open>iretq\<close> sets it again, as it was in the code that continues. Only the code in
  ring 3 makes system calls; its own instructions between them (registers only) do not appear.
\<close>

type_synonym 'a run = "(nat \<Rightarrow> thread_vars) \<times> 'a boot_scheme"

inductive kernel_step :: "(nat \<Rightarrow> bool) \<Rightarrow> nat \<Rightarrow> 'a run \<Rightarrow> 'a run \<Rightarrow> bool" for K p where
  statement: "current s (get_cpu_index p) = Some t \<Longrightarrow> pc (l t) < length (body t) \<Longrightarrow>
     exec p t (body t ! pc (l t)) (l t) s = Some (v, s') \<Longrightarrow> kernel_step K p (l, s) (l(t := v), s')"
| irq: "iflag s p \<Longrightarrow> fr_vector (mem s) f \<in> {32, 33} \<Longrightarrow> interrupt_dispatch p k f (cli p s) = Returned s' \<Longrightarrow>
     kernel_step K p (l, s) (l, sti p s')"
| syscall: "current s (get_cpu_index p) = Some 3 \<Longrightarrow> length (body 3) \<le> pc (l 3) \<Longrightarrow> fr_vector (mem s) f = 128 \<Longrightarrow>
     interrupt_dispatch p k f (cli p s) = Returned s' \<Longrightarrow> kernel_step K p (l, s) (l, sti p s')"
| stacks: "(\<And>x. \<not> K x \<Longrightarrow> m x = mem s x) \<Longrightarrow> kernel_step K p (l, s) (l, s\<lparr>mem := m\<rparr>)"

inductive kernel_reach :: "(nat \<Rightarrow> bool) \<Rightarrow> nat \<Rightarrow> 'a boot_scheme \<Rightarrow> 'a run \<Rightarrow> bool" for K p u where
  running: "(\<And>t. pc (l t) = 0) \<Longrightarrow> kernel_reach K p u (l, u)"
| runs_on: "kernel_reach K p u r \<Longrightarrow> kernel_step K p r r' \<Longrightarrow> kernel_reach K p u r'"

section \<open>Two address spaces\<close>

text \<open>The address spaces of two threads, in frames of their own, with nothing in \<open>K\<close>.\<close>

definition page :: "u64 \<Rightarrow> nat \<Rightarrow> bool" where
  "page f x \<longleftrightarrow> unat f \<le> x \<and> x < unat f + 4096"

definition isolated :: "(nat \<Rightarrow> bool) \<Rightarrow> u64 \<Rightarrow> u64 \<Rightarrow> u64 \<Rightarrow> u64 \<Rightarrow> u64 \<Rightarrow> memory \<Rightarrow> bool" where
  "isolated K k3 ra fa rb fb m \<longleftrightarrow> (\<exists>a3 ad ap b3 bd bp. space m k3 ra a3 ad ap fa \<and> space m k3 rb b3 bd bp fb \<and> table k3 \<and>
     distinct [k3, ra, a3, ad, ap, fa, rb, b3, bd, bp, fb] \<and>
     (\<forall>v \<in> {k3, ra, a3, ad, ap, fa, rb, b3, bd, bp, fb}. \<forall>x. K x \<longrightarrow> \<not> page v x))"

lemma page_apart: "table f \<Longrightarrow> table g \<Longrightarrow> f \<noteq> g \<Longrightarrow> page f x \<Longrightarrow> \<not> page g x"
  using table_apart [of f g] by (auto simp: page_def)

lemma isolatedD:
  assumes "isolated K k3 ra fa rb fb m"
  shows "own_space m k3 ra fa" "own_space m k3 rb fb" "page fa x \<Longrightarrow> \<not> page fb x" "K x \<Longrightarrow> \<not> page fa x \<and> \<not> page fb x"
proof -
  obtain a3 ad ap b3 bd bp where i: "space m k3 ra a3 ad ap fa" "space m k3 rb b3 bd bp fb" "table k3"
      "distinct [k3, ra, a3, ad, ap, fa, rb, b3, bd, bp, fb]"
      "\<forall>v \<in> {k3, ra, a3, ad, ap, fa, rb, b3, bd, bp, fb}. \<forall>x. K x \<longrightarrow> \<not> page v x"
    using assms unfolding isolated_def by blast
  have t: "table fa" "table fb" using i(1,2) by (simp_all add: space_def)
  show "own_space m k3 ra fa" unfolding own_space_def using i(1,3,4) by (intro exI [of _ a3] exI [of _ ad] exI [of _ ap]) auto
  show "own_space m k3 rb fb" unfolding own_space_def using i(2,3,4) by (intro exI [of _ b3] exI [of _ bd] exI [of _ bp]) auto
  show "page fa x \<Longrightarrow> \<not> page fb x" by (rule page_apart [OF t]) (use i(4) in auto)
  show "K x \<Longrightarrow> \<not> page fa x \<and> \<not> page fb x" using i(5) by blast
qed

text \<open>Writes to the threads' own pages and to \<open>K\<close> leave the address spaces as they are.\<close>

lemma isolated_cong:
  assumes "isolated K k3 ra fa rb fb m" "\<And>x. \<not> K x \<Longrightarrow> \<not> page fa x \<Longrightarrow> \<not> page fb x \<Longrightarrow> m' x = m x"
  shows "isolated K k3 ra fa rb fb m'"
proof -
  obtain a3 ad ap b3 bd bp where i: "space m k3 ra a3 ad ap fa" "space m k3 rb b3 bd bp fb" "table k3"
      "distinct [k3, ra, a3, ad, ap, fa, rb, b3, bd, bp, fb]"
      "\<forall>v \<in> {k3, ra, a3, ad, ap, fa, rb, b3, bd, bp, fb}. \<forall>x. K x \<longrightarrow> \<not> page v x"
    using assms(1) unfolding isolated_def by blast
  have t: "table fa" "table fb" "\<forall>v \<in> {k3, ra, a3, ad, ap, rb, b3, bd, bp}. table v"
    using i(1-3) by (simp_all add: space_def)
  have same: "m' x = m x" if v: "v \<in> {k3, ra, a3, ad, ap, rb, b3, bd, bp}" "unat v \<le> x" "x < unat v + 4096" for v x
  proof (rule assms(2))
    have pv: "page v x" and tv: "table v" using v t(3) by (auto simp: page_def)
    show "\<not> K x" using i(5) v(1) pv by auto
    have "v \<noteq> fa" "v \<noteq> fb" using v(1) i(4) by auto
    then show "\<not> page fa x" "\<not> page fb x" using page_apart [OF tv t(1)] page_apart [OF tv t(2)] pv by auto
  qed
  have "space m' k3 ra a3 ad ap fa" by (rule space_cong [OF i(1)], rule same) auto
  moreover have "space m' k3 rb b3 bd bp fb" by (rule space_cong [OF i(2)], rule same) auto
  ultimately show ?thesis unfolding isolated_def using i(3-5) by blast
qed

text \<open>The kernel image but its page tables.\<close>

definition kernel_data :: "u64 \<Rightarrow> 'a boot_scheme \<Rightarrow> nat \<Rightarrow> bool" where
  "kernel_data hi s x \<longleftrightarrow> 0x100000 \<le> x \<and> x < unat hi \<and> \<not> (frame_pool s \<le> x \<and> x < frame_pool s + 262144)"

lemma boot_stacks_apart:
  fixes h :: "'a boot_scheme"
  assumes "boot_state p hi rs l m h" "ram_ok hi rs"
  shows "stacks_apart h"
proof -
  have lay: "layout hi h" and av: "frames_avail h = frames_left 0x100000 (unat hi) rs 0 0" and k3: "kernel_pdpt h \<in> pool h"
    using assms(1) unfolding boot_state_def by blast+
  have "stack_top64 h t \<le> unat f" if "t < 16" "f \<in> set (pf.frames h)" for t f
    using ram_frame_bounds(1) [OF assms(2) av that(2)] lay that(1) by (auto simp: layout_def stack_top64_def)
  then show ?thesis using pool_table(7) [OF lay k3] by (simp add: stacks_apart_def stack_apart_def)
qed

lemma boot_isolated:
  fixes h :: "'a boot_scheme"
  assumes st: "boot_state p hi rs l m h" and ram: "ram_ok hi rs" and made: "spaces_made h roots m'" and n: "2 \<le> length roots"
  obtains fa fb where "isolated (kernel_data hi h) (kernel_pdpt h) (roots ! 0) fa (roots ! 1) fb m'" "unat hi \<le> unat (roots ! 0)"
proof -
  have lay: "layout hi h" and av: "frames_avail h = frames_left 0x100000 (unat hi) rs 0 0" and fr: "fresh h (pool h)"
    and k3: "kernel_pdpt h \<in> pool h" using st unfolding boot_state_def by blast+
  let ?fs = "pf.frames h" and ?k3 = "kernel_pdpt h"
  note s = made [unfolded spaces_made_def, rule_format, OF boot_stacks_apart [OF st ram]]
  have n2: "0 < length roots" "1 < length roots" using n by auto
  obtain a3 ad ap fa where a: "take 5 ?fs = [roots ! 0, a3, ad, ap, fa]" "space m' ?k3 (roots ! 0) a3 ad ap fa" using s [OF n2(1)] by auto
  obtain b3 bd bp fb where b: "take 5 (drop 5 ?fs) = [roots ! 1, b3, bd, bp, fb]" "space m' ?k3 (roots ! 1) b3 bd bp fb" using s [OF n2(2)] by auto
  let ?ts = "[roots ! 0, a3, ad, ap, fa, roots ! 1, b3, bd, bp, fb]"
  have "take 10 ?fs = take 5 ?fs @ take 5 (drop 5 ?fs)" using take_add [of 5 5 ?fs] by simp
  then have ts: "take 10 ?fs = ?ts" by (simp only: a(1) b(1) append.simps)
  note f = freshD [OF fr]
  have mem: "v \<in> set ?fs" if "v \<in> set ?ts" for v using that unfolding ts [symmetric] by (rule in_set_takeD)
  have hi: "unat hi \<le> unat v" if "v \<in> set ?ts" for v by (rule ram_frame_bounds(1) [OF ram av mem [OF that]])
  have "\<not> page ?k3 x" if "kernel_data hi h x" for x using that pool_table(2,3) [OF lay k3] by (auto simp: kernel_data_def page_def)
  moreover have "\<not> page v x" if "kernel_data hi h x" "v \<in> set ?ts" for v x
    using that(1) hi [OF that(2)] by (auto simp: kernel_data_def page_def)
  ultimately have apart: "\<forall>v \<in> set (?k3 # ?ts). \<forall>x. kernel_data hi h x \<longrightarrow> \<not> page v x" by (metis set_ConsD)
  have "distinct ?ts" unfolding ts [symmetric] using f(2) by simp
  moreover have "?k3 \<notin> set ?ts" using f(3) mem k3 by blast
  ultimately have dist: "distinct (?k3 # ?ts)" by (simp only: distinct.simps simp_thms)
  have "isolated (kernel_data hi h) ?k3 (roots ! 0) fa (roots ! 1) fb m'"
    unfolding isolated_def using a(2) b(2) pool_table(1) [OF lay k3] dist apart unfolding list.set by blast
  moreover have "unat hi \<le> unat (roots ! 0)" by (rule hi) simp
  ultimately show ?thesis by (rule that)
qed

section \<open>The invariant\<close>

text \<open>The scheduler's part: whose turn it is, the time slices, and the running thread's address space in the processor's register.\<close>

definition turns :: "nat list set" where
  "turns = {[0, 1, 3], [1, 3, 0], [3, 0, 1]}"

definition machine_ok :: "(nat \<Rightarrow> bool) \<Rightarrow> nat \<Rightarrow> u64 \<Rightarrow> u64 \<Rightarrow> u64 \<Rightarrow> 'a boot_scheme \<Rightarrow> bool" where
  "machine_ok K p k3 fa fb s \<longleftrightarrow>
     (\<exists>xs \<in> turns. sched_rep s (boot_queues(5 := xs)) \<and> current s (get_cpu_index p) = Some (hd xs)) \<and>
     (\<forall>i \<in> {0, 1, 3}. \<exists>j < 5. time_slice (threads64 s i) = of_nat (Suc j)) \<and>
     (\<forall>i. current s (get_cpu_index p) = Some i \<longrightarrow>
        loaded_cr3 s (get_cpu_index p) = thread_cr3 (threads64 s i) \<and> cr3 s p = thread_cr3 (threads64 s i)) \<and>
     isolated K k3 (thread_cr3 (threads64 s 0)) fa (thread_cr3 (threads64 s 1)) fb (mem s)"

text \<open>A thread's part: the bytes of its signature it has written, in its page \<open>f\<close>, and what it found when it read them.\<close>

definition thread_ok :: "nat \<Rightarrow> u64 \<Rightarrow> thread_vars \<Rightarrow> memory \<Rightarrow> bool" where
  "thread_ok t f l m \<longleftrightarrow> pc l < length (body t) \<and> (\<forall>i < 4. i + 1 < pc l \<longrightarrow> m (unat f + i) = signature t) \<and> (9 \<le> pc l \<longrightarrow> ok l)"

text \<open>The lock's part: it is held, with interrupts off, exactly while ThreadA is in its critical section.\<close>

definition in_section :: "thread_vars \<Rightarrow> bool" where
  "in_section l \<longleftrightarrow> pc l = 17 \<or> pc l = 18"

definition lock_ok :: "nat \<Rightarrow> thread_vars \<Rightarrow> 'a boot_scheme \<Rightarrow> bool" where
  "lock_ok p l s \<longleftrightarrow> \<not> reschedule_pending s (get_cpu_index p) \<and>
     (if in_section l
      then current s (get_cpu_index p) = Some 0 \<and> preempt_disable_count s (get_cpu_index p) = 1 \<and> \<not> iflag s p \<and> saved_if s (get_cpu_index p)
      else preempt_disable_count s (get_cpu_index p) = 0 \<and> iflag s p)"

definition kernel_inv :: "(nat \<Rightarrow> bool) \<Rightarrow> nat \<Rightarrow> u64 \<Rightarrow> u64 \<Rightarrow> u64 \<Rightarrow> 'a run \<Rightarrow> bool" where
  "kernel_inv K p k3 fa fb = (\<lambda>(l, s). machine_ok K p k3 fa fb s \<and> thread_ok 0 fa (l 0) (mem s) \<and> thread_ok 1 fb (l 1) (mem s) \<and>
     lock_ok p (l 0) s)"

text \<open>What these parts depend on.\<close>

definition mview :: "nat \<Rightarrow> 'a boot_scheme \<Rightarrow> _" where
  "mview p s = (ready_bitmap s, ready_queue s, threads64 s, thread64_count s, current s, cr3 s p, loaded_cr3 s)"

definition lview :: "nat \<Rightarrow> 'a boot_scheme \<Rightarrow> _" where
  "lview p s = (reschedule_pending s, preempt_disable_count s, saved_if s, iflag s p)"

lemma machine_ok_cong:
  fixes s s' :: "'a boot_scheme"
  assumes "machine_ok K p k3 fa fb s" "mview p s' = mview p s"
    and "isolated K k3 (thread_cr3 (threads64 s 0)) fa (thread_cr3 (threads64 s 1)) fb (mem s) \<Longrightarrow>
      isolated K k3 (thread_cr3 (threads64 s 0)) fa (thread_cr3 (threads64 s 1)) fb (mem s')"
  shows "machine_ok K p k3 fa fb s'"
proof -
  have v: "ready_bitmap s' = ready_bitmap s" "ready_queue s' = ready_queue s" "threads64 s' = threads64 s" "thread64_count s' = thread64_count s"
    "current s' = current s" "cr3 s' p = cr3 s p" "loaded_cr3 s' = loaded_cr3 s" using assms(2) by (simp_all add: mview_def)
  have "sched_rep s' R = sched_rep s R" for R by (simp add: sched_rep_def v)
  then show ?thesis using assms(1,3) unfolding machine_ok_def v by blast
qed

lemma lock_ok_cong:
  fixes s s' :: "'a boot_scheme"
  assumes "lock_ok p l s" "lview p s' = lview p s" "current s' = current s" "in_section l' = in_section l"
  shows "lock_ok p l' s'"
  using assms by (auto simp: lock_ok_def lview_def)

lemma machine_current:
  assumes "machine_ok K p k3 fa fb s"
  obtains x y z where "[x, y, z] \<in> turns" "sched_rep s (boot_queues(5 := [x, y, z]))" "current s (get_cpu_index p) = Some x"
    "x \<in> {0, 1, 3}" "x \<noteq> y" "y \<in> {0, 1, 3}" "[y, z, x] \<in> turns"
proof -
  obtain xs where "xs \<in> turns" "sched_rep s (boot_queues(5 := xs))" "current s (get_cpu_index p) = Some (hd xs)"
    using assms unfolding machine_ok_def by blast
  then show ?thesis using that [of "hd xs" "hd (tl xs)" "hd (tl (tl xs))"] by (auto simp: turns_def)
qed

lemma turns_top: "[x, y, z] \<in> turns \<Longrightarrow> top_queue (boot_queues(5 := [x, y, z])) 5"
  by (auto simp: top_queue_def boot_queues_def)

section \<open>Its preservation: the scheduler\<close>

lemma reschedule_lview:
  "reschedule_pending (sched64_reschedule p s) = reschedule_pending s" "saved_if (sched64_reschedule p s) = saved_if s"
proof -
  have l: "reschedule_pending (NKern_LockForSwitch p s) = reschedule_pending s" "saved_if (NKern_LockForSwitch p s) = saved_if s"
    "reschedule_pending (NKern_UnlockAfterSwitch p s) = reschedule_pending s" "saved_if (NKern_UnlockAfterSwitch p s) = saved_if s" for s
    by (simp_all add: nkern_defs)
  have c: "reschedule_pending (context_switch64 p x r s) = reschedule_pending s" "saved_if (context_switch64 p x r s) = saved_if s" for x r s
    by (simp_all add: context_switch64_def Let_def split: option.splits)
  show "reschedule_pending (sched64_reschedule p s) = reschedule_pending s" "saved_if (sched64_reschedule p s) = saved_if s"
    by (simp_all add: sched64_reschedule_def Let_def l c split: option.splits if_splits)
qed

lemma reschedule_machine:
  fixes s :: "'a boot_scheme"
  assumes "machine_ok K p k3 fa fb s"
  shows "machine_ok K p k3 fa fb (sched64_reschedule p s)"
proof -
  obtain x y z where c: "[x, y, z] \<in> turns" "sched_rep s (boot_queues(5 := [x, y, z]))" "current s (get_cpu_index p) = Some x"
      "x \<in> {0, 1, 3}" "x \<noteq> y" "y \<in> {0, 1, 3}" "[y, z, x] \<in> turns"
    by (rule machine_current [OF assms])
  let ?u = "sched64_reschedule p s" and ?R = "boot_queues(5 := [x, y, z])"
  have q: "?R 5 = x # y # [z]" by simp
  note m = assms [unfolded machine_ok_def]
  note top = turns_top [OF c(1)]
  note r = reschedule_rotate [OF c(2) top q c(3)] and rot = rr64.resched_rotate [OF c(2) top q c(3)]
  have "sched_rep ?u (boot_queues(5 := [y, z, x]))" "current ?u (get_cpu_index p) = Some (hd [y, z, x])"
    using rot [unfolded fun_upd_upd] by simp_all
  then have 1: "\<exists>xs \<in> turns. sched_rep ?u (boot_queues(5 := xs)) \<and> current ?u (get_cpu_index p) = Some (hd xs)" using c(7) by blast
  have "loaded_cr3 s (get_cpu_index p) = cr3 s p" using m c(3) by simp
  then have 2: "\<forall>i. current ?u (get_cpu_index p) = Some i \<longrightarrow>
      loaded_cr3 ?u (get_cpu_index p) = thread_cr3 (threads64 ?u i) \<and> cr3 ?u p = thread_cr3 (threads64 ?u i)"
    using r(11,12) rot by (simp add: reschedule_identity)
  show ?thesis unfolding machine_ok_def using 1 2 m by (simp add: reschedule_identity reschedule_time_slice)
qed

text \<open>One tick outside the critical section.\<close>

lemma tick_machine:
  fixes s :: "'a boot_scheme"
  assumes m: "machine_ok K p k3 fa fb s" and z: "preempt_disable_count s (get_cpu_index p) = 0"
  defines "u \<equiv> sched64_timer_tick p s"
  shows "machine_ok K p k3 fa fb u \<and> mem u = mem s \<and> reschedule_pending u = reschedule_pending s \<and>
    preempt_disable_count u = preempt_disable_count s \<and> saved_if u = saved_if s"
proof -
  obtain x y z' where c: "current s (get_cpu_index p) = Some x" "x \<in> {0, 1, 3}" by (rule machine_current [OF m])
  obtain j where j: "j < 5" "time_slice (threads64 s x) = of_nat (Suc j)" using m c(2) unfolding machine_ok_def by blast
  have upd: "machine_ok K p k3 fa fb (set_thread x (\<lambda>th. th\<lparr>time_slice := of_nat (Suc i)\<rparr>) s)" if "i < 5" for i
  proof -
    let ?s = "set_thread x (\<lambda>th. th\<lparr>time_slice := of_nat (Suc i)\<rparr>) s"
    have "sched_rep ?s R" if "sched_rep s R" for R by (rule sched_rep_cong [OF that]) simp_all
    then have "\<exists>xs \<in> turns. sched_rep ?s (boot_queues(5 := xs)) \<and> current ?s (get_cpu_index p) = Some (hd xs)"
      using m unfolding machine_ok_def by auto
    moreover have "\<exists>j < 5. time_slice (threads64 ?s k) = of_nat (Suc j)" if "k \<in> {0, 1, 3}" for k
      using m that \<open>i < 5\<close> unfolding machine_ok_def by (cases "k = x") auto
    ultimately show ?thesis using m unfolding machine_ok_def by auto
  qed
  show ?thesis
  proof (cases "j = 0")
    case True
    then have "u = sched64_reschedule p (set_thread x (\<lambda>th. th\<lparr>time_slice := of_nat (Suc 4)\<rparr>) s)"
      using tick_last [OF c(1)] j(2) z by (simp add: u_def NKern_IsLocked_def)
    then show ?thesis using reschedule_machine [OF upd [of 4]] by (simp add: reschedule_lview reschedule_count)
  next
    case False
    then have "u = set_thread x (\<lambda>th. th\<lparr>time_slice := of_nat (Suc (j - 1))\<rparr>) s"
      using tick_early [OF c(1) j(2)] j(1) by (simp add: u_def)
    then show ?thesis using upd [of "j - 1"] j(1) by simp
  qed
qed

section \<open>Its preservation: the interrupts\<close>

lemma handler_views:
  fixes s :: "'a boot_scheme"
  shows "mview p (lapic_send_eoi p s) = mview p s" "lview p (lapic_send_eoi p s) = lview p s" "mem (lapic_send_eoi p s) = mem s"
    "mview p (keyboard_handle_irq k s) = mview p s" "lview p (keyboard_handle_irq k s) = lview p s" "mem (keyboard_handle_irq k s) = mem s"
    "mview p (kprint t s) = mview p s" "lview p (kprint t s) = lview p s"
    "mview p (kprint_hex64 w s) = mview p s" "lview p (kprint_hex64 w s) = lview p s"
    "mview p (syscall_print f s) = mview p s" "lview p (syscall_print f s) = lview p s" "mem (syscall_print f s) = mem s"
proof -
  have v: "mview p (kprint t s) = mview p s \<and> lview p (kprint t s) = lview p s" "mview p (kprint_hex64 w s) = mview p s \<and> lview p (kprint_hex64 w s) = lview p s"
    for t w and s :: "'a boot_scheme"
    using kprint_frame [of t s] kprint_hex64_frame [of w s] by (auto simp: mview_def lview_def)
  then show "mview p (kprint t s) = mview p s" "lview p (kprint t s) = lview p s"
    "mview p (kprint_hex64 w s) = mview p s" "lview p (kprint_hex64 w s) = lview p s" by simp_all
  show "mview p (lapic_send_eoi p s) = mview p s" "lview p (lapic_send_eoi p s) = lview p s" "mem (lapic_send_eoi p s) = mem s"
    using mmio_write_frame [of p "lapic_base_pa s + LAPIC_EOI" 0 s] by (auto simp: lapic_send_eoi_def lapic_write_def mview_def lview_def)
  have b: "mview p (shift_held_update g s) = mview p s" "lview p (shift_held_update g s) = lview p s"
    "mview p (kbd_buffer_update h s) = mview p s" "lview p (kbd_buffer_update h s) = lview p s"
    "mview p (kbd_head_update i s) = mview p s" "lview p (kbd_head_update i s) = lview p s" for g h i and s :: "'a boot_scheme"
    by (simp_all add: mview_def lview_def)
  show "mview p (keyboard_handle_irq k s) = mview p s" "lview p (keyboard_handle_irq k s) = lview p s" "mem (keyboard_handle_irq k s) = mem s"
    by (simp_all add: keyboard_handle_irq_def kbd_buffer_push_def Let_def v b kprint_mem)
  have u: "mview p (call_count_update g s) = mview p s" "lview p (call_count_update g s) = lview p s"
    "mview p (shown_update h s) = mview p s" "lview p (shown_update h s) = lview p s" for g h and s :: "'a boot_scheme"
    by (simp_all add: mview_def lview_def)
  show "mview p (syscall_print f s) = mview p s" "lview p (syscall_print f s) = lview p s" "mem (syscall_print f s) = mem s"
    by (simp_all add: syscall_print_def Let_def u v kprint_mem)
qed

text \<open>An interrupt outside the critical section.\<close>

lemma interrupt_inv:
  fixes s :: "'a boot_scheme"
  assumes inv: "kernel_inv K p k3 fa fb (l, s)" and fl: "iflag s p" and vec: "fr_vector (mem s) f \<in> {32, 33, 128}"
    and run: "interrupt_dispatch p k f (cli p s) = Returned s'"
  shows "kernel_inv K p k3 fa fb (l, sti p s')"
proof -
  have i: "machine_ok K p k3 fa fb s" "thread_ok 0 fa (l 0) (mem s)" "thread_ok 1 fb (l 1) (mem s)" "lock_ok p (l 0) s"
    using inv by (simp_all add: kernel_inv_def)
  have out: "\<not> in_section (l 0)" "preempt_disable_count s (get_cpu_index p) = 0" "\<not> reschedule_pending s (get_cpu_index p)"
    using i(4) fl by (simp_all add: lock_ok_def split: if_splits)
  have cli: "mview p (cli p s) = mview p s" "mem (cli p s) = mem s" "reschedule_pending (cli p s) = reschedule_pending s"
    "preempt_disable_count (cli p s) = preempt_disable_count s" by (simp_all add: cli_def mview_def)
  have mc: "machine_ok K p k3 fa fb (cli p s)" by (rule machine_ok_cong [OF i(1) cli(1)]) (simp add: cli(2))
  have "machine_ok K p k3 fa fb s' \<and> mem s' = mem s \<and> reschedule_pending s' = reschedule_pending s \<and> preempt_disable_count s' = preempt_disable_count s"
  proof (cases "fr_vector (mem s) f = 32")
    case True
    let ?e = "lapic_send_eoi p (cli p s)"
    have e: "reschedule_pending ?e = reschedule_pending s" "preempt_disable_count ?e = preempt_disable_count s"
      using handler_views(2) [of p "cli p s"] by (simp_all add: lview_def cli(3,4))
    have "machine_ok K p k3 fa fb ?e" by (rule machine_ok_cong [OF mc handler_views(1)]) (simp add: handler_views(3))
    moreover have "s' = sched64_timer_tick p ?e" using run True by (simp add: interrupt_dispatch_def Let_def cli(2))
    ultimately show ?thesis using tick_machine [of K p k3 fa fb ?e] out(2) e by (simp add: handler_views(3) cli(2))
  next
    case False
    then have "s' = lapic_send_eoi p (keyboard_handle_irq k (cli p s)) \<or> s' = syscall_print f (cli p s)"
      using run vec by (auto simp: interrupt_dispatch_def Let_def cli(2))
    then have v: "mview p s' = mview p (cli p s)" "lview p s' = lview p (cli p s)" "mem s' = mem s" by (auto simp: handler_views cli(2))
    have "machine_ok K p k3 fa fb s'" by (rule machine_ok_cong [OF mc v(1)]) (simp add: v(3) cli(2))
    then show ?thesis using v(2,3) by (simp add: lview_def cli(3,4))
  qed
  moreover have "mview p (sti p s') = mview p s'" "mem (sti p s') = mem s'" "reschedule_pending (sti p s') = reschedule_pending s'"
    "preempt_disable_count (sti p s') = preempt_disable_count s'" "iflag (sti p s') p" by (simp_all add: sti_def mview_def)
  ultimately show ?thesis using machine_ok_cong [of K p k3 fa fb s' "sti p s'"] i(2,3) out by (simp add: kernel_inv_def lock_ok_def)
qed

section \<open>Its preservation: the statements\<close>

text \<open>Statements that print, count or branch.\<close>

fun plain :: "action \<Rightarrow> bool" where
  "plain Increment = True"
| "plain (Say _) = True"
| "plain SayId = True"
| "plain SayCount = True"
| "plain SayVerdict = True"
| "plain EveryFifth = True"
| "plain _ = False"

text \<open>Which statement is where in the loops of ThreadA and ThreadB.\<close>

definition placed :: "nat \<Rightarrow> nat \<Rightarrow> bool" where
  "placed t n \<longleftrightarrow>
     (if n = 0 then body t ! n = Increment
      else if n < 5 then body t ! n = Store (n - 1)
      else if n < 9 then body t ! n = Load (n - 5)
      else if t = 0 \<and> n = 16 then body t ! n = Lock
      else if t = 0 \<and> n = 18 then body t ! n = Unlock
      else plain (body t ! n) \<and> (n \<noteq> 14 \<longrightarrow> body t ! n \<noteq> EveryFifth))"

lemma bodies_placed:
  assumes "t \<in> {0, 1}" "n < length (body t)"
  shows "placed t n"
proof -
  have "list_all (placed 0) [0..<20]" "list_all (placed 1) [0..<14]"
    by (simp_all add: upt_rec placed_def body_def thread_a_body_def thread_b_body_def)
  then have "\<forall>n < 20. placed 0 n" "\<forall>n < 14. placed 1 n" by (simp_all add: list_all_iff)
  then show ?thesis using assms by (auto simp: body_lengths)
qed

lemma plain_exec:
  fixes s :: "'a boot_scheme"
  assumes "plain a"
  obtains v s' where "exec p t a l s = Some (v, s')" "v = advance t l \<or> a = EveryFifth \<and> v = l\<lparr>pc := 0\<rparr>" "mview p s' = mview p s" "lview p s' = lview p s" "mem s' = mem s"
proof -
  have i: "mview p (increment t s) = mview p s" "lview p (increment t s) = lview p s" "mem (increment t s) = mem s"
    by (simp_all add: increment_def mview_def lview_def)
  have "\<exists>v s'. exec p t a l s = Some (v, s') \<and> (v = advance t l \<or> a = EveryFifth \<and> v = l\<lparr>pc := 0\<rparr>) \<and> mview p s' = mview p s \<and> lview p s' = lview p s \<and> mem s' = mem s"
    using assms by (cases a) (simp_all add: i handler_views kprint_mem)
  then show ?thesis using that by blast
qed

lemma plain_thread:
  assumes "thread_ok t f l m" "t \<in> {0, 1}" "plain (body t ! pc l)" "v = advance t l \<or> body t ! pc l = EveryFifth \<and> v = l\<lparr>pc := 0\<rparr>"
  shows "thread_ok t f v m" "t = 0 \<Longrightarrow> in_section v = in_section l" "pc v = pc (advance t l) \<or> pc l = 14 \<and> pc v = 0"
proof -
  have n: "pc l < length (body t)" using assms(1) by (simp add: thread_ok_def)
  have at: "pc l = 0 \<or> 9 \<le> pc l \<and> (t = 0 \<longrightarrow> pc l \<noteq> 16 \<and> pc l \<noteq> 18)"
      and ef: "pc l \<noteq> 14 \<longrightarrow> body t ! pc l \<noteq> EveryFifth"
    using bodies_placed [OF assms(2) n] assms(3) by (auto simp: placed_def split: if_splits)
  show "pc v = pc (advance t l) \<or> pc l = 14 \<and> pc v = 0" using assms(4) ef by auto
  show "thread_ok t f v m" using assms(1,2,4) at by (auto simp: thread_ok_def advance_def body_lengths split: if_splits)
  show "in_section v = in_section l" if "t = 0" using that at ef assms(4) by (auto simp: in_section_def advance_def body_lengths split: if_splits)
qed

text \<open>The page of thread \<open>t\<close>, when it runs.\<close>

lemma running_space:
  fixes s :: "'a boot_scheme"
  assumes "machine_ok K p k3 fa fb s" "current s (get_cpu_index p) = Some t" "t \<in> {0, 1}"
  shows "own_space (mem s) k3 (cr3 s p) (if t = 0 then fa else fb)"
proof -
  have "cr3 s p = thread_cr3 (threads64 s t)" "isolated K k3 (thread_cr3 (threads64 s 0)) fa (thread_cr3 (threads64 s 1)) fb (mem s)"
    using assms(1,2) by (auto simp: machine_ok_def)
  then show ?thesis using isolatedD(1,2) assms(3) by auto
qed

text \<open>Writes that miss a thread's page.\<close>

lemma thread_ok_other: "thread_ok t f l m \<Longrightarrow> (\<And>x. page f x \<Longrightarrow> m' x = m x) \<Longrightarrow> thread_ok t f l m'"
  by (simp add: thread_ok_def page_def)

lemma store_inv:
  fixes s :: "'a boot_scheme"
  assumes inv: "kernel_inv K p k3 fa fb (l, s)" and cur: "current s (get_cpu_index p) = Some t" "t \<in> {0, 1}"
    and at: "pc (l t) = Suc i" "i < 4"
  obtains s' where "store_va p (DEMO_VA + i) (signature t) s = Some s'" "kernel_inv K p k3 fa fb (l(t := advance t (l t)), s')" "current s' = current s"
proof -
  have k: "machine_ok K p k3 fa fb s" "thread_ok 0 fa (l 0) (mem s)" "thread_ok 1 fb (l 1) (mem s)" "lock_ok p (l 0) s"
    using inv by (simp_all add: kernel_inv_def)
  define f where "f = (if t = 0 then fa else fb)"
  have "own_space (mem s) k3 (cr3 s p) f" unfolding f_def by (rule running_space [OF k(1) cur])
  then have "walk (mem s) (cr3 s p) (of_nat (DEMO_VA + i)) = Some (unat f + i, True, False)"
    by (rule own_space_walk) (use at(2) in simp)
  then have run: "store_va p (DEMO_VA + i) (signature t) s = Some (s\<lparr>mem := (mem s)(unat f + i := signature t)\<rparr>)"
    by (simp add: store_va_def del: of_nat_add)
  let ?m = "(mem s)(unat f + i := signature t)"
  have iso: "isolated K k3 (thread_cr3 (threads64 s 0)) fa (thread_cr3 (threads64 s 1)) fb (mem s)" using k(1) by (simp add: machine_ok_def)
  have in_f: "page f (unat f + i)" using at(2) by (simp add: page_def)
  have out: "?m x = mem s x" if "\<not> page f x" for x using in_f that by auto
  have "isolated K k3 (thread_cr3 (threads64 s 0)) fa (thread_cr3 (threads64 s 1)) fb ?m"
    by (rule isolated_cong [OF iso], rule out) (simp add: f_def)
  then have m: "machine_ok K p k3 fa fb (s\<lparr>mem := ?m\<rparr>)"
    by (intro machine_ok_cong [OF k(1)]) (simp_all add: mview_def)
  have own: "thread_ok t f (advance t (l t)) ?m"
    using k(2,3) cur(2) at by (auto simp: thread_ok_def advance_def body_lengths f_def less_Suc_eq)
  have other: "thread_ok 0 fa (l 0) ?m" if "t = 1" using that isolatedD(3) [OF iso] by (intro thread_ok_other [OF k(2)] out) (simp add: f_def)
  have other': "thread_ok 1 fb (l 1) ?m" if "t = 0" using that isolatedD(3) [OF iso] by (intro thread_ok_other [OF k(3)] out) (auto simp: f_def)
  have "lock_ok p (if t = 0 then advance t (l t) else l 0) (s\<lparr>mem := ?m\<rparr>)"
    by (rule lock_ok_cong [OF k(4)]) (use at in \<open>auto simp: lview_def in_section_def advance_def\<close>)
  then have "kernel_inv K p k3 fa fb (l(t := advance t (l t)), s\<lparr>mem := ?m\<rparr>)"
    using m own other other' cur(2) by (cases "t = 0") (simp_all add: kernel_inv_def f_def)
  then show ?thesis by (rule that [OF run]) simp
qed

lemma load_inv:
  fixes s :: "'a boot_scheme"
  assumes inv: "kernel_inv K p k3 fa fb (l, s)" and cur: "current s (get_cpu_index p) = Some t" "t \<in> {0, 1}"
    and at: "pc (l t) = i + 5" "i < 4"
  obtains v where "exec p t (Load i) (l t) s = Some (v, s)" "kernel_inv K p k3 fa fb (l(t := v), s)" "pc v = pc (advance t (l t))"
proof -
  have k: "machine_ok K p k3 fa fb s" "thread_ok 0 fa (l 0) (mem s)" "thread_ok 1 fb (l 1) (mem s)" "lock_ok p (l 0) s"
    using inv by (simp_all add: kernel_inv_def)
  define f where "f = (if t = 0 then fa else fb)"
  have "own_space (mem s) k3 (cr3 s p) f" unfolding f_def by (rule running_space [OF k(1) cur])
  then have "walk (mem s) (cr3 s p) (of_nat (DEMO_VA + i)) = Some (unat f + i, True, False)"
    by (rule own_space_walk) (use at(2) in simp)
  moreover have "mem s (unat f + i) = signature t" using k(2,3) cur(2) at by (auto simp: thread_ok_def f_def)
  ultimately have "load_va p (DEMO_VA + i) s = Some (signature t)" by (simp add: load_va_def del: of_nat_add)
  then have run: "exec p t (Load i) (l t) s = Some (if i = 3 then (advance t (l t))\<lparr>ok := True\<rparr> else advance t (l t), s)" (is "_ = Some (?v, s)")
    by simp
  have "thread_ok t f ?v (mem s)" using k(2,3) cur(2) at by (auto simp: thread_ok_def advance_def body_lengths f_def)
  moreover have "lock_ok p (if t = 0 then ?v else l 0) s"
    by (rule lock_ok_cong [OF k(4)]) (use at in \<open>auto simp: lview_def in_section_def advance_def\<close>)
  ultimately have "kernel_inv K p k3 fa fb (l(t := ?v), s)" using k cur(2) by (auto simp: kernel_inv_def f_def split: if_splits)
  then show ?thesis by (rule that [OF run]) simp
qed

text \<open>Entering and leaving the critical section.\<close>

lemma lock_inv_step:
  fixes s :: "'a boot_scheme"
  assumes inv: "kernel_inv K p k3 fa fb (l, s)" and cur: "current s (get_cpu_index p) = Some 0"
  shows "pc (l 0) = 16 \<Longrightarrow> kernel_inv K p k3 fa fb (l(0 := advance 0 (l 0)), NKern_Lock p s) \<and> current (NKern_Lock p s) = current s"
    "pc (l 0) = 18 \<Longrightarrow> kernel_inv K p k3 fa fb (l(0 := advance 0 (l 0)), NKern_Unlock (sched64_reschedule p) p s) \<and>
      current (NKern_Unlock (sched64_reschedule p) p s) = current s"
proof -
  have k: "machine_ok K p k3 fa fb s" "thread_ok 0 fa (l 0) (mem s)" "thread_ok 1 fb (l 1) (mem s)" "lock_ok p (l 0) s"
    using inv by (simp_all add: kernel_inv_def)
  have t: "thread_ok 0 fa (advance 0 (l 0)) (mem s)" if "9 \<le> pc (l 0)"
    using k(2) that by (auto simp: thread_ok_def advance_def body_lengths)
  have step: "kernel_inv K p k3 fa fb (l(0 := advance 0 (l 0)), u) \<and> current u = current s" if "mview p u = mview p s" "mem u = mem s" "lock_ok p (advance 0 (l 0)) u" "9 \<le> pc (l 0)"
    for u :: "'a boot_scheme"
    using machine_ok_cong [OF k(1) that(1)] that t [OF that(4)] k(3) by (simp add: kernel_inv_def) (simp add: mview_def)
  show "kernel_inv K p k3 fa fb (l(0 := advance 0 (l 0)), NKern_Lock p s) \<and> current (NKern_Lock p s) = current s" if n: "pc (l 0) = 16"
  proof (rule step)
    have o: "preempt_disable_count s (get_cpu_index p) = 0" "iflag s p" "\<not> reschedule_pending s (get_cpu_index p)"
      using k(4) n by (auto simp: lock_ok_def in_section_def)
    show "lock_ok p (advance 0 (l 0)) (NKern_Lock p s)"
      using o cur n by (simp add: lock_ok_def in_section_def advance_def body_lengths nkern_defs)
  qed (use n in \<open>simp_all add: mview_def nkern_defs\<close>)
  show "kernel_inv K p k3 fa fb (l(0 := advance 0 (l 0)), NKern_Unlock (sched64_reschedule p) p s) \<and>
      current (NKern_Unlock (sched64_reschedule p) p s) = current s" if n: "pc (l 0) = 18"
  proof (rule step)
    have o: "preempt_disable_count s (get_cpu_index p) = 1" "saved_if s (get_cpu_index p)" "\<not> reschedule_pending s (get_cpu_index p)"
      using k(4) n by (auto simp: lock_ok_def in_section_def)
    then have u: "NKern_Unlock (sched64_reschedule p) p s = sti p (spin_release (count_down p s))" by (simp add: nkern_defs)
    show "lock_ok p (advance 0 (l 0)) (NKern_Unlock (sched64_reschedule p) p s)"
      unfolding u using o n by (simp add: lock_ok_def in_section_def advance_def body_lengths nkern_defs)
    show "mview p (NKern_Unlock (sched64_reschedule p) p s) = mview p s" "mem (NKern_Unlock (sched64_reschedule p) p s) = mem s"
      unfolding u by (simp_all add: mview_def nkern_defs)
  qed (use n in simp)
qed

text \<open>The launcher, and the threads' statements together.\<close>

lemma launcher_inv:
  fixes s :: "'a boot_scheme"
  assumes inv: "kernel_inv K p k3 fa fb (l, s)" and cur: "current s (get_cpu_index p) = Some 3" and n: "pc (l 3) < length (body 3)"
  obtains v s' where "exec p 3 (body 3 ! pc (l 3)) (l 3) s = Some (v, s')" "kernel_inv K p k3 fa fb (l(3 := v), s')" "current s' = current s"
proof -
  have k: "machine_ok K p k3 fa fb s" "thread_ok 0 fa (l 0) (mem s)" "thread_ok 1 fb (l 1) (mem s)" "lock_ok p (l 0) s"
    using inv by (simp_all add: kernel_inv_def)
  have fl: "iflag s p" using k(4) cur by (auto simp: lock_ok_def split: if_splits)
  have "pc (l 3) = 0 \<or> pc (l 3) = 1" using n by (auto simp: body_lengths)
  then have "\<exists>v s'. exec p 3 (body 3 ! pc (l 3)) (l 3) s = Some (v, s') \<and> mview p s' = mview p s \<and> lview p s' = lview p s \<and> mem s' = mem s"
    using fl by (auto simp: body_def launcher_body_def handler_views kprint_mem enter_usermode_def Let_def bit_simps)
      (simp_all add: mview_def lview_def)
  then obtain v s' where e: "exec p 3 (body 3 ! pc (l 3)) (l 3) s = Some (v, s')" "mview p s' = mview p s" "lview p s' = lview p s" "mem s' = mem s"
    by blast
  have c: "current s' = current s" using e(2) by (simp add: mview_def)
  have "kernel_inv K p k3 fa fb (l(3 := v), s')"
    using machine_ok_cong [OF k(1) e(2)] lock_ok_cong [OF k(4) e(3) c refl] k(2,3) by (simp add: kernel_inv_def e(4))
  then show ?thesis using that e(1) c by blast
qed

lemma thread_inv:
  fixes s :: "'a boot_scheme"
  assumes inv: "kernel_inv K p k3 fa fb (l, s)" and cur: "current s (get_cpu_index p) = Some t" "t \<in> {0, 1}"
  obtains v s' where "exec p t (body t ! pc (l t)) (l t) s = Some (v, s')" "kernel_inv K p k3 fa fb (l(t := v), s')"
    "current s' = current s" "pc v = pc (advance t (l t)) \<or> pc (l t) = 14 \<and> pc v = 0"
proof -
  have k: "machine_ok K p k3 fa fb s" "thread_ok 0 fa (l 0) (mem s)" "thread_ok 1 fb (l 1) (mem s)" "lock_ok p (l 0) s"
    using inv by (simp_all add: kernel_inv_def)
  have n: "pc (l t) < length (body t)" using k(2,3) cur(2) by (auto simp: thread_ok_def)
  note pl = bodies_placed [OF cur(2) n, unfolded placed_def]
  consider (plain) "plain (body t ! pc (l t))" | (store) "pc (l t) = Suc (pc (l t) - 1)" "pc (l t) - 1 < 4" "body t ! pc (l t) = Store (pc (l t) - 1)"
    | (load) "pc (l t) = pc (l t) - 5 + 5" "pc (l t) - 5 < 4" "body t ! pc (l t) = Load (pc (l t) - 5)"
    | (lock) "t = 0" "pc (l t) = 16" "body t ! pc (l t) = Lock" | (unlock) "t = 0" "pc (l t) = 18" "body t ! pc (l t) = Unlock"
    using pl by (auto split: if_splits)
  then show ?thesis
  proof cases
    case plain
    obtain v s' where e: "exec p t (body t ! pc (l t)) (l t) s = Some (v, s')"
        "v = advance t (l t) \<or> body t ! pc (l t) = EveryFifth \<and> v = (l t)\<lparr>pc := 0\<rparr>" "mview p s' = mview p s" "lview p s' = lview p s" "mem s' = mem s"
      by (rule plain_exec [OF plain])
    have c: "current s' = current s" using e(3) by (simp add: mview_def)
    define f where "f = (if t = 0 then fa else fb)"
    have "thread_ok t f (l t) (mem s)" using k(2,3) cur(2) by (auto simp: f_def)
    note th = plain_thread [OF this cur(2) plain e(2)]
    have "lock_ok p (if t = 0 then v else l 0) s'" by (rule lock_ok_cong [OF k(4) e(4) c]) (use th(2) in auto)
    then have "kernel_inv K p k3 fa fb (l(t := v), s')"
      using machine_ok_cong [OF k(1) e(3)] th(1) k(2,3) cur(2) by (cases "t = 0") (simp_all add: kernel_inv_def f_def e(5))
    then show ?thesis by (rule that [OF e(1) _ c th(3)])
  next
    case store
    obtain s' where s': "store_va p (DEMO_VA + (pc (l t) - 1)) (signature t) s = Some s'" "kernel_inv K p k3 fa fb (l(t := advance t (l t)), s')"
        "current s' = current s" by (rule store_inv [OF inv cur store(1,2)])
    show ?thesis by (rule that [OF _ s'(2,3)]) (simp_all add: store(3) s'(1) del: One_nat_def)
  next
    case load
    obtain v where v: "exec p t (Load (pc (l t) - 5)) (l t) s = Some (v, s)" "kernel_inv K p k3 fa fb (l(t := v), s)" "pc v = pc (advance t (l t))"
      by (rule load_inv [OF inv cur load(1,2)])
    show ?thesis by (rule that [OF v(1) [folded load(3)] v(2) refl]) (simp add: v(3))
  next
    case lock
    then show ?thesis using lock_inv_step(1) [OF inv] cur(1) by (intro that [of "advance 0 (l 0)" "NKern_Lock p s"]) simp_all
  next
    case unlock
    then show ?thesis using lock_inv_step(2) [OF inv] cur(1)
      by (intro that [of "advance 0 (l 0)" "NKern_Unlock (sched64_reschedule p) p s"]) simp_all
  qed
qed

lemma step_inv:
  fixes r r' :: "'a run"
  assumes "kernel_step K p r r'" "kernel_inv K p k3 fa fb r"
  shows "kernel_inv K p k3 fa fb r'"
  using assms
proof (induction rule: kernel_step.induct)
  case (statement s t l v s')
  obtain x y z where x: "current s (get_cpu_index p) = Some x" "x \<in> {0, 1, 3}"
    by (rule machine_current [of K p k3 fa fb s]) (use statement.prems in \<open>simp_all add: kernel_inv_def\<close>)
  then have "t = 3 \<or> t \<in> {0, 1}" using statement.hyps(1) by auto
  then show ?case
  proof
    assume t: "t = 3"
    show ?case by (rule launcher_inv [of K p k3 fa fb l s]) (use statement t in auto)
  next
    assume t: "t \<in> {0, 1}"
    show ?case by (rule thread_inv [OF statement.prems statement.hyps(1) t]) (use statement in auto)
  qed
next
  case (irq s f k s' l)
  then show ?case by (intro interrupt_inv [of K p k3 fa fb l s f k s']) auto
next
  case (syscall s l f k s')
  then have "iflag s p" by (auto simp: kernel_inv_def lock_ok_def split: if_splits)
  then show ?case using syscall by (intro interrupt_inv [of K p k3 fa fb l s f k s']) auto
next
  case (stacks m s l)
  have k: "machine_ok K p k3 fa fb s" "thread_ok 0 fa (l 0) (mem s)" "thread_ok 1 fb (l 1) (mem s)" "lock_ok p (l 0) s"
    using stacks.prems by (simp_all add: kernel_inv_def)
  have iso: "isolated K k3 (thread_cr3 (threads64 s 0)) fa (thread_cr3 (threads64 s 1)) fb (mem s)" using k(1) by (simp add: machine_ok_def)
  have same: "m x = mem s x" if "page fa x \<or> page fb x" for x using isolatedD(4) [OF iso] that stacks.hyps [of x] by blast
  have "isolated K k3 (thread_cr3 (threads64 s 0)) fa (thread_cr3 (threads64 s 1)) fb m"
    by (rule isolated_cong [OF iso]) (use stacks.hyps in blast)
  then have "machine_ok K p k3 fa fb (s\<lparr>mem := m\<rparr>)" by (intro machine_ok_cong [OF k(1)]) (simp_all add: mview_def)
  moreover have "lock_ok p (l 0) (s\<lparr>mem := m\<rparr>)" by (rule lock_ok_cong [OF k(4)]) (simp_all add: lview_def)
  ultimately show ?case
    using thread_ok_other [OF k(2), of m] thread_ok_other [OF k(3), of m] same by (simp add: kernel_inv_def)
qed

lemma reach_inv:
  assumes "kernel_reach K p u r" "\<And>l. (\<And>t. pc (l t) = 0) \<Longrightarrow> kernel_inv K p k3 fa fb (l, u)"
  shows "kernel_inv K p k3 fa fb r"
  using assms(1) by induction (use assms(2) step_inv in blast)+

section \<open>Every thread gets to report\<close>

lemma tick_turn:
  fixes s :: "'a boot_scheme"
  assumes m: "machine_ok K p k3 fa fb s" and z: "preempt_disable_count s (get_cpu_index p) = 0"
    and x: "current s (get_cpu_index p) = Some x" "[x, y, z'] \<in> turns" "time_slice (threads64 s x) = of_nat (Suc j)" "j < 5"
  shows "if j = 0 then current (sched64_timer_tick p s) (get_cpu_index p) = Some y
    else current (sched64_timer_tick p s) (get_cpu_index p) = Some x \<and> time_slice (threads64 (sched64_timer_tick p s) x) = of_nat j"
proof (cases "j = 0")
  case False
  then show ?thesis using tick_early [OF x(1), of j] x by simp
next
  case True
  obtain x' y' w where c: "[x', y', w] \<in> turns" "sched_rep s (boot_queues(5 := [x', y', w]))" "current s (get_cpu_index p) = Some x'"
    by (rule machine_current [OF m])
  then have w: "x' = x" "y' = y" using x(1,2) by (auto simp: turns_def)
  let ?s = "set_thread x (\<lambda>th. th\<lparr>time_slice := 5\<rparr>) s"
  have rep: "sched_rep ?s (boot_queues(5 := [x, y, w]))" by (rule sched_rep_cong [OF c(2) [unfolded w]]) simp_all
  have "sched64_timer_tick p s = sched64_reschedule p ?s"
    using tick_last [OF x(1)] x(3) True z by (simp add: NKern_IsLocked_def)
  moreover have "current (sched64_reschedule p ?s) (get_cpu_index p) = Some (hd ([y, w] @ [x]))"
    by (rule conjunct2 [OF rr64.resched_rotate [OF rep turns_top]]) (use c(1) w x(1) in simp_all)
  ultimately show ?thesis using True by simp
qed

text \<open>A timer interrupt, its frame somewhere on a stack.\<close>

lemma timer_steps:
  fixes s :: "'a boot_scheme"
  assumes inv: "kernel_inv K p k3 fa fb (l, s)" and out: "\<not> in_section (l 0)" and g: "\<And>x. g \<le> x \<Longrightarrow> x < g + 8 \<Longrightarrow> K x" "120 \<le> g"
    and x: "current s (get_cpu_index p) = Some x" "[x, y, z] \<in> turns" "time_slice (threads64 s x) = of_nat (Suc j)" "j < 5"
  obtains s' where "(kernel_step K p)\<^sup>*\<^sup>* (l, s) (l, s')" "kernel_inv K p k3 fa fb (l, s')"
    "if j = 0 then current s' (get_cpu_index p) = Some y else current s' (get_cpu_index p) = Some x \<and> time_slice (threads64 s' x) = of_nat j"
proof -
  define w where "w = s\<lparr>mem := write64 (mem s) g 32\<rparr>"
  have f: "fr_vector (mem w) (g - 120) = 32" using g(2) by (simp add: frame_field_def w_def mem_simps)
  have 1: "kernel_step K p (l, s) (l, w)" unfolding w_def
    by (rule stacks) (use g(1) in \<open>metis write64_outside not_le\<close>)
  have iw: "kernel_inv K p k3 fa fb (l, w)" by (rule step_inv [OF 1 inv])
  have lk: "iflag w p" "preempt_disable_count w (get_cpu_index p) = 0" using iw out by (simp_all add: kernel_inv_def lock_ok_def)
  let ?e = "lapic_send_eoi p (cli p w)"
  have run: "interrupt_dispatch p 0 (g - 120) (cli p w) = Returned (sched64_timer_tick p ?e)"
    using f by (simp add: interrupt_dispatch_def Let_def cli_def)
  have 2: "kernel_step K p (l, w) (l, sti p (sched64_timer_tick p ?e))" by (rule irq [OF lk(1) _ run]) (use f in simp)
  have v: "mview p ?e = mview p w" "preempt_disable_count ?e = preempt_disable_count w" "mem ?e = mem w"
    using handler_views(1,2,3) [of p "cli p w"] by (simp_all add: mview_def lview_def cli_def)
  have mw: "machine_ok K p k3 fa fb w" using iw by (simp add: kernel_inv_def)
  have me: "machine_ok K p k3 fa fb ?e" by (rule machine_ok_cong [OF mw v(1)]) (simp add: v(3))
  have c: "current ?e = current s" "threads64 ?e = threads64 s" using v(1) by (simp_all add: mview_def w_def)
  have st: "current (sti p u) = current u" "threads64 (sti p u) = threads64 u" for u :: "'a boot_scheme" by (simp_all add: sti_def)
  show ?thesis
  proof (rule that)
    show "(kernel_step K p)\<^sup>*\<^sup>* (l, s) (l, sti p (sched64_timer_tick p ?e))" using 1 2 by (meson converse_rtranclp_into_rtranclp rtranclp.rtrancl_refl)
    show "kernel_inv K p k3 fa fb (l, sti p (sched64_timer_tick p ?e))" by (rule step_inv [OF 2 iw])
    show "if j = 0 then current (sti p (sched64_timer_tick p ?e)) (get_cpu_index p) = Some y
       else current (sti p (sched64_timer_tick p ?e)) (get_cpu_index p) = Some x \<and> time_slice (threads64 (sti p (sched64_timer_tick p ?e)) x) = of_nat j"
      unfolding st by (rule tick_turn [OF me]) (use x lk v c in simp_all)
  qed
qed

lemma next_turn:
  fixes s :: "'a boot_scheme"
  assumes "kernel_inv K p k3 fa fb (l, s)" "\<not> in_section (l 0)" "current s (get_cpu_index p) = Some x" "[x, y, z] \<in> turns"
    and g: "\<And>x. g \<le> x \<Longrightarrow> x < g + 8 \<Longrightarrow> K x" "120 \<le> g"
  shows "\<exists>s'. (kernel_step K p)\<^sup>*\<^sup>* (l, s) (l, s') \<and> kernel_inv K p k3 fa fb (l, s') \<and> current s' (get_cpu_index p) = Some y"
proof -
  have "x \<in> {0, 1, 3}" using assms(4) by (auto simp: turns_def)
  then obtain j where "j < 5" "time_slice (threads64 s x) = of_nat (Suc j)" using assms(1) unfolding kernel_inv_def machine_ok_def by blast
  then show ?thesis using assms(1,3)
  proof (induction j arbitrary: s)
    case (0 s)
    show ?case by (rule timer_steps [OF 0(3) assms(2) g 0(4) assms(4) 0(2,1)]) auto
  next
    case (Suc j s)
    obtain s' where s': "(kernel_step K p)\<^sup>*\<^sup>* (l, s) (l, s')" "kernel_inv K p k3 fa fb (l, s')"
        "if Suc j = 0 then current s' (get_cpu_index p) = Some y
         else current s' (get_cpu_index p) = Some x \<and> time_slice (threads64 s' x) = of_nat (Suc j)"
      by (rule timer_steps [OF Suc.prems(3) assms(2) g Suc.prems(4) assms(4) Suc.prems(2,1)])
    have c: "current s' (get_cpu_index p) = Some x" "time_slice (threads64 s' x) = of_nat (Suc j)"
      using s'(3) by simp_all
    obtain s'' where "(kernel_step K p)\<^sup>*\<^sup>* (l, s') (l, s'')" "kernel_inv K p k3 fa fb (l, s'')" "current s'' (get_cpu_index p) = Some y"
      using Suc.IH [of s'] c s'(2) Suc.prems(1) by auto
    then show ?case using s'(1) rtranclp_trans by fast
  qed
qed

text \<open>Undisturbed, a thread comes to the statement that prints its verdict.\<close>

definition to_verdict :: "nat \<Rightarrow> nat" where
  "to_verdict n = (if n \<le> 13 then 13 - n else 33 - n)"

lemma reports_undisturbed:
  fixes s :: "'a boot_scheme"
  assumes "kernel_inv K p k3 fa fb (l, s)" "current s (get_cpu_index p) = Some t" "t \<in> {0, 1}"
  shows "\<exists>l' s'. (kernel_step K p)\<^sup>*\<^sup>* (l, s) (l', s') \<and> kernel_inv K p k3 fa fb (l', s') \<and> current s' (get_cpu_index p) = Some t \<and> pc (l' t) = 13"
  using assms(1,2)
proof (induction "to_verdict (pc (l t))" arbitrary: l s rule: less_induct)
  case (less l s)
  show ?case
  proof (cases "pc (l t) = 13")
    case True
    then show ?thesis using less.prems by blast
  next
    case False
    obtain v s' where v: "exec p t (body t ! pc (l t)) (l t) s = Some (v, s')" "kernel_inv K p k3 fa fb (l(t := v), s')"
        "current s' = current s" "pc v = pc (advance t (l t)) \<or> pc (l t) = 14 \<and> pc v = 0"
      by (rule thread_inv [OF less.prems assms(3)])
    have n: "pc (l t) < length (body t)" using less.prems(1) assms(3) by (auto simp: kernel_inv_def thread_ok_def)
    have "kernel_step K p (l, s) (l(t := v), s')" by (rule statement) (use less.prems(2) n v(1) in simp_all)
    then have 1: "(kernel_step K p)\<^sup>*\<^sup>* (l, s) (l(t := v), s')" by (rule r_into_rtranclp)
    have "to_verdict (pc ((l(t := v)) t)) < to_verdict (pc (l t))"
      using v(4) n False assms(3) by (auto simp: to_verdict_def advance_def body_lengths split: if_splits)
    from less.hyps [OF this v(2)] show ?thesis using less.prems(2) v(3) rtranclp_trans [OF 1] by fastforce
  qed
qed

lemma reports:
  fixes s :: "'a boot_scheme"
  assumes inv: "kernel_inv K p k3 fa fb (l, s)" and t: "t \<in> {0, 1}" and g: "\<And>x. g \<le> x \<Longrightarrow> x < g + 8 \<Longrightarrow> K x" "120 \<le> g"
  shows "\<exists>l' s'. (kernel_step K p)\<^sup>*\<^sup>* (l, s) (l', s') \<and> current s' (get_cpu_index p) = Some t \<and> pc (l' t) = 13"
proof -
  obtain l1 s1 where 1: "(kernel_step K p)\<^sup>*\<^sup>* (l, s) (l1, s1)" "kernel_inv K p k3 fa fb (l1, s1)" "\<not> in_section (l1 0)"
  proof (cases "in_section (l 0)")
    case False
    then show ?thesis using that inv by blast
  next
    case True
    then have "current s (get_cpu_index p) = Some 0" using inv by (simp add: kernel_inv_def lock_ok_def)
    from reports_undisturbed [OF inv this] show ?thesis using that by (force simp: in_section_def)
  qed
  obtain x y z where x: "[x, y, z] \<in> turns" "current s1 (get_cpu_index p) = Some x" "[y, z, x] \<in> turns"
    by (rule machine_current [of K p k3 fa fb s1]) (use 1(2) in \<open>auto simp: kernel_inv_def\<close>)
  obtain s2 where 2: "(kernel_step K p)\<^sup>*\<^sup>* (l1, s1) (l1, s2)" "kernel_inv K p k3 fa fb (l1, s2)" "current s2 (get_cpu_index p) = Some y"
    using next_turn [OF 1(2,3) x(2,1) g] by blast
  obtain s3 where 3: "(kernel_step K p)\<^sup>*\<^sup>* (l1, s2) (l1, s3)" "kernel_inv K p k3 fa fb (l1, s3)" "current s3 (get_cpu_index p) = Some z"
    using next_turn [OF 2(2) 1(3) 2(3) x(3) g] by blast
  have "t \<in> {x, y, z}" using x(1) t by (auto simp: turns_def)
  then obtain s4 where 4: "(kernel_step K p)\<^sup>*\<^sup>* (l, s) (l1, s4)" "kernel_inv K p k3 fa fb (l1, s4)" "current s4 (get_cpu_index p) = Some t"
    using 1(1,2) 2(2,3) 3(2,3) x(2) rtranclp_trans [OF 1(1) 2(1)] rtranclp_trans [OF rtranclp_trans [OF 1(1) 2(1)] 3(1)] by blast
  from reports_undisturbed [OF 4(2,3) t] show ?thesis using rtranclp_trans [OF 4(1)] by blast
qed

section \<open>The running kernel\<close>

lemma first_inv:
  fixes t :: "'a boot_scheme"
  assumes "sched_rep t boot_queues" "\<forall>i < 4. time_slice (threads64 t i) = 5" "current t (get_cpu_index p) = None"
    and "preempt_disable_count t (get_cpu_index p) = 0" "\<not> reschedule_pending t (get_cpu_index p)"
    and "loaded_cr3 t (get_cpu_index p) \<noteq> thread_cr3 (threads64 t 0)"
    and "isolated K k3 (thread_cr3 (threads64 t 0)) fa (thread_cr3 (threads64 t 1)) fb (mem t)" "\<And>i. pc (l i) = 0"
  shows "kernel_inv K p k3 fa fb (l, sched64_reschedule p t)"
proof -
  let ?u = "sched64_reschedule p t"
  have q: "boot_queues(5 := [0, 1, 3]) = boot_queues" by (auto simp: boot_queues_def)
  have tq: "[0, 1, 3] \<in> turns" by (simp add: turns_def)
  have top: "top_queue boot_queues 5" "boot_queues 5 = 0 # [1, 3]" using turns_top [OF tq, unfolded q] by (simp_all add: boot_queues_def)
  have n: "current t (get_cpu_index p) \<noteq> Some 0" using assms(3) by simp
  note r = reschedule_pick [OF assms(1) top n] and pick = rr64.resched_pick [OF assms(1) top n]
  have "\<exists>xs \<in> turns. sched_rep ?u (boot_queues(5 := xs)) \<and> current ?u (get_cpu_index p) = Some (hd xs)"
    using pick by (intro bexI [OF _ tq]) (unfold q, simp)
  moreover have "\<exists>j < 5. time_slice (threads64 ?u i) = of_nat (Suc j)" if "i \<in> {0, 1, 3}" for i
    using assms(2) that by (intro exI [of _ 4]) (auto simp: reschedule_time_slice)
  ultimately have "machine_ok K p k3 fa fb ?u"
    unfolding machine_ok_def using pick r(9,10) assms(6,7) by (auto simp: reschedule_identity)
  moreover have "lock_ok p (l 0) ?u"
    using reschedule_unlocks [OF assms(4)] assms(4,5,8) by (simp add: lock_ok_def in_section_def reschedule_lview)
  ultimately show ?thesis using assms(8) by (simp add: kernel_inv_def thread_ok_def body_lengths)
qed

lemma boots_running:
  fixes s :: "'a boot_scheme"
  assumes "cold p s" "layout (kernel_end img) s" "ram_ok (kernel_end img) (ram_regions mm)"
    and "firmware_tells (kernel_end img) (mem s) mbi mm lapic es"
    and "first_ioapic es \<noteq> 0" "mappable (ucast lapic)" "mappable (first_ioapic es)" "length (ap_blob img) \<le> 0x1000"
    and "enabled_cpus es = [of_nat p]" "p < 16" "loaded_cr3 s (get_cpu_index p) = 0"
  obtains u k3 fa fb where "kernel_main64 img alive p mbi s = Some (Inr ((), u))"
    "\<forall>l v. kernel_reach (kernel_data (kernel_end img) s) p u (l, v) \<longrightarrow> kernel_inv (kernel_data (kernel_end img) s) p k3 fa fb (l, v)"
proof -
  let ?ids = "take MAX_AP_CPUS (enabled_cpus es)"
  have ids: "distinct ?ids" "\<forall>i \<in> set ?ids. unat i < 16" "length ?ids \<le> 1"
    using assms(9,10) by (simp_all add: unat_of_nat)
  obtain h t :: "'a boot_scheme" where b: "kernel_main64 img alive p mbi s = Some (Inr ((), sched64_reschedule p t))" "sched_rep t boot_queues"
      "\<forall>i < 4. time_slice (threads64 t i) = 5" "current t (get_cpu_index p) = None" "preempt_disable_count t (get_cpu_index p) = 0"
      "\<not> reschedule_pending t (get_cpu_index p)"
      "boot_state p (kernel_end img) (ram_regions mm) (ucast lapic) (mem s) h" "loaded_cr3 h = loaded_cr3 s" "frame_pool h = frame_pool s"
      "length ?ids \<le> 1 \<longrightarrow> soft t = soft h \<and> spaces_made h (take 3 (map (\<lambda>i. thread_cr3 (threads64 t i)) [0..<4])) (mem t)"
    by (rule boots [OF assms(1-8) refl ids(1,2) refl, of alive]) blast
  let ?K = "kernel_data (kernel_end img) s" and ?r = "\<lambda>i. thread_cr3 (threads64 t i)"
  have made: "spaces_made h (take 3 (map ?r [0..<4])) (mem t)" and soft: "soft t = soft h" using b(10) ids(3) by blast+
  have K: "kernel_data (kernel_end img) h = ?K" by (simp add: kernel_data_def b(9) fun_eq_iff)
  have roots: "take 3 (map ?r [0..<4]) ! 0 = ?r 0" "take 3 (map ?r [0..<4]) ! 1 = ?r 1" by (simp_all add: upt_rec)
  obtain fa fb where i: "isolated ?K (kernel_pdpt h) (?r 0) fa (?r 1) fb (mem t)" "unat (kernel_end img) \<le> unat (?r 0)"
    by (rule boot_isolated [OF b(7) assms(3) made, unfolded roots K]) simp_all
  have "0 < unat (kernel_end img)" using assms(2) by (auto simp: layout_def)
  then have "?r 0 \<noteq> 0" using i(2) by (auto simp: unat_eq_0)
  moreover have "loaded_cr3 t (get_cpu_index p) = 0" using soft assms(11) b(8) by (simp add: soft_def)
  ultimately have start: "kernel_inv ?K p (kernel_pdpt h) fa fb (l, sched64_reschedule p t)" if "\<And>t. pc (l t) = 0" for l
    by (intro first_inv [OF b(2-6) _ i(1) that]) simp
  show ?thesis by (rule that [OF b(1)]) (use reach_inv [OF _ start] in blast)
qed

text \<open>The machine of theory \<open>Boot_Main\<close> without its second processor.\<close>

lemma single_boot:
  "kernel_end demo_image = 0x500000" "cold 0 (cold_boot 0)" "layout 0x500000 (cold_boot 0)"
  "ram_ok 0x500000 (ram_regions [(20, 0x100000, 0x700000, 1)])"
  "firmware_tells 0x500000 (mem (cold_boot 0)) 0x900000 [(20, 0x100000, 0x700000, 1)] 0xFEE00000 (demo_entries 0)"
  "first_ioapic (demo_entries 0) \<noteq> 0" "mappable (ucast (0xFEE00000 :: u32))" "mappable (first_ioapic (demo_entries 0))"
  "length (ap_blob demo_image) \<le> 0x1000" "enabled_cpus (demo_entries 0) = [of_nat 0]" "loaded_cr3 (cold_boot 0) (get_cpu_index 0) = 0"
  "get_cpu_index 0 = 0" "0 < (16 :: nat)"
proof -
  have rs: "ram_regions [(20, 0x100000, 0x700000, 1)] = [demo_ram]" by (simp add: ram_regions_def)
  show "ram_ok 0x500000 (ram_regions [(20, 0x100000, 0x700000, 1)])" unfolding rs by (rule demo_ram_ok)
  show "loaded_cr3 (cold_boot 0) (get_cpu_index 0) = 0" by (simp add: cold_boot_def demo_boot_def demo_smp_defs get_cpu_index_def)
  show "kernel_end demo_image = 0x500000" "length (ap_blob demo_image) \<le> 0x1000" by (simp_all add: demo_image_def)
  show "cold 0 (cold_boot 0)" "layout 0x500000 (cold_boot 0)" by (rule cold_boot_fields)+
  show "firmware_tells 0x500000 (mem (cold_boot 0)) 0x900000 [(20, 0x100000, 0x700000, 1)] 0xFEE00000 (demo_entries 0)"
    unfolding cold_boot_fields(3) by (rule demo_firmware_tells)
  show "mappable (ucast (0xFEE00000 :: u32))" "mappable (first_ioapic (demo_entries 0))"
    by (simp_all add: mappable_def va_index_eq demo_enabled)
  show "get_cpu_index 0 = 0" by (simp add: get_cpu_index_def)
qed (simp_all add: demo_enabled)

text \<open>C1. The kernel runs its threads apart. From the boot loader's state, on a machine with one processor, whatever the interleaving
  of the threads' statements with timer and keyboard interrupts and system calls, and whatever the use of the stacks: the
  processor always runs ThreadA, ThreadB or the ring-3 launcher, in that thread's address space; no access to \<open>DEMO_VA\<close> faults;
  whenever ThreadA or ThreadB comes to report, it reports \<open>AS=OK\<close>, though both write their signatures to the same
  virtual address and can be preempted after any byte; and ThreadA's critical section is never preempted: while it holds the kernel lock
  it is the thread that runs, with interrupts off, and outside of it the lock is free and interrupts are on.\<close>

theorem running_kernel_isolates_threads:
  fixes s :: "'a boot_scheme"
  assumes "cold p s" "layout (kernel_end img) s" "ram_ok (kernel_end img) (ram_regions mm)"
    and "firmware_tells (kernel_end img) (mem s) mbi mm lapic es"
    and "first_ioapic es \<noteq> 0" "mappable (ucast lapic)" "mappable (first_ioapic es)" "length (ap_blob img) \<le> 0x1000"
    and "enabled_cpus es = [of_nat p]" "p < 16" "loaded_cr3 s (get_cpu_index p) = 0"
  shows "\<exists>u. kernel_main64 img alive p mbi s = Some (Inr ((), u)) \<and>
    (\<forall>l v. kernel_reach (kernel_data (kernel_end img) s) p u (l, v) \<longrightarrow>
       (\<exists>t \<in> {0, 1, 3}. current v (get_cpu_index p) = Some t \<and> cr3 v p = thread_cr3 (threads64 v t) \<and>
          (pc (l t) < length (body t) \<longrightarrow> exec p t (body t ! pc (l t)) (l t) v \<noteq> None)) \<and>
       (\<forall>t \<in> {0, 1}. pc (l t) < length (body t) \<and> (body t ! pc (l t) = SayVerdict \<longrightarrow> ok (l t))) \<and>
       (if in_section (l 0) then current v (get_cpu_index p) = Some 0 \<and> \<not> iflag v p \<and> NKern_IsLocked p v
        else iflag v p \<and> \<not> NKern_IsLocked p v))"
proof -
  let ?K = "kernel_data (kernel_end img) s"
  obtain u k3 fa fb where u: "kernel_main64 img alive p mbi s = Some (Inr ((), u))"
      "\<forall>l v. kernel_reach ?K p u (l, v) \<longrightarrow> kernel_inv ?K p k3 fa fb (l, v)"
    by (rule boots_running [OF assms])
  have run: "\<exists>t \<in> {0, 1, 3}. current v (get_cpu_index p) = Some t \<and> cr3 v p = thread_cr3 (threads64 v t) \<and>
          (pc (l t) < length (body t) \<longrightarrow> exec p t (body t ! pc (l t)) (l t) v \<noteq> None)"
    if inv: "kernel_inv ?K p k3 fa fb (l, v)" for l and v :: "'a boot_scheme"
  proof -
    have m: "machine_ok ?K p k3 fa fb v" using inv by (simp add: kernel_inv_def)
    obtain t y z where t: "current v (get_cpu_index p) = Some t" "t \<in> {0, 1, 3}" by (rule machine_current [OF m])
    have "cr3 v p = thread_cr3 (threads64 v t)" using m t(1) by (simp add: machine_ok_def)
    moreover have "exec p t (body t ! pc (l t)) (l t) v \<noteq> None" if n: "pc (l t) < length (body t)"
    proof (cases "t = 3")
      case True
      show ?thesis unfolding True by (rule launcher_inv [OF inv]) (use True t(1) n in simp_all)
    next
      case False
      show ?thesis by (rule thread_inv [OF inv t(1)]) (use False t(2) in simp_all)
    qed
    ultimately show ?thesis using t by blast
  qed
  have verdict: "pc (l t) < length (body t) \<and> (body t ! pc (l t) = SayVerdict \<longrightarrow> ok (l t))"
    if inv: "kernel_inv ?K p k3 fa fb (l, v)" and t: "t \<in> {0, 1}" for l t and v :: "'a boot_scheme"
  proof -
    obtain f where f: "thread_ok t f (l t) (mem v)" using inv t by (auto simp: kernel_inv_def)
    then have n: "pc (l t) < length (body t)" by (simp add: thread_ok_def)
    then show ?thesis using bodies_placed [OF t n] f by (auto simp: placed_def thread_ok_def split: if_splits)
  qed
  have "if in_section (l 0) then current v (get_cpu_index p) = Some 0 \<and> \<not> iflag v p \<and> NKern_IsLocked p v
        else iflag v p \<and> \<not> NKern_IsLocked p v" if "kernel_inv ?K p k3 fa fb (l, v)" for l and v :: "'a boot_scheme"
    using that by (simp add: kernel_inv_def lock_ok_def NKern_IsLocked_def split: if_splits)
  then show ?thesis using u run verdict by blast
qed

text \<open>The machine of theory \<open>Boot_Main\<close> without its second processor.\<close>

theorem running_kernel_isolates_threads_witness:
  "\<exists>u. kernel_main64 demo_image (\<lambda>_. False) 0 0x900000 (cold_boot 0) = Some (Inr ((), u)) \<and> current u 0 \<noteq> None \<and>
     (\<forall>l v. kernel_reach (kernel_data 0x500000 (cold_boot 0)) 0 u (l, v) \<longrightarrow> (pc (l 1) = 13 \<longrightarrow> ok (l 1)))"
proof -
  have b13: "body 1 ! 13 = SayVerdict" by (simp add: body_def thread_b_body_def)
  obtain u where u: "kernel_main64 demo_image (\<lambda>_. False) 0 0x900000 (cold_boot 0) = Some (Inr ((), u))"
      "\<forall>l v. kernel_reach (kernel_data 0x500000 (cold_boot 0)) 0 u (l, v) \<longrightarrow>
         (\<exists>t \<in> {0, 1, 3}. current v 0 = Some t) \<and> (\<forall>t \<in> {0, 1}. body t ! pc (l t) = SayVerdict \<longrightarrow> ok (l t))"
    using running_kernel_isolates_threads [of 0 "cold_boot 0" demo_image "[(20, 0x100000, 0x700000, 1)]" "0x900000" "0xFEE00000"
        "demo_entries 0" "\<lambda>_. False", unfolded single_boot(1), OF single_boot(2-10,13,11)] unfolding single_boot(12) by blast
  have "kernel_reach (kernel_data 0x500000 (cold_boot 0)) 0 u (\<lambda>_. \<lparr>pc = 0, ok = False\<rparr>, u)" by (rule running) simp
  then show ?thesis using u b13 by fastforce
qed

text \<open>C7. The kernel never gets stuck. From every state the running kernel can get to, with any thread in the middle of anything, both ThreadA
  and ThreadB can still come to report, and will report \<open>AS=OK\<close>: the critical section ends, five ticks of the timer give the next
  thread its turn, and its statements lead to the report.\<close>

theorem running_kernel_keeps_reporting:
  fixes s :: "'a boot_scheme"
  assumes "cold p s" "layout (kernel_end img) s" "ram_ok (kernel_end img) (ram_regions mm)"
    and "firmware_tells (kernel_end img) (mem s) mbi mm lapic es"
    and "first_ioapic es \<noteq> 0" "mappable (ucast lapic)" "mappable (first_ioapic es)" "length (ap_blob img) \<le> 0x1000"
    and "enabled_cpus es = [of_nat p]" "p < 16" "loaded_cr3 s (get_cpu_index p) = 0"
  defines "K \<equiv> kernel_data (kernel_end img) s"
  shows "\<exists>u. kernel_main64 img alive p mbi s = Some (Inr ((), u)) \<and>
    (\<forall>l v. kernel_reach K p u (l, v) \<longrightarrow> (\<forall>t \<in> {0, 1}. \<exists>l' v'. (kernel_step K p)\<^sup>*\<^sup>* (l, v) (l', v') \<and>
       current v' (get_cpu_index p) = Some t \<and> body t ! pc (l' t) = SayVerdict \<and> ok (l' t)))"
proof -
  obtain u k3 fa fb where u: "kernel_main64 img alive p mbi s = Some (Inr ((), u))"
      "\<forall>l v. kernel_reach K p u (l, v) \<longrightarrow> kernel_inv K p k3 fa fb (l, v)"
    unfolding K_def by (rule boots_running [OF assms(1-11)])
  have g: "K x" if "heap_arena s \<le> x" "x < heap_arena s + 8" for x
    using assms(2) that by (auto simp: K_def kernel_data_def layout_def)
  have g120: "120 \<le> heap_arena s" using assms(2) by (auto simp: layout_def)
  have b13: "body t ! 13 = SayVerdict" if "t \<in> {0, 1}" for t
    using that by (auto simp: body_def thread_a_body_def thread_b_body_def)
  have "\<exists>l' v'. (kernel_step K p)\<^sup>*\<^sup>* (l, v) (l', v') \<and> current v' (get_cpu_index p) = Some t \<and> body t ! pc (l' t) = SayVerdict \<and> ok (l' t)"
    if r: "kernel_reach K p u (l, v)" and t: "t \<in> {0, 1}" for l v t
  proof -
    obtain l' v' where v': "(kernel_step K p)\<^sup>*\<^sup>* (l, v) (l', v')" "current v' (get_cpu_index p) = Some t" "pc (l' t) = 13"
      using reports [where K = K, OF _ t g g120] u(2) r by blast
    have "kernel_reach K p u (l', v')" using v'(1) r by (induction rule: rtranclp_induct) (auto intro: runs_on)
    then have "ok (l' t)" using u(2) v'(3) t by (auto simp: kernel_inv_def thread_ok_def)
    then show ?thesis using v' b13 [OF t] by (intro exI [of _ l'] exI [of _ v']) simp
  qed
  then show ?thesis using u(1) by blast
qed

theorem running_kernel_keeps_reporting_witness:
  "\<exists>u l v. kernel_main64 demo_image (\<lambda>_. False) 0 0x900000 (cold_boot 0) = Some (Inr ((), u)) \<and>
     (kernel_step (kernel_data 0x500000 (cold_boot 0)) 0)\<^sup>*\<^sup>* (\<lambda>_. \<lparr>pc = 0, ok = False\<rparr>, u) (l, v) \<and>
     current v 0 = Some 1 \<and> body 1 ! pc (l 1) = SayVerdict \<and> ok (l 1)"
proof -
  obtain u where u: "kernel_main64 demo_image (\<lambda>_. False) 0 0x900000 (cold_boot 0) = Some (Inr ((), u))"
      "\<forall>l v. kernel_reach (kernel_data 0x500000 (cold_boot 0)) 0 u (l, v) \<longrightarrow>
         (\<forall>t \<in> {0, 1}. \<exists>l' v'. (kernel_step (kernel_data 0x500000 (cold_boot 0)) 0)\<^sup>*\<^sup>* (l, v) (l', v') \<and>
            current v' 0 = Some t \<and> body t ! pc (l' t) = SayVerdict \<and> ok (l' t))"
    using running_kernel_keeps_reporting [of 0 "cold_boot 0" demo_image "[(20, 0x100000, 0x700000, 1)]" "0x900000" "0xFEE00000"
        "demo_entries 0" "\<lambda>_. False", unfolded single_boot(1), OF single_boot(2-10,13,11)] unfolding single_boot(12) by blast
  have "kernel_reach (kernel_data 0x500000 (cold_boot 0)) 0 u (\<lambda>_. \<lparr>pc = 0, ok = False\<rparr>, u)" by (rule running) simp
  then show ?thesis using u by blast
qed

end
