(* ===== verification/Spec2Isabelle.thy ===== *)
theory Spec2Isabelle
  imports Print_Lock Heap_Props Isr Context_Switch32 Boot_Asm Uefi Kernel_Run
begin

text \<open>
  \<^bold>\<open>NEKA: a model of the kernel and its correctness.\<close>

  \<^bold>\<open>The program.\<close> NEKA is a small x86 kernel in C and assembly, in two builds. The 64-bit kernel
  (\<open>src/main64.c\<close>) builds its page tables, segments and interrupt gates, finds the interrupt controllers in
  the firmware's tables, takes over the physical memory map, tests its heap, creates four threads, starts the other
  processors and hands over to a preemptive priority scheduler driven by the local APIC timer. The 32-bit kernel
  (\<open>src/main.c\<close>) runs two threads that yield to each other.

  \<^bold>\<open>The style of the model.\<close> A C file with static variables is a record of its variables; the record of a
  component extends that of the components it calls, so one state flows through the whole kernel and an
  operation on a component is a function on every extension of its record. Physical memory is a function from
  addresses (\<open>nat\<close>) to bytes, read and written little-endian in 16, 32 and 64 bits; machine integers are words
  of their width, so sums and shifts wrap as in C. Registers that exist once per processor are functions of the
  processor, and an operation that runs on a processor takes it as the argument \<open>p\<close> (its APIC id). A function that
  can panic returns \<open>Inl\<close> of the panic (category, code, state); one whose loop may not end, or that
  would go on where the C code has no defined behaviour, returns \<open>None\<close>. Device registers written are logged in
  order. There is no fuel: loops that end are recursive functions with a termination proof, and loops that may
  not end are defined as partial functions, for which the theorems state when a value is returned.

  \<^bold>\<open>Theories and sources.\<close>

  \<^item> \<open>Prelude\<close>: words, results and panics (\<open>presult\<close>, \<open>bind_p\<close>), the collections of simplification rules.
  \<^item> \<open>Console\<close>, \<open>Print_Lock\<close>: \<open>terminal64.c\<close>, \<open>panic.c\<close>. Text screen, serial port and the print lock; output stays on
    the screen, and calls of \<open>kprint\<close> on several processors come out one after the other.
  \<^item> \<open>Keyboard\<close>: \<open>keyboard.c\<close>. The scan-code translation and the ring buffer refine a bounded queue of typed text.
  \<^item> \<open>NKern\<close>: \<open>nkern_lock.c\<close>. The nested kernel lock as operations and as an interleaving of the atomic steps of any
    number of processors: mutual exclusion as an invariant by rule induction, deferred rescheduling.
  \<^item> \<open>Memory\<close>, \<open>Heap\<close>, \<open>Heap_Correct\<close>, \<open>Heap_Props\<close>: \<open>heap.c\<close>. The block list in memory against a list of blocks (size, free);
    allocations are disjoint and kept, freeing everything recovers one block, double and wild frees panic.
  \<^item> \<open>Memmap\<close>: \<open>memmap.c\<close>. Parsing the two firmware maps, and the frame allocator as a refinement of the sequence of
    usable frames.
  \<^item> \<open>Paging\<close>, \<open>Paging_Correct\<close>: \<open>paging64.c\<close>. Tables in memory and the processor's walk through them; identity map, device
    pages, isolation of address spaces and of the ring-3 process.
  \<^item> \<open>Ready_Rings\<close>, \<open>Sched64\<close>, \<open>Sched64_Correct\<close>: \<open>sched64.c\<close>, parts of \<open>kernel64.h\<close>. Rings of threads and the priority bitmap
    represent queues as lists; picking, rotation and time slices give round robin.
  \<^item> \<open>Context_Switch\<close>: \<open>context_switch64.s\<close>. Pushes and pops instruction by instruction: a switch there and back restores every
    register it saves, a new thread starts at its entry.
  \<^item> \<open>Acpi\<close>, \<open>Apic\<close>, \<open>Gdt\<close>, \<open>Idt\<close>: \<open>acpi.c\<close>, \<open>apic.c\<close>, \<open>gdt64.c\<close>, \<open>idt.c\<close>, \<open>idt.h\<close>, \<open>fpu.c\<close>. Firmware tables, interrupt routing and the timer,
    task states per processor, gates, the exception report, timer interrupts.
  \<^item> \<open>Isr\<close>: \<open>isr.s\<close>. Interrupts from their delivery through stub, handler and \<open>iretq\<close>, instruction by instruction: the frame is
    what the handler expects, every register comes back; faults halt with a report, system calls from ring 3 are counted.
  \<^item> \<open>Smp\<close>, \<open>Smp_Props\<close>: \<open>smp.c\<close> and what \<open>ap_trampoline.s\<close> reads and leaves. The processors that answer are up, on the
    kernel's tables and on stacks of their own.
  \<^item> \<open>Boot\<close>, \<open>Boot_Props\<close>, \<open>Boot_Threads\<close>, \<open>Boot_Stages\<close>, \<open>Boot_Main\<close>: \<open>main64.c\<close>, \<open>usermode.s\<close>. The heap self-test, the threads' bodies
    and the boot sequence, stage by stage and as a whole: from the boot loader's state \<open>kernel_main64\<close> reaches its first thread
    without a panic, with the other processors up.
  \<^item> \<open>Kernel_Run\<close>: \<open>main64.c\<close> after the boot. The threads statement by statement, interleaved with timer and keyboard interrupts and
    system calls, as a step relation from the state \<open>kernel_main64\<close> ends in; an invariant by rule induction gives that the threads
    stay in their own address spaces, that the critical section is not preempted, and that every thread keeps reporting.
  \<^item> \<open>Boot_Asm\<close>: \<open>boot64.s\<close>. The page tables built before \<open>kernel_main64\<close> and the entry into 64-bit mode through them.
  \<^item> \<open>Uefi\<close>: \<open>uefi_main.c\<close>. The UEFI entry hands the firmware's memory map over to the kernel.
  \<^item> \<open>Terminal32\<close>, \<open>Sched32\<close>, \<open>Kernel32\<close>, \<open>Context_Switch32\<close>: \<open>terminal.c\<close>, \<open>timer.c\<close>, \<open>timer64.c\<close>, \<open>sched.c\<close>, \<open>main.c\<close>,
    \<open>context_switch.s\<close>. The 32-bit build; its console has the effect of the 64-bit one, its two threads alternate for ever, and
    its context switch keeps a context and starts a new thread.

  \<^bold>\<open>Interfaces.\<close> What a component relies on is a locale, interpreted on the code's model where that is defined:
  the queues a scheduler keeps and how it picks (\<open>ready_scheduler\<close>, for both kernels), the frames an
  allocator has left (\<open>pf\<close>), a scheduler that leaves the heap alone (\<open>heap_scheduler\<close>), and the locks.

  \<^bold>\<open>Parameters.\<close> What is not under \<open>src/\<close> is an argument: which processors answer a start-up message, how long a device
  stays busy, the UEFI boot services, the addresses the linker chose and the assembled bytes of the trampoline.

  The processor's own part in an interrupt (the words it pushes, \<open>iretq\<close>, the checks of \<open>int\<close>) is defined in \<open>Isr\<close>; what the
  compiled handler leaves in the registers is a parameter there.

  \<^bold>\<open>The whole kernel.\<close> The theorems of \<open>Boot_Main\<close> and \<open>Kernel_Run\<close> compose the components: from the boot loader's state to the first
  thread with any number of processors up to eight, and from there through every interleaving on a machine with one. With several
  processors the scheduler can run one thread twice (\<open>Sched64_Correct\<close>), so there is no such theorem for them; the locks are
  followed on any number of processors in \<open>NKern\<close> and \<open>Print_Lock\<close>.

  \<^bold>\<open>Not modelled.\<close> The multiboot headers, the five instructions of \<open>boot.s\<close> and the linker scripts, which have no
  effect the model could state; of \<open>ap_trampoline.s\<close> the single instructions (what it reads and leaves in
  the registers is modelled). The timer theorems take the frame of a timer interrupt as given and write only its vector.
  Caches, the translation buffer and weak memory order are not modelled: an access takes effect at once. Delays are no-ops.
\<close>

end
